(* ===== verification/Prelude.thy ===== *)
theory Prelude
  imports Main "HOL-Library.Word" "HOL-Library.Code_Target_Nat"
begin

text \<open>
  Shared vocabulary of the development: the C integer types as words, kernel pointers, the
  convention for negative return codes, bit-mask tests, the bounded linear scan the kernel
  uses to find a free slot, little-endian byte encodings, and the trace of calls the modelled
  code makes into subsystems that are not modelled (audit log, slab allocator, snapshots).
\<close>

unbundle bit_operations_syntax

section \<open>Types\<close>

type_synonym u8 = "8 word"
type_synonym u16 = "16 word"
type_synonym u32 = "32 word"
type_synonym u64 = "64 word"

text \<open>
  A kernel pointer is a 64-bit word; 0 is NULL. A process id is an \<^verbatim>\<open>int32_t\<close> the modelled
  code only compares, so it is an \<^typ>\<open>int\<close>.
\<close>

type_synonym ptr = u64
type_synonym pid = int

abbreviation NULL :: ptr where
  "NULL \<equiv> 0"

text \<open>
  A C function that returns a negative code on failure and a value otherwise returns
  \<open>Inl code\<close> or \<open>Inr value\<close>.
\<close>

type_synonym 'a cres = "int + 'a"

named_theorems mask_simps
named_theorems wf_intros

section \<open>Bit masks\<close>

definition has_flag :: "'a::len word \<Rightarrow> 'a word \<Rightarrow> bool" where
  "has_flag w m \<longleftrightarrow> w AND m \<noteq> 0"

definition has_all :: "'a::len word \<Rightarrow> 'a word \<Rightarrow> bool" where
  "has_all w m \<longleftrightarrow> w AND m = m"

lemma has_all_refl [simp]: "has_all w w"
  by (simp add: has_all_def)

lemma has_all_zero [simp]: "has_all w 0"
  by (simp add: has_all_def)

lemma has_all_trans: "has_all a b \<Longrightarrow> has_all b c \<Longrightarrow> has_all a c"
proof -
  assume "has_all a b" "has_all b c"
  then have ab: "a AND b = b" and bc: "b AND c = c" by (simp_all add: has_all_def)
  have "a AND c = (a AND b) AND c" unfolding and.assoc bc ..
  with ab bc show ?thesis by (simp add: has_all_def)
qed

lemma has_all_flag: "has_all a b \<Longrightarrow> has_flag b m \<Longrightarrow> has_flag a m"
proof -
  assume ab: "has_all a b" and bm: "has_flag b m"
  have "b AND m = b AND (a AND m)"
    using ab unfolding has_all_def by (simp add: and.assoc [symmetric] and.commute [of b a])
  with bm show ?thesis unfolding has_flag_def by auto
qed

lemma has_flag_bit: "has_flag w m \<longleftrightarrow> (\<exists>n. bit w n \<and> bit m n)"
  by (auto simp: has_flag_def bit_eq_iff bit_and_iff) (metis bit_imp_le_length)

lemma has_flag_or [simp]: "has_flag (a OR b) m \<longleftrightarrow> has_flag a m \<or> has_flag b m"
  by (auto simp: has_flag_bit bit_or_iff)

lemma has_all_and_left: "has_all a (b AND a)"
  unfolding has_all_def by (simp add: and.commute and.left_commute)

lemma bit_u8_high [simp]: "8 \<le> n \<Longrightarrow> \<not> bit (w :: u8) n"
  using bit_imp_le_length [of w n] by auto

lemma bit_u32_high [simp]: "32 \<le> n \<Longrightarrow> \<not> bit (w :: u32) n"
  using bit_imp_le_length [of w n] by auto

section \<open>Linear scan\<close>

text \<open>
  \<open>first_from P i n\<close> is the loop \<^verbatim>\<open>for (; i < n; i++) if (P(i)) return i;\<close> with \<open>None\<close> for
  the fall-through.
\<close>

function first_from :: "(nat \<Rightarrow> bool) \<Rightarrow> nat \<Rightarrow> nat \<Rightarrow> nat option" where
  "first_from P i n = (if i < n then if P i then Some i else first_from P (Suc i) n else None)"
  by pat_completeness auto
termination
  by (relation "measure (\<lambda>(P, i, n). n - i)") auto

declare first_from.simps [simp del]

lemma first_from_SomeD:
  "first_from P i n = Some k \<Longrightarrow> i \<le> k \<and> k < n \<and> P k \<and> (\<forall>j. i \<le> j \<and> j < k \<longrightarrow> \<not> P j)"
proof (induction P i n rule: first_from.induct)
  case (1 P i n)
  show ?case
  proof (cases "i < n \<and> \<not> P i")
    case True
    with "1.prems" have "first_from P (Suc i) n = Some k"
      by (simp add: first_from.simps [of P i n])
    with True "1.IH" have ih: "Suc i \<le> k \<and> k < n \<and> P k \<and> (\<forall>j. Suc i \<le> j \<and> j < k \<longrightarrow> \<not> P j)"
      by blast
    have "\<not> P j" if "i \<le> j" "j < k" for j
      using that ih True by (cases "j = i") auto
    with ih show ?thesis by auto
  next
    case False
    with "1.prems" show ?thesis
      by (auto simp: first_from.simps [of P i n] split: if_splits)
  qed
qed

lemma first_from_NoneD:
  "first_from P i n = None \<Longrightarrow> i \<le> j \<Longrightarrow> j < n \<Longrightarrow> \<not> P j"
proof (induction P i n rule: first_from.induct)
  case (1 P i n)
  then have c: "\<not> P i" "i < n" and r: "first_from P (Suc i) n = None"
    by (auto simp: first_from.simps [of P i n] split: if_splits)
  show ?case
  proof (cases "j = i")
    case True
    with c show ?thesis by simp
  next
    case False
    with "1.prems" have "Suc i \<le> j" by simp
    with c r "1.IH" "1.prems"(3) show ?thesis by blast
  qed
qed

lemma first_from_exists:
  assumes "i \<le> j" "j < n" "P j"
  obtains k where "first_from P i n = Some k"
proof (cases "first_from P i n")
  case None
  from first_from_NoneD [OF None assms(1,2)] assms(3) show ?thesis by simp
qed (rule that)

section \<open>Little-endian byte encodings\<close>

definition le_bytes :: "nat \<Rightarrow> 'a::len word \<Rightarrow> u8 list" where
  "le_bytes n w = map (\<lambda>i. ucast (drop_bit (8 * i) w)) [0..<n]"

fun le_word :: "u8 list \<Rightarrow> 'a::len word" where
  "le_word [] = 0"
| "le_word (b # bs) = ucast b OR push_bit 8 (le_word bs)"

lemma length_le_bytes [simp]: "length (le_bytes n w) = n"
  by (simp add: le_bytes_def)

lemma le_bytes_Suc: "le_bytes (Suc n) w = ucast w # le_bytes n (drop_bit 8 w)"
  by (simp add: le_bytes_def map_upt_Suc add.commute del: upt_Suc)

lemma bit_le_word_le_bytes:
  "bit (le_word (le_bytes n w) :: 'a::len word) k \<longleftrightarrow> k < 8 * n \<and> bit (w :: 'a word) k"
proof (induction n arbitrary: w k)
  case 0
  then show ?case by (simp add: le_bytes_def)
next
  case (Suc n)
  have len: "bit w k \<Longrightarrow> k < LENGTH('a)" by (rule bit_imp_le_length)
  show ?case
  proof (cases "k < 8")
    case True
    with len show ?thesis
      by (simp add: le_bytes_Suc bit_or_iff bit_push_bit_iff bit_ucast_iff) blast
  next
    case False
    then have "8 + (k - 8) = k" and "k - 8 < 8 * n \<longleftrightarrow> k < 8 * Suc n" by auto
    with False len show ?thesis
      by (simp add: le_bytes_Suc bit_or_iff bit_push_bit_iff bit_ucast_iff Suc.IH bit_drop_bit_eq)
         blast
  qed
qed

lemma le_word_le_bytes:
  "LENGTH('a) \<le> 8 * n \<Longrightarrow> le_word (le_bytes n w) = (w :: 'a::len word)"
  by (rule bit_word_eqI) (simp add: bit_le_word_le_bytes)

section \<open>Trace of external calls\<close>

text \<open>
  Calls whose effect lies outside the modelled state, in the order the code makes them: records
  written to the audit log, blocks handed back to the slab caches and the kernel heap, and the
  snapshot and memory-object operations transactions rely on.
\<close>

datatype kevent =
    AuditCapDerive pid nat nat u64
  | AuditCapRevoke nat int
  | AuditPledgeViolation pid u16 u16 string
  | AuditPledgeNarrow pid u16 u16
  | AuditChanTypeMismatch pid nat u64 u64
  | AuditHandleTransfer pid pid nat nat
  | AuditTxnBegin pid nat u64 nat
  | AuditTxnCommit pid nat u64 nat
  | AuditTxnAbort pid nat u64 nat nat
  | AuditTxnPartialExternal pid nat u64 nat nat nat
  | KmemFree string ptr
  | KFreeRing ptr
  | Wake pid int
  | VmoDeactivate ptr
  | StreamDeactivate ptr
  | VmoUnref ptr
  | SnapRestore ptr
  | SnapDestroy ptr

end
