(* ===== verification/Cap_Token.thy ===== *)
theory Cap_Token
  imports Prelude
begin

text \<open>
  Capability tokens (kernel/cap/token.h and token.c): the constants of the capability system, the
  packed 64-bit token with its accessors, and the bounded pretty-printer. The lemmas show that
  packing and the accessors are inverse on the 24-bit index range and that the printer never
  writes past its buffer.
\<close>

section \<open>Constants\<close>

abbreviation CAP_KIND_NONE :: u16 where "CAP_KIND_NONE \<equiv> 0"
abbreviation CAP_KIND_CHANNEL :: u16 where "CAP_KIND_CHANNEL \<equiv> 4"
abbreviation CAP_KIND_VMO :: u16 where "CAP_KIND_VMO \<equiv> 5"
abbreviation CAP_KIND_STREAM :: u16 where "CAP_KIND_STREAM \<equiv> 8"
abbreviation CAP_KIND_TRANSACTION :: u16 where "CAP_KIND_TRANSACTION \<equiv> 13"
abbreviation CAP_KIND_SYSTEM :: u16 where "CAP_KIND_SYSTEM \<equiv> 14"

abbreviation RIGHT_READ :: u64 where "RIGHT_READ \<equiv> 0x1"
abbreviation RIGHT_WRITE :: u64 where "RIGHT_WRITE \<equiv> 0x2"
abbreviation RIGHT_DERIVE :: u64 where "RIGHT_DERIVE \<equiv> 0x8"
abbreviation RIGHT_REVOKE :: u64 where "RIGHT_REVOKE \<equiv> 0x10"
abbreviation RIGHT_INSPECT :: u64 where "RIGHT_INSPECT \<equiv> 0x20"
abbreviation RIGHT_SEND :: u64 where "RIGHT_SEND \<equiv> 0x200"
abbreviation RIGHT_RECV :: u64 where "RIGHT_RECV \<equiv> 0x400"
abbreviation RIGHT_COMMIT :: u64 where "RIGHT_COMMIT \<equiv> 0x2000"
abbreviation RIGHT_ABORT :: u64 where "RIGHT_ABORT \<equiv> 0x4000"
abbreviation RIGHT_INVOKE :: u64 where "RIGHT_INVOKE \<equiv> 0x10000"
abbreviation RIGHTS_ALL :: u64 where "RIGHTS_ALL \<equiv> 0xFFFFFFFFFFFFFFFF"

abbreviation CAP_FLAG_PUBLIC :: u8 where "CAP_FLAG_PUBLIC \<equiv> 0x01"
abbreviation CAP_FLAG_EAGER_REVOKE :: u8 where "CAP_FLAG_EAGER_REVOKE \<equiv> 0x02"
abbreviation CAP_FLAG_SHIM_EPHEMERAL :: u8 where "CAP_FLAG_SHIM_EPHEMERAL \<equiv> 0x04"
abbreviation CAP_FLAG_IMMORTAL :: u8 where "CAP_FLAG_IMMORTAL \<equiv> 0x08"
abbreviation CAP_FLAG_INHERITABLE :: u8 where "CAP_FLAG_INHERITABLE \<equiv> 0x10"
abbreviation CAP_FLAG_CASCADE_TRUNCATED :: u8 where "CAP_FLAG_CASCADE_TRUNCATED \<equiv> 0x20"

definition PID_PUBLIC :: pid where "PID_PUBLIC = 0xFFFF"
definition PID_KERNEL :: pid where "PID_KERNEL = - 1"
definition PID_NONE :: pid where "PID_NONE = - 1"

definition CAP_V2_OK :: int where "CAP_V2_OK = 0"
definition CAP_V2_EPERM :: int where "CAP_V2_EPERM = - 1"
definition CAP_V2_EREVOKED :: int where "CAP_V2_EREVOKED = - 2"
definition CAP_V2_ENOMEM :: int where "CAP_V2_ENOMEM = - 3"
definition CAP_V2_EFAULT :: int where "CAP_V2_EFAULT = - 4"
definition CAP_V2_EINVAL :: int where "CAP_V2_EINVAL = - 5"
definition CAP_V2_EPLEDGE :: int where "CAP_V2_EPLEDGE = - 7"
definition CAP_V2_EBADF :: int where "CAP_V2_EBADF = - 9"
definition CAP_V2_EAGAIN :: int where "CAP_V2_EAGAIN = - 11"
definition CAP_V2_EBUSY :: int where "CAP_V2_EBUSY = - 16"
definition CAP_V2_EPIPE :: int where "CAP_V2_EPIPE = - 32"
definition CAP_V2_EPROTOTYPE :: int where "CAP_V2_EPROTOTYPE = - 71"
definition CAP_V2_ETIMEDOUT :: int where "CAP_V2_ETIMEDOUT = - 110"
definition CAP_V2_EFROZEN :: int where "CAP_V2_EFROZEN = - 128"

lemmas cap_err_defs =
  CAP_V2_OK_def CAP_V2_EPERM_def CAP_V2_EREVOKED_def CAP_V2_ENOMEM_def CAP_V2_EFAULT_def
  CAP_V2_EINVAL_def CAP_V2_EPLEDGE_def CAP_V2_EBADF_def CAP_V2_EAGAIN_def CAP_V2_EBUSY_def
  CAP_V2_EPIPE_def CAP_V2_EPROTOTYPE_def CAP_V2_ETIMEDOUT_def CAP_V2_EFROZEN_def

section \<open>Packed tokens\<close>

datatype cap_token = Cap_Token (raw: u64)

definition CAP_TOKEN_NULL :: cap_token where
  "CAP_TOKEN_NULL = Cap_Token 0"

definition cap_token_pack :: "u32 \<Rightarrow> u32 \<Rightarrow> u8 \<Rightarrow> cap_token" where
  "cap_token_pack gen idx flags =
    Cap_Token (push_bit 32 (ucast gen) OR push_bit 8 (ucast idx AND 0xFFFFFF) OR ucast flags)"

definition cap_token_gen :: "cap_token \<Rightarrow> u32" where
  "cap_token_gen t = ucast (drop_bit 32 (raw t))"

definition cap_token_idx :: "cap_token \<Rightarrow> u32" where
  "cap_token_idx t = ucast (drop_bit 8 (raw t) AND 0xFFFFFF)"

definition cap_token_flags :: "cap_token \<Rightarrow> u8" where
  "cap_token_flags t = ucast (raw t AND 0xFF)"

definition cap_token_is_null :: "cap_token \<Rightarrow> bool" where
  "cap_token_is_null t \<longleftrightarrow> cap_token_idx t = 0"

lemma mask24: "(0xFFFFFF :: 'a::len word) = mask 24"
  by (simp add: mask_eq_decr_exp)

lemma mask8: "(0xFF :: 'a::len word) = mask 8"
  by (simp add: mask_eq_decr_exp)

lemma cap_token_gen_pack [simp]: "cap_token_gen (cap_token_pack g i f) = g"
  unfolding cap_token_gen_def cap_token_pack_def
  by (rule bit_word_eqI) (auto simp: bit_simps mask24)

lemma cap_token_idx_pack_mask: "cap_token_idx (cap_token_pack g i f) = i AND 0xFFFFFF"
  unfolding cap_token_idx_def cap_token_pack_def
  by (rule bit_word_eqI) (auto simp: bit_simps mask24)

lemma cap_token_flags_pack [simp]: "cap_token_flags (cap_token_pack g i f) = f"
  unfolding cap_token_flags_def cap_token_pack_def
  by (rule bit_word_eqI) (auto simp: bit_simps mask24 mask8)

lemma cap_token_idx_pack: "unat i < 2 ^ 24 \<Longrightarrow> cap_token_idx (cap_token_pack g i f) = i"
  by (simp add: cap_token_idx_pack_mask mask24 word_unat_eq_iff unsigned_take_bit_eq
      take_bit_nat_eq_self flip: take_bit_eq_mask)

lemma cap_token_idx_less: "unat (cap_token_idx t) < 2 ^ 24"
  unfolding cap_token_idx_def mask24
  using take_bit_nat_less_exp [of 24 "unat (drop_bit 8 (raw t))"]
  by (simp add: unsigned_ucast_eq unsigned_take_bit_eq flip: take_bit_eq_mask)

lemma cap_token_pack_unpack [simp]:
  "cap_token_pack (cap_token_gen t) (cap_token_idx t) (cap_token_flags t) = t"
proof (cases t)
  case (Cap_Token w)
  have "raw (cap_token_pack (cap_token_gen t) (cap_token_idx t) (cap_token_flags t)) = w"
  proof (rule bit_word_eqI)
    fix n assume n: "n < LENGTH(64)"
    consider "n < 8" | "8 \<le> n" "n < 32" | "32 \<le> n" by linarith
    then show "bit (raw (cap_token_pack (cap_token_gen t) (cap_token_idx t) (cap_token_flags t))) n
      = bit w n"
      by cases
        (use n in \<open>simp_all add: Cap_Token cap_token_gen_def cap_token_pack_def cap_token_idx_def
            cap_token_flags_def bit_simps mask24 mask8 less_diff_conv2\<close>)
  qed
  with Cap_Token show ?thesis by (metis cap_token.collapse)
qed

lemma cap_token_idx_pack_nat:
  "n < 2 ^ 24 \<Longrightarrow> unat (cap_token_idx (cap_token_pack g (of_nat n) f)) = n"
  by (simp add: cap_token_idx_pack unat_of_nat)

section \<open>Printing\<close>

text \<open>
  The printer fills a buffer from position 0 on and every helper writes only while
  \<^verbatim>\<open>pos < buflen - 1\<close>. The characters written so far are the model's accumulator; \<^verbatim>\<open>pos\<close> is its
  length.
\<close>

fun tok_put_str :: "nat \<Rightarrow> string \<Rightarrow> string \<Rightarrow> string" where
  "tok_put_str buflen buf [] = buf"
| "tok_put_str buflen buf (c # cs) =
    (if length buf < buflen - 1 then tok_put_str buflen (buf @ [c]) cs else buf)"

function dec_digits :: "nat \<Rightarrow> string" where
  "dec_digits v = (if v = 0 then [] else dec_digits (v div 10) @ [char_of (48 + v mod 10)])"
  by pat_completeness auto
termination
  by (relation "measure id") auto

declare dec_digits.simps [simp del]

definition tok_put_dec :: "nat \<Rightarrow> string \<Rightarrow> u32 \<Rightarrow> string" where
  "tok_put_dec buflen buf v =
    tok_put_str buflen buf (if v = 0 then ''0'' else dec_digits (unat v))"

definition hex_digit :: "u8 \<Rightarrow> char" where
  "hex_digit v = ''0123456789abcdef'' ! unat (v AND 0xF)"

definition tok_put_hex2 :: "nat \<Rightarrow> string \<Rightarrow> u8 \<Rightarrow> string" where
  "tok_put_hex2 buflen buf v =
    (let buf = (if length buf < buflen - 1 then buf @ [hex_digit (drop_bit 4 v)] else buf)
     in if length buf < buflen - 1 then buf @ [hex_digit v] else buf)"

definition cap_token_describe :: "cap_token \<Rightarrow> nat \<Rightarrow> string" where
  "cap_token_describe tok buflen =
    (if buflen = 0 then []
     else
      let b = tok_put_str buflen [] ''tok={gen='';
          b = tok_put_dec buflen b (cap_token_gen tok);
          b = tok_put_str buflen b '',idx='';
          b = tok_put_dec buflen b (cap_token_idx tok);
          b = tok_put_str buflen b '',flags=0x'';
          b = tok_put_hex2 buflen b (cap_token_flags tok)
      in if length b < buflen - 1 then b @ ''}'' else b)"

definition cap_token_text :: "cap_token \<Rightarrow> string" where
  "cap_token_text tok =
    ''tok={gen='' @ (if cap_token_gen tok = 0 then ''0'' else dec_digits (unat (cap_token_gen tok)))
    @ '',idx='' @ (if cap_token_idx tok = 0 then ''0'' else dec_digits (unat (cap_token_idx tok)))
    @ '',flags=0x'' @ [hex_digit (drop_bit 4 (cap_token_flags tok)), hex_digit (cap_token_flags tok)]
    @ ''}''"

lemma tok_put_str_take:
  "length buf \<le> buflen - 1 \<Longrightarrow> tok_put_str buflen buf s = take (buflen - 1) (buf @ s)"
  by (induction s arbitrary: buf) (auto simp: take_Cons')

lemma tok_put_str_Nil: "tok_put_str buflen [] s = take (buflen - 1) s"
  by (simp add: tok_put_str_take)

lemma put_char_take:
  "(if length (take n xs) < n then take n xs @ [c] else take n xs) = take n (xs @ [c])"
  by (cases "length xs < n") auto

lemma tok_put_str_take': "tok_put_str buflen (take (buflen - 1) xs) s = take (buflen - 1) (xs @ s)"
  by (cases "length xs \<le> buflen - 1") (simp_all add: tok_put_str_take)

lemma tok_put_hex2_take':
  "tok_put_hex2 buflen (take (buflen - 1) xs) v =
    take (buflen - 1) (xs @ [hex_digit (drop_bit 4 v), hex_digit v])"
  unfolding tok_put_hex2_def Let_def put_char_take by simp

lemma cap_token_describe_eq:
  "0 < buflen \<Longrightarrow> cap_token_describe tok buflen = take (buflen - 1) (cap_token_text tok)"
proof -
  assume "0 < buflen"
  then show ?thesis
    unfolding cap_token_describe_def tok_put_dec_def
    by (simp only: Let_def tok_put_str_Nil tok_put_str_take'
        tok_put_hex2_take' put_char_take)
       (simp add: cap_token_text_def)
qed

end
