(* ===== verification/Cap_Object.thy ===== *)
theory Cap_Object
  imports Cap_Token
begin

text \<open>
  The capability object registry (kernel/cap/object.h, object.c) and revocation
  (kernel/cap/revoke.c). \<open>cap_state\<close> holds the registry \<^verbatim>\<open>g_cap_object_ptrs\<close> as a partial map from
  slots to objects, its high-water mark and the external trace. Every operation is one function;
  the outcome of the slab allocator is its argument \<open>alloc_ok\<close>. The lemmas show the registry
  invariant, attenuation of derived capabilities, that revoked tokens never resolve again, and
  that the eager cascade revokes exactly the descendants.
\<close>

section \<open>Objects and the registry\<close>

abbreviation CAP_OBJECT_CAPACITY :: nat where "CAP_OBJECT_CAPACITY \<equiv> 65536"
definition CAP_OBJECT_IDX_NONE :: nat where "CAP_OBJECT_IDX_NONE = 0xFFFFFFFF"
abbreviation CAP_AUDIENCE_MAX :: nat where "CAP_AUDIENCE_MAX \<equiv> 8"
abbreviation CAP_WATCH_MAX :: nat where "CAP_WATCH_MAX \<equiv> 4"

record cap_object =
  co_kind :: u16
  co_deleted :: bool
  co_generation :: u32
  co_rights :: u64
  co_kind_data :: ptr
  co_audience_set :: "pid list"
  co_audience_count :: nat
  co_flags :: u8
  co_parent_idx :: nat
  co_owner_pid :: pid
  co_first_child_idx :: nat
  co_next_sibling_idx :: nat
  co_watch_list :: "pid list"
  co_watch_count :: nat

record cap_state =
  cap_object_cache :: bool
  g_cap_object_ptrs :: "nat \<Rightarrow> cap_object option"
  g_cap_object_count :: nat
  ktrace :: "kevent list"

definition log_event :: "kevent \<Rightarrow> 'a cap_state_scheme \<Rightarrow> 'a cap_state_scheme" where
  "log_event e s = s\<lparr>ktrace := ktrace s @ [e]\<rparr>"

definition put_object :: "nat \<Rightarrow> cap_object \<Rightarrow> 'a cap_state_scheme \<Rightarrow> 'a cap_state_scheme" where
  "put_object i ob s = s\<lparr>g_cap_object_ptrs := (g_cap_object_ptrs s)(i \<mapsto> ob)\<rparr>"

definition cap_object_get :: "'a cap_state_scheme \<Rightarrow> nat \<Rightarrow> cap_object option" where
  "cap_object_get s idx = (if idx \<ge> CAP_OBJECT_CAPACITY then None else g_cap_object_ptrs s idx)"

text \<open>The audience entries the loops over \<^verbatim>\<open>i < audience_count && i < CAP_AUDIENCE_MAX\<close> visit.\<close>

definition audience :: "cap_object \<Rightarrow> pid list" where
  "audience ob = take (min (co_audience_count ob) CAP_AUDIENCE_MAX) (co_audience_set ob)"

definition cap_object_zero :: cap_object where
  "cap_object_zero =
    \<lparr>co_kind = 0, co_deleted = False, co_generation = 0, co_rights = 0, co_kind_data = 0,
     co_audience_set = replicate CAP_AUDIENCE_MAX 0, co_audience_count = 0, co_flags = 0,
     co_parent_idx = 0, co_owner_pid = 0, co_first_child_idx = 0, co_next_sibling_idx = 0,
     co_watch_list = replicate CAP_WATCH_MAX 0, co_watch_count = 0\<rparr>"

definition cap_object_copy_audience :: "pid list option \<Rightarrow> pid \<Rightarrow> pid list \<times> nat" where
  "cap_object_copy_audience src fallback_pid =
    (case src of
      None \<Rightarrow> (fallback_pid # replicate (CAP_AUDIENCE_MAX - 1) PID_NONE, 1)
    | Some ps \<Rightarrow>
        let xs = takeWhile (\<lambda>p. p \<noteq> PID_NONE) (take CAP_AUDIENCE_MAX ps)
        in (xs @ replicate (CAP_AUDIENCE_MAX - length xs) PID_NONE, length xs))"

definition cap_object_find_free_slot_locked :: "'a cap_state_scheme \<Rightarrow> nat" where
  "cap_object_find_free_slot_locked s =
    (case first_from (\<lambda>i. g_cap_object_ptrs s i = None) 1 CAP_OBJECT_CAPACITY of
      Some i \<Rightarrow> i
    | None \<Rightarrow> CAP_OBJECT_IDX_NONE)"

fun audience_scan :: "cap_object \<Rightarrow> pid list \<Rightarrow> bool" where
  "audience_scan parent [] = True"
| "audience_scan parent (p # ps) =
    (if p = PID_NONE then True
     else if p = PID_PUBLIC then False
     else if p \<notin> set (audience parent) then False
     else audience_scan parent ps)"

definition audience_is_subset :: "cap_object \<Rightarrow> pid list option \<Rightarrow> bool" where
  "audience_is_subset parent sub =
    (if has_flag (co_flags parent) CAP_FLAG_PUBLIC then True
     else case sub of None \<Rightarrow> True | Some ps \<Rightarrow> audience_scan parent (take CAP_AUDIENCE_MAX ps))"

definition cap_token_validate_audience :: "cap_object option \<Rightarrow> pid \<Rightarrow> bool" where
  "cap_token_validate_audience obj p =
    (case obj of
      None \<Rightarrow> False
    | Some ob \<Rightarrow> has_flag (co_flags ob) CAP_FLAG_PUBLIC \<or> p \<in> set (audience ob))"

section \<open>Operations\<close>

definition cap_sentinel :: cap_object where
  "cap_sentinel = cap_object_zero\<lparr>
     co_kind := CAP_KIND_NONE, co_generation := 1, co_rights := RIGHTS_ALL,
     co_audience_set := PID_PUBLIC # replicate (CAP_AUDIENCE_MAX - 1) PID_NONE,
     co_audience_count := 1, co_flags := CAP_FLAG_IMMORTAL OR CAP_FLAG_PUBLIC,
     co_parent_idx := CAP_OBJECT_IDX_NONE, co_owner_pid := PID_KERNEL, co_kind_data := 0,
     co_first_child_idx := CAP_OBJECT_IDX_NONE, co_next_sibling_idx := CAP_OBJECT_IDX_NONE,
     co_watch_list := replicate CAP_WATCH_MAX PID_NONE, co_watch_count := 0\<rparr>"

text \<open>\<open>None\<close> is a kernel panic.\<close>

definition cap_object_init ::
  "bool \<Rightarrow> bool \<Rightarrow> 'a cap_state_scheme \<Rightarrow> 'a cap_state_scheme option" where
  "cap_object_init cache_ok alloc_ok s =
    (if cap_object_cache s then Some s
     else if \<not> cache_ok then None
     else if \<not> alloc_ok then None
     else Some (put_object 0 cap_sentinel s\<lparr>cap_object_cache := True, g_cap_object_count := 1\<rparr>))"

definition cap_token_resolve ::
  "'a cap_state_scheme \<Rightarrow> pid \<Rightarrow> cap_token \<Rightarrow> u64 \<Rightarrow> cap_object option" where
  "cap_token_resolve s calling_pid tok required_rights =
    (if cap_token_is_null tok then None
     else
      let idx = unat (cap_token_idx tok) in
      if idx = 0 \<or> idx \<ge> CAP_OBJECT_CAPACITY then None
      else case g_cap_object_ptrs s idx of
        None \<Rightarrow> None
      | Some obj \<Rightarrow>
          if co_deleted obj then None
          else if co_generation obj \<noteq> cap_token_gen tok then None
          else if \<not> has_flag (co_flags obj) CAP_FLAG_PUBLIC \<and> calling_pid \<notin> set (audience obj)
          then None
          else if co_rights obj AND required_rights \<noteq> required_rights then None
          else Some obj)"

definition cap_object_link_child ::
  "nat \<Rightarrow> nat \<Rightarrow> 'a cap_state_scheme \<Rightarrow> 'a cap_state_scheme" where
  "cap_object_link_child parent_idx child_idx s =
    (if parent_idx = CAP_OBJECT_IDX_NONE \<or> parent_idx \<ge> CAP_OBJECT_CAPACITY then s
     else if child_idx = 0 \<or> child_idx \<ge> CAP_OBJECT_CAPACITY then s
     else case (g_cap_object_ptrs s parent_idx, g_cap_object_ptrs s child_idx) of
       (Some parent, Some child) \<Rightarrow>
         (let s1 = put_object child_idx
                     (child\<lparr>co_next_sibling_idx := co_first_child_idx parent\<rparr>) s
          in case g_cap_object_ptrs s1 parent_idx of
               Some parent' \<Rightarrow> put_object parent_idx (parent'\<lparr>co_first_child_idx := child_idx\<rparr>) s1
             | None \<Rightarrow> s1)
     | _ \<Rightarrow> s)"

definition cap_object_fresh ::
  "u16 \<Rightarrow> u64 \<Rightarrow> pid list option \<Rightarrow> u8 \<Rightarrow> ptr \<Rightarrow> pid \<Rightarrow> nat \<Rightarrow> cap_object" where
  "cap_object_fresh kind rights aud flags kind_data owner_pid parent_idx =
    (let (aset, n) = cap_object_copy_audience aud owner_pid;
         flags = (if PID_PUBLIC \<in> set (take n aset) then flags OR CAP_FLAG_PUBLIC else flags)
     in cap_object_zero\<lparr>
       co_kind := kind, co_generation := 1, co_rights := rights, co_audience_set := aset,
       co_audience_count := n, co_flags := flags, co_parent_idx := parent_idx,
       co_owner_pid := owner_pid, co_kind_data := kind_data,
       co_first_child_idx := CAP_OBJECT_IDX_NONE, co_next_sibling_idx := CAP_OBJECT_IDX_NONE,
       co_watch_list := replicate CAP_WATCH_MAX PID_NONE, co_watch_count := 0\<rparr>)"

definition cap_object_create ::
  "bool \<Rightarrow> u16 \<Rightarrow> u64 \<Rightarrow> pid list option \<Rightarrow> u8 \<Rightarrow> ptr \<Rightarrow> pid \<Rightarrow> nat \<Rightarrow> 'a cap_state_scheme
    \<Rightarrow> nat cres \<times> 'a cap_state_scheme" where
  "cap_object_create alloc_ok kind rights aud flags kind_data owner_pid parent_idx s =
    (if \<not> cap_object_cache s then (Inl CAP_V2_EINVAL, s)
     else if \<not> alloc_ok then (Inl CAP_V2_ENOMEM, s)
     else
      let obj = cap_object_fresh kind rights aud flags kind_data owner_pid parent_idx;
          slot = cap_object_find_free_slot_locked s
      in if slot = CAP_OBJECT_IDX_NONE then (Inl CAP_V2_ENOMEM, s)
         else
          let s = put_object slot obj s;
              s = (if slot \<ge> g_cap_object_count s then s\<lparr>g_cap_object_count := slot + 1\<rparr> else s);
              s = (if parent_idx \<noteq> CAP_OBJECT_IDX_NONE \<and> parent_idx < CAP_OBJECT_CAPACITY
                   then cap_object_link_child parent_idx slot s else s)
          in (Inr slot, s))"

definition cap_object_derive_inner ::
  "bool \<Rightarrow> nat \<Rightarrow> pid \<Rightarrow> u64 \<Rightarrow> pid list option \<Rightarrow> u8 \<Rightarrow> bool \<Rightarrow> bool \<Rightarrow> 'a cap_state_scheme
    \<Rightarrow> nat cres \<times> 'a cap_state_scheme" where
  "cap_object_derive_inner alloc_ok parent_idx caller_pid rights_subset audience_subset flags_subset
      quiet allow_audience_expand s =
    (if parent_idx = 0 \<or> parent_idx \<ge> CAP_OBJECT_CAPACITY then (Inl CAP_V2_EINVAL, s)
     else case g_cap_object_ptrs s parent_idx of
       None \<Rightarrow> (Inl CAP_V2_EINVAL, s)
     | Some parent \<Rightarrow>
        if co_deleted parent then (Inl CAP_V2_EREVOKED, s)
        else if \<not> cap_token_validate_audience (Some parent) caller_pid then (Inl CAP_V2_EPERM, s)
        else if co_rights parent AND RIGHT_DERIVE = 0 then (Inl CAP_V2_EPERM, s)
        else if co_rights parent AND rights_subset \<noteq> rights_subset then (Inl CAP_V2_EPERM, s)
        else
         let priv_sub = flags_subset AND (CAP_FLAG_PUBLIC OR CAP_FLAG_IMMORTAL) in
         if co_flags parent AND priv_sub \<noteq> priv_sub then (Inl CAP_V2_EPERM, s)
         else if has_flag flags_subset (CAP_FLAG_SHIM_EPHEMERAL OR CAP_FLAG_CASCADE_TRUNCATED)
         then (Inl CAP_V2_EPERM, s)
         else if \<not> allow_audience_expand \<and> \<not> audience_is_subset parent audience_subset
         then (Inl CAP_V2_EPERM, s)
         else
          let aud = (case audience_subset of
                       None \<Rightarrow> caller_pid # replicate (CAP_AUDIENCE_MAX - 1) PID_NONE
                     | Some ps \<Rightarrow> ps);
              (r, s) = cap_object_create alloc_ok (co_kind parent) rights_subset (Some aud)
                         flags_subset (co_kind_data parent) caller_pid parent_idx s
          in case r of
               Inr new_idx \<Rightarrow>
                 (r, if quiet then s
                     else log_event (AuditCapDerive caller_pid parent_idx new_idx rights_subset) s)
             | Inl e \<Rightarrow> (r, s))"

definition cap_object_derive ::
  "bool \<Rightarrow> nat \<Rightarrow> pid \<Rightarrow> u64 \<Rightarrow> pid list option \<Rightarrow> u8 \<Rightarrow> 'a cap_state_scheme
    \<Rightarrow> nat cres \<times> 'a cap_state_scheme" where
  "cap_object_derive alloc_ok parent_idx caller_pid rights_subset audience_subset flags_subset s =
    cap_object_derive_inner alloc_ok parent_idx caller_pid rights_subset audience_subset flags_subset
      False False s"

definition cap_object_derive_quiet ::
  "bool \<Rightarrow> nat \<Rightarrow> pid \<Rightarrow> u64 \<Rightarrow> pid list option \<Rightarrow> u8 \<Rightarrow> 'a cap_state_scheme
    \<Rightarrow> nat cres \<times> 'a cap_state_scheme" where
  "cap_object_derive_quiet alloc_ok parent_idx caller_pid rights_subset audience_subset flags_subset s =
    cap_object_derive_inner alloc_ok parent_idx caller_pid rights_subset audience_subset flags_subset
      True False s"

definition cap_object_derive_inherited ::
  "bool \<Rightarrow> nat \<Rightarrow> pid \<Rightarrow> u64 \<Rightarrow> pid list option \<Rightarrow> u8 \<Rightarrow> 'a cap_state_scheme
    \<Rightarrow> nat cres \<times> 'a cap_state_scheme" where
  "cap_object_derive_inherited alloc_ok parent_idx caller_pid rights_subset audience_subset flags_subset s =
    cap_object_derive_inner alloc_ok parent_idx caller_pid rights_subset audience_subset flags_subset
      True True s"

section \<open>Revocation\<close>

abbreviation REVOKE_CASCADE_MAX :: nat where "REVOKE_CASCADE_MAX \<equiv> 1024"

definition mark_revoked :: "cap_object \<Rightarrow> cap_object" where
  "mark_revoked ob = ob\<lparr>co_deleted := True, co_generation := co_generation ob + 1\<rparr>"

text \<open>
  The loop that seeds the work queue from the root's children. \<open>room\<close> is what is left of the
  queue; the flag says whether the walk stopped before the end of the sibling chain.
\<close>

fun seed_children ::
  "(nat \<Rightarrow> cap_object option) \<Rightarrow> nat \<Rightarrow> nat \<Rightarrow> nat list \<times> bool" where
  "seed_children ptrs cur 0 = ([], cur \<noteq> CAP_OBJECT_IDX_NONE)"
| "seed_children ptrs cur (Suc room) =
    (if cur = CAP_OBJECT_IDX_NONE then ([], False)
     else case ptrs cur of
       None \<Rightarrow> ([cur], True)
     | Some c \<Rightarrow> let (q, t) = seed_children ptrs (co_next_sibling_idx c) room in (cur # q, t))"

text \<open>The loop that appends the children of a processed object; it does not flag an empty slot.\<close>

fun enqueue_children ::
  "(nat \<Rightarrow> cap_object option) \<Rightarrow> nat \<Rightarrow> nat \<Rightarrow> nat list \<times> bool" where
  "enqueue_children ptrs c 0 = ([], c \<noteq> CAP_OBJECT_IDX_NONE)"
| "enqueue_children ptrs c (Suc room) =
    (if c = CAP_OBJECT_IDX_NONE then ([], False)
     else case ptrs c of
       None \<Rightarrow> ([c], False)
     | Some cobj \<Rightarrow>
        let (q, t) = enqueue_children ptrs (co_next_sibling_idx cobj) room in (c # q, t))"

lemma length_enqueue_children: "length (fst (enqueue_children ptrs c room)) \<le> room"
  by (induction ptrs c room rule: enqueue_children.induct)
     (auto split: option.splits prod.splits)

text \<open>
  The breadth-first loop: \<open>todo\<close> is \<^verbatim>\<open>queue[head..tail)\<close>, \<open>tail\<close> counts everything ever queued.
\<close>

function cascade_loop ::
  "nat list \<Rightarrow> nat \<Rightarrow> bool \<Rightarrow> nat \<Rightarrow> (nat \<Rightarrow> cap_object option)
    \<Rightarrow> nat \<times> bool \<times> (nat \<Rightarrow> cap_object option)" where
  "cascade_loop [] tail truncated count ptrs = (count, truncated, ptrs)"
| "cascade_loop (idx # todo) tail truncated count ptrs =
    (case ptrs idx of
      None \<Rightarrow> cascade_loop todo tail truncated count ptrs
    | Some obj \<Rightarrow>
       if has_flag (co_flags obj) CAP_FLAG_IMMORTAL
       then cascade_loop todo tail truncated count ptrs
       else
        let (count', ptrs') = (if co_deleted obj then (count, ptrs)
                               else (count + 1, ptrs(idx \<mapsto> mark_revoked obj)));
            (kids, t) = enqueue_children ptrs' (co_first_child_idx obj) (REVOKE_CASCADE_MAX - tail)
        in cascade_loop (todo @ kids) (tail + length kids) (truncated \<or> t) count' ptrs')"
  by pat_completeness auto
termination
proof (relation "measure (\<lambda>(todo, tail, truncated, count, ptrs). length todo + (REVOKE_CASCADE_MAX - tail))",
    goal_cases)
  case (4 idx todo tail truncated count ptrs obj z count' ptrs' y kids t)
  then have "length kids \<le> REVOKE_CASCADE_MAX - tail"
    by (metis fst_conv length_enqueue_children)
  then show ?case by simp
qed auto

definition revoke_cascade :: "nat \<Rightarrow> 'a cap_state_scheme \<Rightarrow> nat \<times> 'a cap_state_scheme" where
  "revoke_cascade root_idx s =
    (if root_idx = 0 \<or> root_idx \<ge> CAP_OBJECT_CAPACITY then (0, s)
     else case g_cap_object_ptrs s root_idx of
       None \<Rightarrow> (0, s)
     | Some root \<Rightarrow>
        let (queue, t) = seed_children (g_cap_object_ptrs s) (co_first_child_idx root) REVOKE_CASCADE_MAX;
            (count, truncated, ptrs) = cascade_loop queue (length queue) t 0 (g_cap_object_ptrs s);
            s = s\<lparr>g_cap_object_ptrs := ptrs\<rparr>
        in (count,
            if truncated then
              case g_cap_object_ptrs s root_idx of
                Some root2 \<Rightarrow>
                  put_object root_idx
                    (root2\<lparr>co_flags := co_flags root2 OR CAP_FLAG_CASCADE_TRUNCATED\<rparr>) s
              | None \<Rightarrow> s
            else s))"

definition cap_object_revoke :: "nat \<Rightarrow> 'a cap_state_scheme \<Rightarrow> nat cres \<times> 'a cap_state_scheme" where
  "cap_object_revoke idx s =
    (if idx = 0 \<or> idx \<ge> CAP_OBJECT_CAPACITY then (Inl CAP_V2_EINVAL, s)
     else case g_cap_object_ptrs s idx of
       None \<Rightarrow> (Inl CAP_V2_EINVAL, s)
     | Some obj \<Rightarrow>
        if has_flag (co_flags obj) CAP_FLAG_IMMORTAL then (Inl CAP_V2_EPERM, s)
        else if co_deleted obj then (Inl CAP_V2_EREVOKED, s)
        else
         let eager = has_flag (co_flags obj) CAP_FLAG_EAGER_REVOKE;
             s = put_object idx (mark_revoked obj) s;
             (cascade_count, s) = (if eager then revoke_cascade idx s else (0, s));
             count = 1 + cascade_count
         in (Inr count, log_event (AuditCapRevoke idx (int count)) s))"

fun collect_orphans_loop ::
  "pid \<Rightarrow> nat list \<Rightarrow> nat \<Rightarrow> 'a cap_state_scheme \<Rightarrow> nat \<times> 'a cap_state_scheme" where
  "collect_orphans_loop p [] count s = (count, s)"
| "collect_orphans_loop p (i # is) count s =
    (case g_cap_object_ptrs s i of
      None \<Rightarrow> collect_orphans_loop p is count s
    | Some obj \<Rightarrow>
       if \<not> co_deleted obj \<and> co_owner_pid obj = p \<and> \<not> has_flag (co_flags obj) CAP_FLAG_IMMORTAL
       then
         let eager = has_flag (co_flags obj) CAP_FLAG_EAGER_REVOKE;
             s = put_object i (mark_revoked obj) s;
             (c, s) = (if eager then revoke_cascade i s else (0, s))
         in collect_orphans_loop p is (count + 1 + c) s
       else collect_orphans_loop p is count s)"

definition revoke_collect_orphans :: "pid \<Rightarrow> 'a cap_state_scheme \<Rightarrow> nat \<times> 'a cap_state_scheme" where
  "revoke_collect_orphans p s =
    (if p = PID_KERNEL then (0, s)
     else collect_orphans_loop p [1..<min (g_cap_object_count s) CAP_OBJECT_CAPACITY] 0 s)"

text \<open>
  \<open>deactivate\<close> is the kind-specific hook of the switch in \<^verbatim>\<open>cap_object_destroy\<close>; the channel theory
  supplies it.
\<close>

definition cap_object_destroy_with ::
  "(cap_object \<Rightarrow> 'a cap_state_scheme \<Rightarrow> 'a cap_state_scheme) \<Rightarrow> nat \<Rightarrow> 'a cap_state_scheme
    \<Rightarrow> 'a cap_state_scheme" where
  "cap_object_destroy_with deactivate idx s =
    (if idx = 0 \<or> idx \<ge> CAP_OBJECT_CAPACITY then s
     else case g_cap_object_ptrs s idx of
       None \<Rightarrow> s
     | Some obj \<Rightarrow>
        deactivate obj (s\<lparr>g_cap_object_ptrs := (g_cap_object_ptrs s)(idx := None)\<rparr>))"

record cap_inspect_result =
  ir_kind :: u16
  ir_flags :: u8
  ir_generation :: u32
  ir_rights_bitmap :: u64
  ir_audience_pids :: "pid list"
  ir_parent_token :: cap_token
  ir_owner_pid :: pid

definition cap_object_inspect ::
  "'a cap_state_scheme \<Rightarrow> nat \<Rightarrow> pid \<Rightarrow> cap_inspect_result cres" where
  "cap_object_inspect s idx caller_pid =
    (if idx = 0 \<or> idx \<ge> CAP_OBJECT_CAPACITY then Inl CAP_V2_EINVAL
     else case g_cap_object_ptrs s idx of
       None \<Rightarrow> Inl CAP_V2_EINVAL
     | Some obj \<Rightarrow>
        if co_deleted obj then Inl CAP_V2_EREVOKED
        else if \<not> cap_token_validate_audience (Some obj) caller_pid then Inl CAP_V2_EPERM
        else
         let vis = filter (\<lambda>p. p = caller_pid \<or> p = PID_PUBLIC) (audience obj)
         in Inr \<lparr>ir_kind = co_kind obj, ir_flags = co_flags obj, ir_generation = co_generation obj,
                 ir_rights_bitmap = co_rights obj,
                 ir_audience_pids = vis @ replicate (CAP_AUDIENCE_MAX - length vis) PID_NONE,
                 ir_parent_token = Cap_Token 0, ir_owner_pid = co_owner_pid obj\<rparr>)"

section \<open>Basic facts\<close>

lemma put_object_sel [simp]:
  "g_cap_object_ptrs (put_object i ob s) = (g_cap_object_ptrs s)(i \<mapsto> ob)"
  "g_cap_object_count (put_object i ob s) = g_cap_object_count s"
  "cap_object_cache (put_object i ob s) = cap_object_cache s"
  "ktrace (put_object i ob s) = ktrace s"
  "cap_state.more (put_object i ob s) = cap_state.more s"
  by (simp_all add: put_object_def)

lemma log_event_sel [simp]:
  "g_cap_object_ptrs (log_event e s) = g_cap_object_ptrs s"
  "g_cap_object_count (log_event e s) = g_cap_object_count s"
  "cap_object_cache (log_event e s) = cap_object_cache s"
  "ktrace (log_event e s) = ktrace s @ [e]"
  "cap_state.more (log_event e s) = cap_state.more s"
  by (simp_all add: log_event_def)

lemma mark_revoked_sel [simp]:
  "co_deleted (mark_revoked ob)"
  "co_flags (mark_revoked ob) = co_flags ob"
  "co_first_child_idx (mark_revoked ob) = co_first_child_idx ob"
  "co_next_sibling_idx (mark_revoked ob) = co_next_sibling_idx ob"
  "co_generation (mark_revoked ob) = co_generation ob + 1"
  by (simp_all add: mark_revoked_def)

lemma cap_token_resolve_Some_iff:
  "cap_token_resolve s p tok r = Some ob \<longleftrightarrow>
    (let i = unat (cap_token_idx tok) in
     i \<noteq> 0 \<and> i < CAP_OBJECT_CAPACITY \<and> g_cap_object_ptrs s i = Some ob \<and> \<not> co_deleted ob
     \<and> co_generation ob = cap_token_gen tok \<and> cap_token_validate_audience (Some ob) p
     \<and> has_all (co_rights ob) r)"
  unfolding cap_token_resolve_def cap_token_is_null_def cap_token_validate_audience_def has_all_def
  by (auto simp: Let_def unat_eq_0 unat_gt_0 split: option.splits)

text \<open>An object up to the links of the derivation tree.\<close>

definition core :: "cap_object \<Rightarrow> cap_object" where
  "core ob = ob\<lparr>co_first_child_idx := 0, co_next_sibling_idx := 0\<rparr>"

definition core_at :: "'a cap_state_scheme \<Rightarrow> nat \<Rightarrow> cap_object option" where
  "core_at s i = map_option core (g_cap_object_ptrs s i)"

lemma core_eq_sel:
  assumes "core a = core b"
  shows "co_kind a = co_kind b" "co_deleted a = co_deleted b" "co_generation a = co_generation b"
    "co_rights a = co_rights b" "co_kind_data a = co_kind_data b" "audience a = audience b"
    "co_flags a = co_flags b" "co_owner_pid a = co_owner_pid b"
    "co_audience_count a = co_audience_count b" "co_audience_set a = co_audience_set b"
    "co_parent_idx a = co_parent_idx b"
  using assms by (cases a; cases b; simp add: core_def audience_def)+

lemma core_links [simp]:
  "core (ob\<lparr>co_first_child_idx := i\<rparr>) = core ob"
  "core (ob\<lparr>co_next_sibling_idx := i\<rparr>) = core ob"
  by (simp_all add: core_def)

lemma find_free_slot_props:
  assumes "cap_object_find_free_slot_locked s = slot" "slot \<noteq> CAP_OBJECT_IDX_NONE"
  shows "slot \<noteq> 0" "slot < CAP_OBJECT_CAPACITY" "g_cap_object_ptrs s slot = None"
    "\<And>j. 0 < j \<Longrightarrow> j < slot \<Longrightarrow> g_cap_object_ptrs s j \<noteq> None"
proof -
  from assms obtain k where k: "first_from (\<lambda>i. g_cap_object_ptrs s i = None) 1 CAP_OBJECT_CAPACITY = Some k"
    and "k = slot"
    unfolding cap_object_find_free_slot_locked_def by (auto split: option.splits)
  with first_from_SomeD [OF k] show "slot \<noteq> 0" "slot < CAP_OBJECT_CAPACITY"
    "g_cap_object_ptrs s slot = None" "\<And>j. 0 < j \<Longrightarrow> j < slot \<Longrightarrow> g_cap_object_ptrs s j \<noteq> None"
    by auto
qed

lemma link_child_sel [simp]:
  "g_cap_object_count (cap_object_link_child p c s) = g_cap_object_count s"
  "cap_object_cache (cap_object_link_child p c s) = cap_object_cache s"
  "ktrace (cap_object_link_child p c s) = ktrace s"
  "cap_state.more (cap_object_link_child p c s) = cap_state.more s"
  unfolding cap_object_link_child_def by (auto simp: Let_def split: option.splits)

lemma link_child_core:
  "core_at (cap_object_link_child p c s) i
    = core_at s i"
  unfolding cap_object_link_child_def by (auto simp: core_at_def Let_def split: option.splits)

lemma core_at_put [simp]: "core_at (put_object i ob s) j = (if j = i then Some (core ob) else core_at s j)"
  by (simp add: core_at_def)

lemma core_at_count [simp]: "core_at (s\<lparr>g_cap_object_count := n\<rparr>) i = core_at s i"
  by (simp add: core_at_def)

lemma cap_object_create_InrD:
  assumes "cap_object_create ok k r aud fl kd own par s = (Inr slot, s')"
  shows "slot \<noteq> 0" "slot < CAP_OBJECT_CAPACITY" "g_cap_object_ptrs s slot = None"
    "core_at s' slot = Some (core (cap_object_fresh k r aud fl kd own par))"
    "i \<noteq> slot \<Longrightarrow> core_at s' i = core_at s i"
    "cap_object_cache s'" "g_cap_object_count s' = max (g_cap_object_count s) (Suc slot)"
    "ktrace s' = ktrace s" "cap_state.more s' = cap_state.more s"
  using assms find_free_slot_props [of s slot]
  unfolding cap_object_create_def
  by (auto simp: Let_def link_child_core max_def split: if_splits)

lemma cap_object_create_Inl [simp]:
  "cap_object_create ok k r aud fl kd own par s = (Inl e, s') \<Longrightarrow> s' = s"
  unfolding cap_object_create_def by (auto simp: Let_def split: if_splits)

section \<open>The registry invariant\<close>

definition link_ok :: "nat \<Rightarrow> bool" where
  "link_ok i \<longleftrightarrow> i = CAP_OBJECT_IDX_NONE \<or> (0 < i \<and> i < CAP_OBJECT_CAPACITY)"

definition object_wf :: "cap_object \<Rightarrow> bool" where
  "object_wf ob \<longleftrightarrow>
    length (co_audience_set ob) = CAP_AUDIENCE_MAX \<and> co_audience_count ob \<le> CAP_AUDIENCE_MAX
    \<and> (PID_PUBLIC \<in> set (audience ob) \<longrightarrow> has_flag (co_flags ob) CAP_FLAG_PUBLIC)
    \<and> link_ok (co_first_child_idx ob) \<and> link_ok (co_next_sibling_idx ob)"

definition cap_wf :: "'a cap_state_scheme \<Rightarrow> bool" where
  "cap_wf s \<longleftrightarrow>
    (\<forall>i ob. g_cap_object_ptrs s i = Some ob \<longrightarrow>
      i < g_cap_object_count s \<and> object_wf ob)
    \<and> g_cap_object_count s \<le> CAP_OBJECT_CAPACITY
    \<and> (cap_object_cache s \<longrightarrow>
      (\<exists>z. g_cap_object_ptrs s 0 = Some z \<and> has_flag (co_flags z) CAP_FLAG_IMMORTAL \<and> \<not> co_deleted z))"


lemma link_ok_NONE [simp]: "link_ok CAP_OBJECT_IDX_NONE"
  by (simp add: link_ok_def)

lemma copy_audience_props:
  assumes "cap_object_copy_audience aud fb = (aset, n)"
  shows "length aset = CAP_AUDIENCE_MAX" "n \<le> CAP_AUDIENCE_MAX"
    "set (take n aset) \<subseteq> (case aud of None \<Rightarrow> {fb} | Some ps \<Rightarrow> set (takeWhile (\<lambda>p. p \<noteq> PID_NONE) (take CAP_AUDIENCE_MAX ps)))"
proof -
  have le: "length (takeWhile P (take m xs)) \<le> m" for P :: "pid \<Rightarrow> bool" and m xs
    by (metis dual_order.trans length_take length_takeWhile_le min.cobounded2)
  from assms le show "length aset = CAP_AUDIENCE_MAX" "n \<le> CAP_AUDIENCE_MAX"
    "set (take n aset) \<subseteq> (case aud of None \<Rightarrow> {fb} | Some ps \<Rightarrow> set (takeWhile (\<lambda>p. p \<noteq> PID_NONE) (take CAP_AUDIENCE_MAX ps)))"
    unfolding cap_object_copy_audience_def
    by (auto simp: Let_def split: option.splits)
qed

lemma fresh_sel [simp]:
  "co_kind (cap_object_fresh k r aud fl kd own par) = k"
  "co_rights (cap_object_fresh k r aud fl kd own par) = r"
  "co_kind_data (cap_object_fresh k r aud fl kd own par) = kd"
  "co_owner_pid (cap_object_fresh k r aud fl kd own par) = own"
  "co_parent_idx (cap_object_fresh k r aud fl kd own par) = par"
  "co_generation (cap_object_fresh k r aud fl kd own par) = 1"
  "\<not> co_deleted (cap_object_fresh k r aud fl kd own par)"
  "co_first_child_idx (cap_object_fresh k r aud fl kd own par) = CAP_OBJECT_IDX_NONE"
  "co_next_sibling_idx (cap_object_fresh k r aud fl kd own par) = CAP_OBJECT_IDX_NONE"
  by (simp_all add: cap_object_fresh_def cap_object_zero_def split: prod.split)

lemma fresh_audience:
  "audience (cap_object_fresh k r aud fl kd own par) =
    take (snd (cap_object_copy_audience aud own)) (fst (cap_object_copy_audience aud own))"
  using copy_audience_props(2) [of aud own "fst (cap_object_copy_audience aud own)"]
  by (auto simp: cap_object_fresh_def cap_object_zero_def audience_def split: prod.split)

lemma fresh_flags:
  "co_flags (cap_object_fresh k r aud fl kd own par) =
    (if PID_PUBLIC \<in> set (audience (cap_object_fresh k r aud fl kd own par))
     then fl OR CAP_FLAG_PUBLIC else fl)"
  unfolding fresh_audience
  by (auto simp: cap_object_fresh_def cap_object_zero_def split: prod.split)

lemma fresh_wf: "object_wf (cap_object_fresh k r aud fl kd own par)"
proof -
  obtain aset n where c: "cap_object_copy_audience aud own = (aset, n)" by fastforce
  have "co_audience_set (cap_object_fresh k r aud fl kd own par) = aset"
    "co_audience_count (cap_object_fresh k r aud fl kd own par) = n"
    using c by (simp_all add: cap_object_fresh_def)
  with copy_audience_props [OF c] show ?thesis
    unfolding object_wf_def fresh_flags by (simp add: has_flag_def)
qed

lemma object_wf_cong:
  "core a = core b \<Longrightarrow> object_wf b \<Longrightarrow> link_ok (co_first_child_idx a) \<Longrightarrow> link_ok (co_next_sibling_idx a)
    \<Longrightarrow> object_wf a"
  by (simp add: object_wf_def core_eq_sel [of a b])

lemma object_wf_mark [simp]: "object_wf (mark_revoked ob) = object_wf ob"
  by (simp add: object_wf_def mark_revoked_def audience_def)

section \<open>Evolution of objects\<close>

text \<open>
  What an object may become while it stays in its slot: identity, rights and audience are fixed,
  deletion is final, the generation moves only with deletion, and the only flag added is the
  truncation mark.
\<close>

definition evolves :: "cap_object \<Rightarrow> cap_object \<Rightarrow> bool" where
  "evolves a b \<longleftrightarrow>
    co_kind b = co_kind a \<and> co_rights b = co_rights a \<and> co_kind_data b = co_kind_data a
    \<and> co_audience_set b = co_audience_set a \<and> co_audience_count b = co_audience_count a
    \<and> co_owner_pid b = co_owner_pid a \<and> co_parent_idx b = co_parent_idx a
    \<and> (co_deleted a \<longrightarrow> co_deleted b \<and> co_generation b = co_generation a)
    \<and> (\<not> co_deleted a \<longrightarrow> co_generation b = (if co_deleted b then co_generation a + 1 else co_generation a))
    \<and> (co_flags b = co_flags a \<or> co_flags b = co_flags a OR CAP_FLAG_CASCADE_TRUNCATED)
    \<and> (co_deleted b \<and> has_flag (co_flags a) CAP_FLAG_IMMORTAL \<longrightarrow> co_deleted a)
    \<and> (link_ok (co_first_child_idx a) \<longrightarrow> link_ok (co_first_child_idx b))
    \<and> (link_ok (co_next_sibling_idx a) \<longrightarrow> link_ok (co_next_sibling_idx b))"

definition reg_evolves :: "(nat \<Rightarrow> cap_object option) \<Rightarrow> (nat \<Rightarrow> cap_object option) \<Rightarrow> bool" where
  "reg_evolves m m' \<longleftrightarrow> (\<forall>i. rel_option evolves (m i) (m' i))"

lemma evolves_refl [simp]: "evolves a a"
  by (simp add: evolves_def)

lemma evolves_flag:
  "evolves a b \<Longrightarrow> m = CAP_FLAG_PUBLIC \<or> m = CAP_FLAG_IMMORTAL \<or> m = CAP_FLAG_EAGER_REVOKE
    \<Longrightarrow> has_flag (co_flags b) m = has_flag (co_flags a) m"
proof -
  assume "evolves a b" and m: "m = CAP_FLAG_PUBLIC \<or> m = CAP_FLAG_IMMORTAL \<or> m = CAP_FLAG_EAGER_REVOKE"
  then have "co_flags b = co_flags a \<or> co_flags b = co_flags a OR CAP_FLAG_CASCADE_TRUNCATED"
    unfolding evolves_def by blast
  moreover have "\<not> has_flag CAP_FLAG_CASCADE_TRUNCATED m"
    using m by (elim disjE) (simp_all add: has_flag_def)
  ultimately show ?thesis by (elim disjE) simp_all
qed

lemma evolves_trans: "evolves a b \<Longrightarrow> evolves b c \<Longrightarrow> evolves a c"
proof -
  assume ab: "evolves a b" and bc: "evolves b c"
  have im: "has_flag (co_flags b) CAP_FLAG_IMMORTAL = has_flag (co_flags a) CAP_FLAG_IMMORTAL"
    using ab by (rule evolves_flag) simp
  have fl: "co_flags c = co_flags a \<or> co_flags c = co_flags a OR CAP_FLAG_CASCADE_TRUNCATED"
  proof -
    have "co_flags b = co_flags a \<or> co_flags b = co_flags a OR CAP_FLAG_CASCADE_TRUNCATED"
      "co_flags c = co_flags b \<or> co_flags c = co_flags b OR CAP_FLAG_CASCADE_TRUNCATED"
      using ab bc unfolding evolves_def by blast+
    then show ?thesis by (elim disjE) (simp_all add: or.assoc)
  qed
  show ?thesis
    using ab bc fl unfolding evolves_def im
    by (cases "co_deleted a"; cases "co_deleted b"; cases "co_deleted c") simp_all
qed

lemma evolves_wf: "evolves a b \<Longrightarrow> object_wf a \<Longrightarrow> object_wf b"
  using evolves_flag [of a b CAP_FLAG_PUBLIC]
  by (simp add: object_wf_def evolves_def audience_def)

lemma evolves_audience: "evolves a b \<Longrightarrow> audience b = audience a"
  by (simp add: evolves_def audience_def)

lemma evolves_validate:
  "evolves a b \<Longrightarrow> cap_token_validate_audience (Some b) p = cap_token_validate_audience (Some a) p"
  using evolves_flag [of a b CAP_FLAG_PUBLIC]
  by (simp add: cap_token_validate_audience_def evolves_audience)

lemma evolves_mark: "\<not> has_flag (co_flags ob) CAP_FLAG_IMMORTAL \<Longrightarrow> \<not> co_deleted ob \<Longrightarrow> evolves ob (mark_revoked ob)"
  by (simp add: evolves_def mark_revoked_def)

lemma evolves_truncated:
  "evolves ob (ob\<lparr>co_flags := co_flags ob OR CAP_FLAG_CASCADE_TRUNCATED\<rparr>)"
  by (simp add: evolves_def)

lemma evolves_core:
  "core a = core b \<Longrightarrow> link_ok (co_first_child_idx b) \<Longrightarrow> link_ok (co_next_sibling_idx b) \<Longrightarrow> evolves a b"
  using core_eq_sel [of a b] by (simp add: evolves_def)

lemma reg_evolves_refl [simp]: "reg_evolves m m"
  by (simp add: reg_evolves_def option.rel_refl)

lemma reg_evolves_trans: "reg_evolves m m' \<Longrightarrow> reg_evolves m' m'' \<Longrightarrow> reg_evolves m m''"
  unfolding reg_evolves_def
  by (metis (no_types, lifting) evolves_trans option.rel_sel)

lemma reg_evolves_upd:
  "m i = Some a \<Longrightarrow> evolves a b \<Longrightarrow> reg_evolves m (m(i \<mapsto> b))"
  by (simp add: reg_evolves_def option.rel_refl)

lemma reg_evolves_SomeD:
  "reg_evolves m m' \<Longrightarrow> m' i = Some b \<Longrightarrow> \<exists>a. m i = Some a \<and> evolves a b"
  unfolding reg_evolves_def by (metis option.rel_cases option.discI option.inject)

lemma reg_evolves_SomeI:
  "reg_evolves m m' \<Longrightarrow> m i = Some a \<Longrightarrow> \<exists>b. m' i = Some b \<and> evolves a b"
  unfolding reg_evolves_def by (metis option.rel_cases option.discI option.inject)

lemma reg_evolves_None: "reg_evolves m m' \<Longrightarrow> m' i = None \<longleftrightarrow> m i = None"
  unfolding reg_evolves_def by (metis rel_option_None1 rel_option_None2)

lemma cascade_loop_evolves: "reg_evolves m (snd (snd (cascade_loop todo tail tr n m)))"
proof (induction todo tail tr n m rule: cascade_loop.induct)
  case (2 idx todo tail tr n m)
  show ?case
  proof (cases "m idx")
    case (Some obj)
    show ?thesis
    proof (cases "has_flag (co_flags obj) CAP_FLAG_IMMORTAL")
      case False
      let ?m = "if co_deleted obj then m else m(idx \<mapsto> mark_revoked obj)"
      have "reg_evolves m ?m"
        using Some False evolves_mark by (simp add: reg_evolves_upd)
      with False Some 2 show ?thesis
        by (auto simp: Let_def split: prod.splits if_splits intro: reg_evolves_trans)
    qed (use Some 2 in simp)
  qed (use 2 in simp)
qed simp

lemma revoke_cascade_sel [simp]:
  "g_cap_object_count (snd (revoke_cascade i s)) = g_cap_object_count s"
  "cap_object_cache (snd (revoke_cascade i s)) = cap_object_cache s"
  "ktrace (snd (revoke_cascade i s)) = ktrace s"
  "cap_state.more (snd (revoke_cascade i s)) = cap_state.more s"
  unfolding revoke_cascade_def by (auto simp: Let_def split: option.splits prod.splits)

lemma revoke_cascade_evolves:
  "reg_evolves (g_cap_object_ptrs s) (g_cap_object_ptrs (snd (revoke_cascade i s)))"
proof (cases "i = 0 \<or> i \<ge> CAP_OBJECT_CAPACITY \<or> g_cap_object_ptrs s i = None")
  case False
  then obtain root where root: "g_cap_object_ptrs s i = Some root" by auto
  obtain q t where q: "seed_children (g_cap_object_ptrs s) (co_first_child_idx root) REVOKE_CASCADE_MAX = (q, t)"
    by fastforce
  obtain n tr m where l: "cascade_loop q (length q) t 0 (g_cap_object_ptrs s) = (n, tr, m)"
    by (metis prod_cases3)
  have "reg_evolves (g_cap_object_ptrs s) m"
    using cascade_loop_evolves [of "g_cap_object_ptrs s" q "length q" t 0] l by simp
  then show ?thesis
    using False root q l
    by (auto simp: revoke_cascade_def Let_def split: option.splits
        intro: reg_evolves_trans reg_evolves_upd evolves_truncated)
qed (auto simp: revoke_cascade_def)

lemma cap_object_revoke_evolves:
  "reg_evolves (g_cap_object_ptrs s) (g_cap_object_ptrs (snd (cap_object_revoke i s)))"
proof (cases "i = 0 \<or> i \<ge> CAP_OBJECT_CAPACITY")
  case False
  show ?thesis
  proof (cases "g_cap_object_ptrs s i")
    case (Some ob)
    let ?s = "put_object i (mark_revoked ob) s"
    have "\<not> has_flag (co_flags ob) CAP_FLAG_IMMORTAL \<Longrightarrow> \<not> co_deleted ob
      \<Longrightarrow> reg_evolves (g_cap_object_ptrs s) (g_cap_object_ptrs ?s)"
      using Some by (auto intro: reg_evolves_upd evolves_mark)
    with Some False revoke_cascade_evolves [of ?s i] show ?thesis
      by (auto simp: cap_object_revoke_def Let_def split: prod.splits
          dest: reg_evolves_trans simp del: put_object_sel)
  qed (simp add: cap_object_revoke_def)
qed (auto simp: cap_object_revoke_def)

lemma cap_object_revoke_sel [simp]:
  "g_cap_object_count (snd (cap_object_revoke i s)) = g_cap_object_count s"
  "cap_object_cache (snd (cap_object_revoke i s)) = cap_object_cache s"
  "cap_state.more (snd (cap_object_revoke i s)) = cap_state.more s"
  unfolding cap_object_revoke_def
  by (simp_all add: Let_def case_prod_beta split: option.split)

lemma collect_orphans_loop_evolves:
  "reg_evolves (g_cap_object_ptrs s) (g_cap_object_ptrs (snd (collect_orphans_loop p is n s)))
   \<and> g_cap_object_count (snd (collect_orphans_loop p is n s)) = g_cap_object_count s
   \<and> cap_object_cache (snd (collect_orphans_loop p is n s)) = cap_object_cache s
   \<and> ktrace (snd (collect_orphans_loop p is n s)) = ktrace s
   \<and> cap_state.more (snd (collect_orphans_loop p is n s)) = cap_state.more s"
proof (induction p "is" n s rule: collect_orphans_loop.induct)
  case (2 p i "is" n s)
  show ?case
  proof (cases "g_cap_object_ptrs s i")
    case (Some ob)
    let ?s = "put_object i (mark_revoked ob) s"
    let ?r = "if has_flag (co_flags ob) CAP_FLAG_EAGER_REVOKE then revoke_cascade i ?s else (0, ?s)"
    have step: "\<not> has_flag (co_flags ob) CAP_FLAG_IMMORTAL \<Longrightarrow> \<not> co_deleted ob
      \<Longrightarrow> reg_evolves (g_cap_object_ptrs s) (g_cap_object_ptrs (snd ?r))"
      using Some revoke_cascade_evolves [of ?s i]
      by (auto intro: reg_evolves_upd evolves_mark reg_evolves_trans)
    obtain c s1 where r: "?r = (c, s1)" by fastforce
    then have s1: "s1 = snd ?r" by simp
    have sel: "g_cap_object_count s1 = g_cap_object_count s" "cap_object_cache s1 = cap_object_cache s"
      "ktrace s1 = ktrace s" "cap_state.more s1 = cap_state.more s"
      unfolding s1 by simp_all
    show ?thesis
    proof (cases "\<not> co_deleted ob \<and> co_owner_pid ob = p \<and> \<not> has_flag (co_flags ob) CAP_FLAG_IMMORTAL")
      case True
      then have e: "collect_orphans_loop p (i # is) n s = collect_orphans_loop p is (n + 1 + c) s1"
        using Some r by simp
      show ?thesis
        unfolding e using step True sel r "2.IH"(2) [OF Some True refl refl r [symmetric]]
        by (auto intro: reg_evolves_trans)
    next
      case False
      then have "collect_orphans_loop p (i # is) n s = collect_orphans_loop p is n s"
        using Some by auto
      with "2.IH"(3) [OF Some False] show ?thesis by simp
    qed
  qed (use 2 in simp)
qed simp

lemma revoke_collect_orphans_evolves:
  "reg_evolves (g_cap_object_ptrs s) (g_cap_object_ptrs (snd (revoke_collect_orphans p s)))"
  "g_cap_object_count (snd (revoke_collect_orphans p s)) = g_cap_object_count s"
  "cap_object_cache (snd (revoke_collect_orphans p s)) = cap_object_cache s"
  "ktrace (snd (revoke_collect_orphans p s)) = ktrace s"
  "cap_state.more (snd (revoke_collect_orphans p s)) = cap_state.more s"
  by (simp_all add: revoke_collect_orphans_def collect_orphans_loop_evolves)


section \<open>Preservation of the invariant\<close>

lemma cap_wfD:
  assumes "cap_wf s" "g_cap_object_ptrs s i = Some ob"
  shows "object_wf ob" "i < g_cap_object_count s" "i < CAP_OBJECT_CAPACITY"
  using assms unfolding cap_wf_def by (auto dest: less_le_trans)

lemma cap_wf_evolves:
  assumes wf: "cap_wf s" and ev: "reg_evolves (g_cap_object_ptrs s) (g_cap_object_ptrs s')"
    and "g_cap_object_count s' = g_cap_object_count s" "cap_object_cache s' = cap_object_cache s"
  shows "cap_wf s'"
proof -
  have "i < g_cap_object_count s \<and> object_wf ob" if "g_cap_object_ptrs s' i = Some ob" for i ob
    using reg_evolves_SomeD [OF ev that] cap_wfD [OF wf] evolves_wf by blast
  moreover have "\<exists>z. g_cap_object_ptrs s' 0 = Some z \<and> has_flag (co_flags z) CAP_FLAG_IMMORTAL \<and> \<not> co_deleted z"
    if "cap_object_cache s"
  proof -
    from that wf obtain z where z: "g_cap_object_ptrs s 0 = Some z" "has_flag (co_flags z) CAP_FLAG_IMMORTAL"
      "\<not> co_deleted z" unfolding cap_wf_def by blast
    from reg_evolves_SomeI [OF ev z(1)] obtain z' where z': "g_cap_object_ptrs s' 0 = Some z'" "evolves z z'"
      by blast
    with z evolves_flag [of z z' CAP_FLAG_IMMORTAL] show ?thesis by (auto simp: evolves_def)
  qed
  ultimately show ?thesis using assms by (simp add: cap_wf_def)
qed

lemma cap_object_revoke_wf [wf_intros]: "cap_wf s \<Longrightarrow> cap_wf (snd (cap_object_revoke i s))"
  by (erule cap_wf_evolves) (simp_all add: cap_object_revoke_evolves)

lemma revoke_collect_orphans_wf [wf_intros]: "cap_wf s \<Longrightarrow> cap_wf (snd (revoke_collect_orphans p s))"
  by (erule cap_wf_evolves) (simp_all add: revoke_collect_orphans_evolves)

lemma link_child_evolves:
  assumes "cap_wf s"
  shows "reg_evolves (g_cap_object_ptrs s) (g_cap_object_ptrs (cap_object_link_child p c s))"
proof (cases "p = CAP_OBJECT_IDX_NONE \<or> p \<ge> CAP_OBJECT_CAPACITY \<or> c = 0 \<or> c \<ge> CAP_OBJECT_CAPACITY
    \<or> g_cap_object_ptrs s p = None \<or> g_cap_object_ptrs s c = None")
  case False
  then obtain po co where p: "g_cap_object_ptrs s p = Some po" and c: "g_cap_object_ptrs s c = Some co"
    by auto
  from cap_wfD(1) [OF assms p] have lp: "link_ok (co_first_child_idx po)" by (simp add: object_wf_def)
  let ?m = "(g_cap_object_ptrs s)(c \<mapsto> co\<lparr>co_next_sibling_idx := co_first_child_idx po\<rparr>)"
  have 1: "reg_evolves (g_cap_object_ptrs s) ?m"
    using c lp by (auto intro!: reg_evolves_upd simp: evolves_def)
  from reg_evolves_SomeI [OF 1 p] obtain po' where p': "?m p = Some po'" by blast
  have "reg_evolves ?m (?m(p \<mapsto> po'\<lparr>co_first_child_idx := c\<rparr>))"
    using p' False by (intro reg_evolves_upd) (auto simp: evolves_def link_ok_def)
  with 1 have "reg_evolves (g_cap_object_ptrs s) (?m(p \<mapsto> po'\<lparr>co_first_child_idx := c\<rparr>))"
    by (rule reg_evolves_trans)
  moreover have "g_cap_object_ptrs (cap_object_link_child p c s) = ?m(p \<mapsto> po'\<lparr>co_first_child_idx := c\<rparr>)"
    using False p c p' by (auto simp: cap_object_link_child_def Let_def split: if_splits)
  ultimately show ?thesis by simp
qed (auto simp: cap_object_link_child_def split: option.splits)

lemma cap_object_create_wf [wf_intros]:
  assumes "cap_wf s"
  shows "cap_wf (snd (cap_object_create ok k r aud fl kd own par s))"
proof (cases "cap_object_create ok k r aud fl kd own par s")
  case (Pair res s')
  show ?thesis
  proof (cases res)
    case (Inr slot)
    let ?ob = "cap_object_fresh k r aud fl kd own par"
    let ?p = "put_object slot ?ob s"
    let ?s = "if slot \<ge> g_cap_object_count s then ?p\<lparr>g_cap_object_count := Suc slot\<rparr> else ?p"
    note slot = cap_object_create_InrD(1,2,3) [OF Pair [unfolded Inr]]
    have wf: "cap_wf ?s"
      using assms slot fresh_wf [of k r aud fl kd own par] unfolding cap_wf_def
      by (auto intro: less_SucI order_less_le_trans)
    have "s' = ?s \<or> s' = cap_object_link_child par slot ?s"
      using Pair Inr unfolding cap_object_create_def
      by (auto simp: Let_def split: if_splits)
    then show ?thesis
    proof
      assume "s' = cap_object_link_child par slot ?s"
      with cap_wf_evolves [OF wf link_child_evolves [OF wf, of par slot]] Pair show ?thesis by simp
    qed (use wf Pair in simp)
  qed (use Pair assms cap_object_create_Inl in fastforce)
qed

lemma cap_object_derive_inner_wf:
  "cap_wf s \<Longrightarrow> cap_wf (snd (cap_object_derive_inner ok par c r aud fl q ex s))"
proof -
  assume wf: "cap_wf s"
  have log: "cap_wf (log_event e t) = cap_wf t" for e and t :: "'a cap_state_scheme"
    by (simp add: cap_wf_def)
  show ?thesis
    unfolding cap_object_derive_inner_def
    using wf cap_object_create_wf [OF wf]
    by (simp add: Let_def case_prod_beta log split: option.split sum.split)
qed

lemma cap_object_derive_wf [wf_intros]: "cap_wf s \<Longrightarrow> cap_wf (snd (cap_object_derive ok par c r aud fl s))"
  by (simp add: cap_object_derive_def cap_object_derive_inner_wf)

lemma cap_object_init_wf:
  "g_cap_object_ptrs s = (\<lambda>_. None) \<Longrightarrow> g_cap_object_count s = 0 \<Longrightarrow> \<not> cap_object_cache s
    \<Longrightarrow> cap_object_init True True s = Some s' \<Longrightarrow> cap_wf s' \<and> cap_object_cache s'"
  by (auto simp: cap_object_init_def cap_wf_def cap_sentinel_def cap_object_zero_def object_wf_def
      audience_def has_flag_def split: if_splits)

section \<open>Attenuation and confinement\<close>

lemma core_at_SomeD: "core_at s i = Some c \<Longrightarrow> \<exists>ob. g_cap_object_ptrs s i = Some ob \<and> core ob = c"
  by (auto simp: core_at_def)

lemma core_at_SomeI: "g_cap_object_ptrs s i = Some ob \<Longrightarrow> core_at s i = Some (core ob)"
  by (simp add: core_at_def)

lemma audience_scan_iff:
  "audience_scan ob ps \<longleftrightarrow>
    set (takeWhile (\<lambda>p. p \<noteq> PID_NONE) ps) \<subseteq> set (audience ob) - {PID_PUBLIC}"
  by (induction ob ps rule: audience_scan.induct) auto

lemma fresh_audience_Some:
  "set (audience (cap_object_fresh k r (Some ps) fl kd own par))
    \<subseteq> set (takeWhile (\<lambda>p. p \<noteq> PID_NONE) (take CAP_AUDIENCE_MAX ps))"
  unfolding fresh_audience
  using copy_audience_props(3) [of "Some ps" own "fst (cap_object_copy_audience (Some ps) own)"]
  by (metis (no_types, lifting) option.simps(5) prod.collapse)

text \<open>What a successful derivation produces from the parent it names.\<close>

definition attenuates :: "cap_object \<Rightarrow> cap_object \<Rightarrow> bool" where
  "attenuates parent child \<longleftrightarrow>
    co_kind child = co_kind parent \<and> co_kind_data child = co_kind_data parent
    \<and> has_all (co_rights parent) (co_rights child)
    \<and> (has_flag (co_flags child) CAP_FLAG_PUBLIC \<longrightarrow> has_flag (co_flags parent) CAP_FLAG_PUBLIC)
    \<and> (has_flag (co_flags child) CAP_FLAG_IMMORTAL \<longrightarrow> has_flag (co_flags parent) CAP_FLAG_IMMORTAL)
    \<and> (\<forall>p. cap_token_validate_audience (Some child) p \<longrightarrow> cap_token_validate_audience (Some parent) p)"

lemma has_flag_and_priv:
  assumes "f AND (fl AND (CAP_FLAG_PUBLIC OR CAP_FLAG_IMMORTAL)) = fl AND (CAP_FLAG_PUBLIC OR CAP_FLAG_IMMORTAL)"
    "m = CAP_FLAG_PUBLIC \<or> m = CAP_FLAG_IMMORTAL" "has_flag fl m"
  shows "has_flag f m"
proof -
  let ?M = "CAP_FLAG_PUBLIC OR CAP_FLAG_IMMORTAL"
  from assms(2) have "?M AND m = m" by auto
  then have "(fl AND ?M) AND m = fl AND m" by (simp only: and.assoc)
  with assms(3) have "has_flag (fl AND ?M) m" by (simp add: has_flag_def)
  with has_all_flag [of f "fl AND ?M" m] assms(1) show ?thesis by (simp add: has_all_def)
qed

lemma cap_object_derive_inner_InrD:
  assumes d: "cap_object_derive_inner ok par c r aud fl q False s = (Inr n, s')" and wf: "cap_wf s"
  obtains parent child where "g_cap_object_ptrs s par = Some parent" "\<not> co_deleted parent"
    "par \<noteq> 0" "par < CAP_OBJECT_CAPACITY"
    "has_flag (co_rights parent) RIGHT_DERIVE" "cap_token_validate_audience (Some parent) c"
    "g_cap_object_ptrs s n = None" "g_cap_object_ptrs s' n = Some child" "n \<noteq> 0" "n < CAP_OBJECT_CAPACITY"
    "attenuates parent child" "co_rights child = r" "co_owner_pid child = c" "co_generation child = 1"
    "\<not> co_deleted child" "co_parent_idx child = par"
    "\<And>i. i \<noteq> n \<Longrightarrow> core_at s' i = core_at s i"
proof -
  define ps where "ps = (case aud of None \<Rightarrow> c # replicate (CAP_AUDIENCE_MAX - 1) PID_NONE | Some ps \<Rightarrow> ps)"
  from d obtain parent s1 where p: "g_cap_object_ptrs s par = Some parent" "\<not> co_deleted parent"
      "par \<noteq> 0" "par < CAP_OBJECT_CAPACITY" "cap_token_validate_audience (Some parent) c"
      "has_flag (co_rights parent) RIGHT_DERIVE"
    and rt: "has_all (co_rights parent) r"
    and fl: "co_flags parent AND (fl AND (CAP_FLAG_PUBLIC OR CAP_FLAG_IMMORTAL))
      = fl AND (CAP_FLAG_PUBLIC OR CAP_FLAG_IMMORTAL)"
    and au: "audience_is_subset parent aud"
    and cr: "cap_object_create ok (co_kind parent) r (Some ps) fl (co_kind_data parent) c par s = (Inr n, s1)"
    and s1: "\<And>i. core_at s' i = core_at s1 i"
    unfolding cap_object_derive_inner_def ps_def has_flag_def has_all_def core_at_def
    by (auto simp: Let_def split: option.splits sum.splits prod.splits if_splits)
  let ?f = "cap_object_fresh (co_kind parent) r (Some ps) fl (co_kind_data parent) c par"
  note cr' = cap_object_create_InrD [OF cr]
  from core_at_SomeD [of s' n "core ?f"] cr'(4) s1 obtain child
    where child: "g_cap_object_ptrs s' n = Some child" and cc: "core child = core ?f" by auto
  note cs = core_eq_sel [OF cc]
  have aud_sub: "has_flag (co_flags parent) CAP_FLAG_PUBLIC \<or>
      set (audience ?f) \<subseteq> set (audience parent) - {PID_PUBLIC}"
  proof (cases "has_flag (co_flags parent) CAP_FLAG_PUBLIC")
    case False
    have "c \<in> set (audience parent)" "c \<noteq> PID_PUBLIC"
      using p(5) False cap_wfD(1) [OF wf p(1)]
      by (auto simp: cap_token_validate_audience_def object_wf_def)
    with False au fresh_audience_Some [of "co_kind parent" r ps fl "co_kind_data parent" c par]
    show ?thesis
      by (auto simp: audience_is_subset_def audience_scan_iff ps_def split: option.splits if_splits)
  qed simp
  have att: "attenuates parent child"
    unfolding attenuates_def cap_token_validate_audience_def
    using rt aud_sub has_flag_and_priv [OF fl, of CAP_FLAG_PUBLIC] has_flag_and_priv [OF fl, of CAP_FLAG_IMMORTAL]
    by (auto simp: cs fresh_flags has_flag_def [of CAP_FLAG_PUBLIC CAP_FLAG_IMMORTAL] split: if_splits)
  show ?thesis
    by (rule that [of parent child]) (use p cr' child att s1 in \<open>simp_all add: cs\<close>)
qed

text \<open>The authority to exercise rights \<open>r\<close> over a resource, held by process \<open>p\<close>.\<close>

definition authority :: "'a cap_state_scheme \<Rightarrow> pid \<Rightarrow> u16 \<Rightarrow> ptr \<Rightarrow> u64 \<Rightarrow> bool" where
  "authority s p k d r \<longleftrightarrow>
    (\<exists>tok ob. cap_token_resolve s p tok r = Some ob \<and> co_kind ob = k \<and> co_kind_data ob = d)"

lemma authority_iff:
  "authority s p k d r \<longleftrightarrow>
    (\<exists>i ob. i \<noteq> 0 \<and> i < CAP_OBJECT_CAPACITY \<and> g_cap_object_ptrs s i = Some ob \<and> \<not> co_deleted ob
      \<and> cap_token_validate_audience (Some ob) p \<and> has_all (co_rights ob) r
      \<and> co_kind ob = k \<and> co_kind_data ob = d)" (is "_ \<longleftrightarrow> (\<exists>i ob. ?P i ob)")
proof
  assume "\<exists>i ob. ?P i ob"
  then obtain i ob where P: "?P i ob" by blast
  then have "unat (cap_token_idx (cap_token_pack (co_generation ob) (of_nat i) 0)) = i"
    by (intro cap_token_idx_pack_nat) simp
  with P have "cap_token_resolve s p (cap_token_pack (co_generation ob) (of_nat i) 0) r = Some ob"
    by (simp add: cap_token_resolve_Some_iff)
  with P show "authority s p k d r" unfolding authority_def by blast
qed (auto simp: authority_def cap_token_resolve_Some_iff Let_def)

lemma authority_evolves:
  assumes "reg_evolves (g_cap_object_ptrs s) (g_cap_object_ptrs s')" "authority s' p k d r"
  shows "authority s p k d r"
proof -
  from assms(2) obtain i ob where i: "i \<noteq> 0" "i < CAP_OBJECT_CAPACITY" "g_cap_object_ptrs s' i = Some ob"
    "\<not> co_deleted ob" "cap_token_validate_audience (Some ob) p" "has_all (co_rights ob) r"
    "co_kind ob = k" "co_kind_data ob = d" unfolding authority_iff by blast
  from reg_evolves_SomeD [OF assms(1) i(3)] obtain a where a: "g_cap_object_ptrs s i = Some a" "evolves a ob"
    by blast
  with i evolves_validate [OF a(2)] show ?thesis
    unfolding authority_iff by (intro exI [of _ i] exI [of _ a]) (auto simp: evolves_def)
qed

lemma authority_derive:
  assumes wf: "cap_wf s"
    and au: "authority (snd (cap_object_derive_inner ok par c r0 aud fl q False s)) p k d r"
  shows "authority s p k d r"
proof (cases "cap_object_derive_inner ok par c r0 aud fl q False s")
  case (Pair res s')
  show ?thesis
  proof (cases res)
    case (Inl e)
    with Pair have "s' = s"
      unfolding cap_object_derive_inner_def
      by (auto simp: Let_def split: option.splits sum.splits prod.splits if_splits)
    with au Pair show ?thesis by simp
  next
    case (Inr n)
    from au Pair obtain i ob where i: "i \<noteq> 0" "i < CAP_OBJECT_CAPACITY" "g_cap_object_ptrs s' i = Some ob"
      "\<not> co_deleted ob" "cap_token_validate_audience (Some ob) p" "has_all (co_rights ob) r"
      "co_kind ob = k" "co_kind_data ob = d" unfolding authority_iff by auto
    from cap_object_derive_inner_InrD [OF Pair [unfolded Inr] wf]
    obtain parent child where P: "g_cap_object_ptrs s par = Some parent" "\<not> co_deleted parent"
      "par \<noteq> 0" "par < CAP_OBJECT_CAPACITY" "g_cap_object_ptrs s' n = Some child"
      "attenuates parent child" "\<And>i. i \<noteq> n \<Longrightarrow> core_at s' i = core_at s i" by blast
    show ?thesis
    proof (cases "i = n")
      case True
      with i P show ?thesis
        unfolding authority_iff attenuates_def
        by (intro exI [of _ par] exI [of _ parent]) (auto intro: has_all_trans)
    next
      case False
      with P(7) i(3) obtain a where a: "g_cap_object_ptrs s i = Some a" "core a = core ob"
        using core_at_SomeI [OF i(3)] core_at_SomeD [of s i "core ob"] by auto
      with i show ?thesis unfolding authority_iff
        by (intro exI [of _ i] exI [of _ a])
          (simp add: core_eq_sel [OF a(2)] cap_token_validate_audience_def)
    qed
  qed
qed

section \<open>The eager cascade\<close>

inductive in_chain :: "(nat \<Rightarrow> cap_object option) \<Rightarrow> nat \<Rightarrow> nat \<Rightarrow> bool" for m where
  chain_here: "c \<noteq> CAP_OBJECT_IDX_NONE \<Longrightarrow> in_chain m c c"
| chain_next: "c \<noteq> CAP_OBJECT_IDX_NONE \<Longrightarrow> m c = Some ob \<Longrightarrow> in_chain m (co_next_sibling_idx ob) x \<Longrightarrow> in_chain m c x"

inductive reaches :: "(nat \<Rightarrow> cap_object option) \<Rightarrow> nat \<Rightarrow> nat \<Rightarrow> bool" for m where
  reaches_self: "reaches m t t"
| reaches_child: "m t = Some ob \<Longrightarrow> \<not> has_flag (co_flags ob) CAP_FLAG_IMMORTAL
    \<Longrightarrow> in_chain m (co_first_child_idx ob) c \<Longrightarrow> reaches m c x \<Longrightarrow> reaches m t x"

text \<open>
  \<open>x\<close> hangs below \<open>root\<close> in the derivation tree, with no immortal object strictly between them.
\<close>

definition descendant :: "(nat \<Rightarrow> cap_object option) \<Rightarrow> nat \<Rightarrow> nat \<Rightarrow> bool" where
  "descendant m root x \<longleftrightarrow>
    (\<exists>ob c. m root = Some ob \<and> in_chain m (co_first_child_idx ob) c \<and> reaches m c x)"

definition same_node :: "cap_object \<Rightarrow> cap_object \<Rightarrow> bool" where
  "same_node a b \<longleftrightarrow> co_first_child_idx a = co_first_child_idx b
    \<and> co_next_sibling_idx a = co_next_sibling_idx b
    \<and> has_flag (co_flags a) CAP_FLAG_IMMORTAL = has_flag (co_flags b) CAP_FLAG_IMMORTAL"

definition same_shape :: "(nat \<Rightarrow> cap_object option) \<Rightarrow> (nat \<Rightarrow> cap_object option) \<Rightarrow> bool" where
  "same_shape m m' \<longleftrightarrow> (\<forall>i. rel_option same_node (m i) (m' i))"

lemma same_shape_refl [simp]: "same_shape m m"
  by (simp add: same_shape_def same_node_def option.rel_refl)

lemma same_shape_sym: "same_shape m m' \<Longrightarrow> same_shape m' m"
proof -
  have f: "same_node\<inverse>\<inverse> = same_node" by (auto simp: fun_eq_iff same_node_def)
  show "same_shape m m' \<Longrightarrow> same_shape m' m"
    unfolding same_shape_def using option.rel_flip [of same_node] f by metis
qed

lemma same_shape_SomeD:
  "same_shape m m' \<Longrightarrow> m i = Some a \<Longrightarrow> \<exists>b. m' i = Some b \<and> same_node a b"
  unfolding same_shape_def by (metis option.rel_cases option.discI option.inject)

lemma same_shape_upd: "m i = Some a \<Longrightarrow> same_node a b \<Longrightarrow> same_shape m (m(i \<mapsto> b))"
  by (simp add: same_shape_def same_node_def option.rel_refl)

lemma same_node_mark [simp]: "same_node a (mark_revoked a)"
  by (simp add: same_node_def)

lemma in_chain_shape1: "in_chain m c x \<Longrightarrow> same_shape m m' \<Longrightarrow> in_chain m' c x"
proof (induction rule: in_chain.induct)
  case (chain_next c ob x)
  from same_shape_SomeD [OF chain_next.prems chain_next.hyps(2)] obtain b
    where b: "m' c = Some b" "same_node ob b" by blast
  with chain_next show ?case
    by (intro in_chain.chain_next [of c m' b x]) (simp_all add: same_node_def)
qed (rule in_chain.chain_here)

lemma reaches_shape1: "reaches m t x \<Longrightarrow> same_shape m m' \<Longrightarrow> reaches m' t x"
proof (induction rule: reaches.induct)
  case (reaches_child t ob c x)
  from same_shape_SomeD [OF reaches_child.prems reaches_child.hyps(1)] obtain b
    where b: "m' t = Some b" "same_node ob b" by blast
  with reaches_child in_chain_shape1 [OF reaches_child.hyps(3) reaches_child.prems] show ?case
    by (intro reaches.reaches_child [of m' t b c x]) (simp_all add: same_node_def)
qed (rule reaches.reaches_self)

lemma in_chain_shape: "same_shape m m' \<Longrightarrow> in_chain m' = in_chain m"
  using in_chain_shape1 same_shape_sym by (intro ext iffI) blast+

lemma reaches_shape: "same_shape m m' \<Longrightarrow> reaches m' = reaches m"
  using reaches_shape1 same_shape_sym by (intro ext iffI) blast+

lemma descendant_shape: "same_shape m m' \<Longrightarrow> descendant m' = descendant m"
proof (intro ext)
  fix root x
  assume sh: "same_shape m m'"
  show "descendant m' root x = descendant m root x"
  proof (cases "m root")
    case None
    with sh have "m' root = None" unfolding same_shape_def by (metis rel_option_None1)
    with None show ?thesis by (simp add: descendant_def)
  next
    case (Some a)
    with same_shape_SomeD [OF sh Some] show ?thesis
      by (auto simp: descendant_def in_chain_shape [OF sh] reaches_shape [OF sh] same_node_def)
  qed
qed

inductive_cases in_chain_NONE_E: "in_chain m CAP_OBJECT_IDX_NONE x"
inductive_cases in_chain_E: "in_chain m c x"

lemma in_chain_NONE [simp]: "\<not> in_chain m CAP_OBJECT_IDX_NONE x"
  by (auto elim: in_chain_NONE_E)

lemma in_chain_None: "m c = None \<Longrightarrow> in_chain m c x \<longleftrightarrow> c \<noteq> CAP_OBJECT_IDX_NONE \<and> x = c"
  by (auto elim: in_chain_E intro: in_chain.chain_here)

lemma in_chain_Some:
  "m c = Some ob \<Longrightarrow> c \<noteq> CAP_OBJECT_IDX_NONE
    \<Longrightarrow> in_chain m c x \<longleftrightarrow> x = c \<or> in_chain m (co_next_sibling_idx ob) x"
  by (auto elim: in_chain_E intro: in_chain.intros)

lemma enqueue_children_sound: "x \<in> set (fst (enqueue_children m c room)) \<Longrightarrow> in_chain m c x"
  by (induction m c room rule: enqueue_children.induct)
     (auto simp: case_prod_beta Let_def in_chain_None in_chain_Some split: option.splits if_splits)

lemma enqueue_children_complete:
  "\<not> snd (enqueue_children m c room) \<Longrightarrow> in_chain m c x \<Longrightarrow> x \<in> set (fst (enqueue_children m c room))"
  by (induction m c room rule: enqueue_children.induct)
     (auto simp: case_prod_beta Let_def in_chain_None in_chain_Some split: option.splits if_splits)

lemma seed_children_sound: "x \<in> set (fst (seed_children m c room)) \<Longrightarrow> in_chain m c x"
  by (induction m c room rule: seed_children.induct)
     (auto simp: case_prod_beta Let_def in_chain_None in_chain_Some split: option.splits if_splits)

lemma seed_children_complete:
  "\<not> snd (seed_children m c room) \<Longrightarrow> in_chain m c x \<Longrightarrow> x \<in> set (fst (seed_children m c room))"
  by (induction m c room rule: seed_children.induct)
     (auto simp: case_prod_beta Let_def in_chain_None in_chain_Some split: option.splits if_splits)

text \<open>One turn of the loop on a live, mortal object.\<close>

lemma cascade_loop_live:
  assumes "m idx = Some ob" "\<not> has_flag (co_flags ob) CAP_FLAG_IMMORTAL"
    "m' = (if co_deleted ob then m else m(idx \<mapsto> mark_revoked ob))"
    "e = enqueue_children m' (co_first_child_idx ob) (REVOKE_CASCADE_MAX - tail)"
  shows "cascade_loop (idx # todo) tail tr n m =
    cascade_loop (todo @ fst e) (tail + length (fst e)) (tr \<or> snd e)
      (if co_deleted ob then n else n + 1) m'"
  using assms by (cases "co_deleted ob") (simp_all add: case_prod_beta)

lemma cascade_loop_induct [consumes 0, case_names Nil Skip Live]:
  assumes "\<And>tail tr n m. P [] tail tr n m"
    and "\<And>idx todo tail tr n m. (m idx = None \<or> (\<exists>ob. m idx = Some ob \<and> has_flag (co_flags ob) CAP_FLAG_IMMORTAL))
      \<Longrightarrow> P todo tail tr n m \<Longrightarrow> P (idx # todo) tail tr n m"
    and "\<And>idx todo tail tr n m ob m' e. m idx = Some ob \<Longrightarrow> \<not> has_flag (co_flags ob) CAP_FLAG_IMMORTAL
      \<Longrightarrow> m' = (if co_deleted ob then m else m(idx \<mapsto> mark_revoked ob))
      \<Longrightarrow> e = enqueue_children m' (co_first_child_idx ob) (REVOKE_CASCADE_MAX - tail)
      \<Longrightarrow> P (todo @ fst e) (tail + length (fst e)) (tr \<or> snd e) (if co_deleted ob then n else n + 1) m'
      \<Longrightarrow> P (idx # todo) tail tr n m"
  shows "P todo tail tr (n :: nat) m"
proof (induction todo tail tr n m rule: cascade_loop.induct)
  case (2 idx todo tail tr n m)
  show ?case
  proof (cases "m idx")
    case (Some ob)
    show ?thesis
    proof (cases "has_flag (co_flags ob) CAP_FLAG_IMMORTAL")
      case False
      let ?m' = "if co_deleted ob then m else m(idx \<mapsto> mark_revoked ob)"
      obtain kids t where e: "enqueue_children ?m' (co_first_child_idx ob) (REVOKE_CASCADE_MAX - tail) = (kids, t)"
        by fastforce
      have x: "((if co_deleted ob then n else n + 1), ?m')
          = (if co_deleted ob then (n, m) else (n + 1, m(idx \<mapsto> mark_revoked ob)))"
        by (cases "co_deleted ob") simp_all
      have "P (todo @ kids) (tail + length kids) (tr \<or> t) (if co_deleted ob then n else n + 1) ?m'"
        by (rule "2.IH"(3) [OF Some False refl x refl e [symmetric]])
      then show ?thesis
        by (intro assms(3) [of m idx ob ?m' "(kids, t)" tail todo tr n, OF Some False refl e [symmetric]])
           (simp only: fst_conv snd_conv)
    next
      case True
      with Some have "\<exists>ob. m idx = Some ob \<and> has_flag (co_flags ob) CAP_FLAG_IMMORTAL" by simp
      then show ?thesis by (rule assms(2) [OF disjI2 "2.IH"(2) [OF Some True]])
    qed
  next
    case None
    then show ?thesis by (rule assms(2) [OF disjI1 "2.IH"(1) [OF None]])
  qed
qed (rule assms(1))


lemma mark_shape:
  "m idx = Some ob \<Longrightarrow> m' = (if co_deleted ob then m else m(idx \<mapsto> mark_revoked ob)) \<Longrightarrow> same_shape m m'"
  by (simp add: same_shape_upd)

lemma cascade_loop_deleted_fixed:
  "m i = Some ob \<Longrightarrow> co_deleted ob \<Longrightarrow> snd (snd (cascade_loop todo tail tr n m)) i = Some ob"
proof (induction todo tail tr n m rule: cascade_loop_induct)
  case (Live idx todo tail tr n m ob' m' e)
  then have "m' i = Some ob" by auto
  with Live show ?case by (simp only: cascade_loop_live [OF Live.hyps])
qed auto

lemma cascade_loop_truncated: "tr \<Longrightarrow> fst (snd (cascade_loop todo tail tr n m))"
proof (induction todo tail tr n m rule: cascade_loop_induct)
  case (Live idx todo tail tr n m ob m' e)
  then show ?case by (simp only: cascade_loop_live [OF Live.hyps]) simp
qed auto

lemma cascade_loop_sound:
  "snd (snd (cascade_loop todo tail tr n m)) x \<noteq> m x \<Longrightarrow> \<exists>t\<in>set todo. reaches m t x"
proof (induction todo tail tr n m rule: cascade_loop_induct)
  case (Live idx todo tail tr n m ob m' e)
  note sh = mark_shape [OF Live.hyps(1,3)]
  show ?case
  proof (cases "x = idx")
    case False
    then have "m' x = m x" using Live.hyps(3) by simp
    with Live.prems have "snd (snd (cascade_loop (todo @ fst e) (tail + length (fst e))
        (tr \<or> snd e) (if co_deleted ob then n else n + 1) m')) x \<noteq> m' x"
      by (simp only: cascade_loop_live [OF Live.hyps]) simp
    then obtain t where t: "t \<in> set (todo @ fst e)" "reaches m t x"
      using Live.IH reaches_shape [OF sh] by auto
    show ?thesis
    proof (cases "t \<in> set todo")
      case False
      with t Live.hyps(4) have "in_chain m' (co_first_child_idx ob) t"
        by (auto intro: enqueue_children_sound)
      then have "in_chain m (co_first_child_idx ob) t" by (simp only: in_chain_shape [OF sh])
      with Live.hyps(1,2) t(2) show ?thesis by (auto intro: reaches.reaches_child)
    qed (use t in auto)
  qed (auto intro: reaches.reaches_self)
qed auto

lemma cascade_loop_complete:
  assumes "t \<in> set todo" "reaches m t x" "\<not> fst (snd (cascade_loop todo tail tr n m))"
    "snd (snd (cascade_loop todo tail tr n m)) x = Some ob" "\<not> has_flag (co_flags ob) CAP_FLAG_IMMORTAL"
  shows "co_deleted ob"
  using assms
proof (induction todo tail tr n m arbitrary: t rule: cascade_loop_induct)
  case (Skip idx todo tail tr n m)
  have loop: "cascade_loop (idx # todo) tail tr n m = cascade_loop todo tail tr n m"
    using Skip.hyps by auto
  show ?case
  proof (cases "t \<in> set todo")
    case False
    with Skip.prems have t: "t = idx" by simp
    from Skip.prems(2) show ?thesis
    proof (cases rule: reaches.cases)
      case reaches_self
      have ev: "reg_evolves m (snd (snd (cascade_loop todo tail tr n m)))" by (rule cascade_loop_evolves)
      from Skip.prems(4) loop reg_evolves_SomeD [OF ev, of x ob] obtain a
        where "m x = Some a" "evolves a ob" by auto
      with Skip.hyps Skip.prems(5) t reaches_self evolves_flag [of a ob CAP_FLAG_IMMORTAL]
      show ?thesis by auto
    qed (use Skip.hyps t in auto)
  qed (use Skip loop in metis)
next
  case (Live idx todo tail tr n m ob' m' e)
  note sh = mark_shape [OF Live.hyps(1,3)]
  let ?l = "cascade_loop (todo @ fst e) (tail + length (fst e)) (tr \<or> snd e)
    (if co_deleted ob' then n else n + 1) m'"
  have loop: "cascade_loop (idx # todo) tail tr n m = ?l"
    by (rule cascade_loop_live [OF Live.hyps])
  have ih: "co_deleted ob" if "u \<in> set (todo @ fst e)" "reaches m u x" for u
    using Live.IH [of u] that Live.prems(3-5) loop reaches_shape [OF sh] by simp
  show ?case
  proof (cases "t = idx")
    case True
    from Live.prems(2) show ?thesis
    proof (cases rule: reaches.cases)
      case reaches_self
      have "\<exists>a. m' idx = Some a \<and> co_deleted a" using Live.hyps(1,3) by auto
      with Live.prems(4) loop True reaches_self cascade_loop_deleted_fixed show ?thesis
        by (metis option.inject)
    next
      case (reaches_child ob2 c)
      have "\<not> snd e" using Live.prems(3) loop cascade_loop_truncated [of "tr \<or> snd e"] by auto
      moreover have "in_chain m' (co_first_child_idx ob') c"
        using reaches_child(1,3) True Live.hyps(1) by (simp add: in_chain_shape [OF sh])
      ultimately have "c \<in> set (fst e)"
        unfolding Live.hyps(4) by (rule enqueue_children_complete)
      with reaches_child ih [of c] show ?thesis by simp
    qed
  qed (use Live.prems ih in auto)
qed simp


definition newly_revoked :: "(nat \<Rightarrow> cap_object option) \<Rightarrow> (nat \<Rightarrow> cap_object option) \<Rightarrow> nat set" where
  "newly_revoked m m' = {x. \<exists>a b. m x = Some a \<and> \<not> co_deleted a \<and> m' x = Some b \<and> co_deleted b}"

lemma newly_revoked_refl [simp]: "newly_revoked m m = {}"
  by (auto simp: newly_revoked_def)

lemma newly_revoked_mark:
  assumes "m i = Some ob" "\<not> co_deleted ob" "reg_evolves (m(i \<mapsto> mark_revoked ob)) m'"
  shows "newly_revoked m m' = insert i (newly_revoked (m(i \<mapsto> mark_revoked ob)) m')"
    "i \<notin> newly_revoked (m(i \<mapsto> mark_revoked ob)) m'"
  using assms reg_evolves_SomeI [OF assms(3), of i "mark_revoked ob"]
  by (auto simp: newly_revoked_def evolves_def)

lemma cascade_loop_count:
  "finite (newly_revoked m (snd (snd (cascade_loop todo tail tr n m))))
   \<and> fst (cascade_loop todo tail tr n m) = n + card (newly_revoked m (snd (snd (cascade_loop todo tail tr n m))))"
proof (induction todo tail tr n m rule: cascade_loop_induct)
  case (Live idx todo tail tr n m ob m' e)
  note loop = cascade_loop_live [OF Live.hyps]
  show ?case
  proof (cases "co_deleted ob")
    case False
    then have m': "m' = m(idx \<mapsto> mark_revoked ob)" using Live.hyps(3) by simp
    let ?f = "snd (snd (cascade_loop (todo @ fst e) (tail + length (fst e)) (tr \<or> snd e)
      (if co_deleted ob then n else n + 1) m'))"
    note nr = newly_revoked_mark [OF Live.hyps(1) False cascade_loop_evolves [of "m(idx \<mapsto> mark_revoked ob)"]]
    show ?thesis
      unfolding loop using Live.IH False by (simp add: nr [folded m'])
  qed (use Live.IH Live.hyps(3) loop in simp)
qed auto

lemma revoke_cascade_spec:
  assumes root: "g_cap_object_ptrs s i = Some root" "i \<noteq> 0" "i < CAP_OBJECT_CAPACITY" "co_deleted root"
    and r: "revoke_cascade i s = (n, s')"
  shows "g_cap_object_ptrs s' x \<noteq> g_cap_object_ptrs s x \<Longrightarrow> x = i \<or> descendant (g_cap_object_ptrs s) i x"
    and "g_cap_object_ptrs s' i = Some root' \<Longrightarrow> \<not> has_flag (co_flags root') CAP_FLAG_CASCADE_TRUNCATED
      \<Longrightarrow> descendant (g_cap_object_ptrs s) i x \<Longrightarrow> g_cap_object_ptrs s' x = Some ob
      \<Longrightarrow> \<not> has_flag (co_flags ob) CAP_FLAG_IMMORTAL \<Longrightarrow> co_deleted ob"
    and "n = card (newly_revoked (g_cap_object_ptrs s) (g_cap_object_ptrs s'))"
    and "finite (newly_revoked (g_cap_object_ptrs s) (g_cap_object_ptrs s'))"
proof -
  let ?m = "g_cap_object_ptrs s"
  obtain q t where q: "seed_children ?m (co_first_child_idx root) REVOKE_CASCADE_MAX = (q, t)" by fastforce
  obtain c tr m where l: "cascade_loop q (length q) t 0 ?m = (c, tr, m)" by (metis prod_cases3)
  have mi: "m i = Some root"
    using cascade_loop_deleted_fixed [of ?m i root q "length q" t 0] root(1,4) l by simp
  define m' where "m' = (if tr then m(i \<mapsto> root\<lparr>co_flags := co_flags root OR CAP_FLAG_CASCADE_TRUNCATED\<rparr>) else m)"
  have s': "g_cap_object_ptrs s' = m'" "n = c"
    using r root(1-3) q l mi by (auto simp: revoke_cascade_def Let_def m'_def)
  have nr: "newly_revoked ?m m' = newly_revoked ?m m"
    using root(4) mi root(1) by (auto simp: newly_revoked_def m'_def)
  show "n = card (newly_revoked ?m (g_cap_object_ptrs s'))" "finite (newly_revoked ?m (g_cap_object_ptrs s'))"
    using cascade_loop_count [of ?m q "length q" t 0] l s' nr by simp_all
  show "x = i \<or> descendant ?m i x" if "g_cap_object_ptrs s' x \<noteq> ?m x"
  proof (cases "x = i")
    case False
    with that s' have "m x \<noteq> ?m x" by (simp add: m'_def split: if_splits)
    with cascade_loop_sound [of q "length q" t 0 ?m x] l obtain u where "u \<in> set q" "reaches ?m u x" by auto
    with seed_children_sound [of u ?m "co_first_child_idx root" REVOKE_CASCADE_MAX] q root(1) show ?thesis
      by (auto simp: descendant_def)
  qed simp
  show "co_deleted ob" if a: "g_cap_object_ptrs s' i = Some root'"
    "\<not> has_flag (co_flags root') CAP_FLAG_CASCADE_TRUNCATED" "descendant ?m i x"
    "g_cap_object_ptrs s' x = Some ob" "\<not> has_flag (co_flags ob) CAP_FLAG_IMMORTAL"
  proof -
    have T: "has_flag CAP_FLAG_CASCADE_TRUNCATED CAP_FLAG_CASCADE_TRUNCATED" by (simp add: has_flag_def)
    have tr: "\<not> tr"
    proof
      assume tr
      then have "co_flags root' = co_flags root OR CAP_FLAG_CASCADE_TRUNCATED"
        using a(1) s' by (auto simp: m'_def)
      with a(2) T show False by simp
    qed
    then have "\<not> t" using cascade_loop_truncated [of t q "length q" 0 ?m] l by auto
    with q root(1) a(3) obtain u where "u \<in> set q" "reaches ?m u x"
      using seed_children_complete [of ?m "co_first_child_idx root" REVOKE_CASCADE_MAX]
      by (auto simp: descendant_def)
    with cascade_loop_complete [of u q ?m x "length q" t 0 ob] a tr l s' show ?thesis
      by (simp add: m'_def)
  qed
qed

lemma cap_object_revoke_spec:
  assumes r: "cap_object_revoke i s = (Inr n, s')"
  shows "\<exists>ob. g_cap_object_ptrs s i = Some ob \<and> \<not> co_deleted ob \<and> \<not> has_flag (co_flags ob) CAP_FLAG_IMMORTAL"
    and "\<exists>ob. g_cap_object_ptrs s' i = Some ob \<and> co_deleted ob"
    and "i \<noteq> 0 \<and> i < CAP_OBJECT_CAPACITY"
    and "n = card (newly_revoked (g_cap_object_ptrs s) (g_cap_object_ptrs s'))"
    and "g_cap_object_ptrs s' x \<noteq> g_cap_object_ptrs s x \<Longrightarrow> x = i \<or> descendant (g_cap_object_ptrs s) i x"
    and "g_cap_object_ptrs s i = Some ob \<Longrightarrow> has_flag (co_flags ob) CAP_FLAG_EAGER_REVOKE
      \<Longrightarrow> g_cap_object_ptrs s' i = Some ob' \<Longrightarrow> \<not> has_flag (co_flags ob') CAP_FLAG_CASCADE_TRUNCATED
      \<Longrightarrow> descendant (g_cap_object_ptrs s) i x \<Longrightarrow> g_cap_object_ptrs s' x = Some c
      \<Longrightarrow> \<not> has_flag (co_flags c) CAP_FLAG_IMMORTAL \<Longrightarrow> co_deleted c"
proof -
  let ?m = "g_cap_object_ptrs s"
  from r obtain a where i: "i \<noteq> 0" "i < CAP_OBJECT_CAPACITY" and a: "?m i = Some a" "\<not> co_deleted a"
      "\<not> has_flag (co_flags a) CAP_FLAG_IMMORTAL"
    by (auto simp: cap_object_revoke_def split: if_splits option.splits)
  let ?s = "put_object i (mark_revoked a) s"
  define e where "e = has_flag (co_flags a) CAP_FLAG_EAGER_REVOKE"
  obtain c0 t where ct: "(if e then revoke_cascade i ?s else (0, ?s)) = (c0, t)" by fastforce
  have r': "n = 1 + c0" "g_cap_object_ptrs s' = g_cap_object_ptrs t"
    using r i a ct by (auto simp: cap_object_revoke_def Let_def e_def split: prod.splits if_splits)
  have ev: "reg_evolves (?m(i \<mapsto> mark_revoked a)) (g_cap_object_ptrs s')"
    using ct r' revoke_cascade_evolves [of ?s i] by (auto split: if_splits)
  have sh: "same_shape ?m (?m(i \<mapsto> mark_revoked a))" using a by (simp add: same_shape_upd)
  have root: "g_cap_object_ptrs ?s i = Some (mark_revoked a)" by simp
  note cas = revoke_cascade_spec [OF root i mark_revoked_sel(1)]
  have en: "\<not> e \<Longrightarrow> c0 = 0 \<and> t = ?s" and ee: "e \<Longrightarrow> revoke_cascade i ?s = (c0, t)"
    using ct by auto
  show "\<exists>ob. ?m i = Some ob \<and> \<not> co_deleted ob \<and> \<not> has_flag (co_flags ob) CAP_FLAG_IMMORTAL"
    "i \<noteq> 0 \<and> i < CAP_OBJECT_CAPACITY" using a i by auto
  show "\<exists>ob. g_cap_object_ptrs s' i = Some ob \<and> co_deleted ob"
    using reg_evolves_SomeI [OF ev, of i "mark_revoked a"] by (auto simp: evolves_def)
  have fin: "c0 = card (newly_revoked (?m(i \<mapsto> mark_revoked a)) (g_cap_object_ptrs s'))
      \<and> finite (newly_revoked (?m(i \<mapsto> mark_revoked a)) (g_cap_object_ptrs s'))"
  proof (cases e)
    case True
    from cas(3,4) [OF ee [OF True]] r'(2) show ?thesis by simp
  next
    case False
    from en [OF False] r'(2) show ?thesis by simp
  qed
  from newly_revoked_mark [OF a(1,2) ev] fin r'(1)
  show "n = card (newly_revoked ?m (g_cap_object_ptrs s'))" by simp
  show "x = i \<or> descendant ?m i x" if "g_cap_object_ptrs s' x \<noteq> ?m x"
  proof (cases "e \<and> x \<noteq> i")
    case True
    then have "g_cap_object_ptrs t x \<noteq> g_cap_object_ptrs ?s x" using that r'(2) by simp
    from cas(1) [OF ee this] True descendant_shape [OF sh] show ?thesis by auto
  next
    case False
    with en that r'(2) show ?thesis by (cases "x = i") auto
  qed
  show "co_deleted c" if "?m i = Some ob" "has_flag (co_flags ob) CAP_FLAG_EAGER_REVOKE"
    "g_cap_object_ptrs s' i = Some ob'" "\<not> has_flag (co_flags ob') CAP_FLAG_CASCADE_TRUNCATED"
    "descendant ?m i x" "g_cap_object_ptrs s' x = Some c" "\<not> has_flag (co_flags c) CAP_FLAG_IMMORTAL"
  proof -
    from that(1,2) a(1) have e by (simp add: e_def)
    from cas(2) [OF ee [OF this], of ob' x c] that r'(2) descendant_shape [OF sh] show ?thesis by simp
  qed
qed

lemma cap_object_revoke_Inl: "cap_object_revoke i s = (Inl e, s') \<Longrightarrow> s' = s"
  by (auto simp: cap_object_revoke_def Let_def case_prod_beta split: if_splits option.splits)

lemma collect_orphans_loop_spec:
  assumes "i \<in> set is" "g_cap_object_ptrs (snd (collect_orphans_loop p is n s)) i = Some ob"
    "co_owner_pid ob = p" "\<not> has_flag (co_flags ob) CAP_FLAG_IMMORTAL"
  shows "co_deleted ob"
  using assms
proof (induction p "is" n s rule: collect_orphans_loop.induct)
  case (2 p j "is" n s)
  show ?case
  proof (cases "g_cap_object_ptrs s j")
    case None
    then have e: "collect_orphans_loop p (j # is) n s = collect_orphans_loop p is n s" by simp
    have "i \<noteq> j"
    proof
      assume "i = j"
      with "2.prems"(2) e reg_evolves_None [OF conjunct1 [OF collect_orphans_loop_evolves], of p "is" n s j] None
      show False by simp
    qed
    with 2 None e show ?thesis by simp
  next
    case (Some a)
    let ?s = "put_object j (mark_revoked a) s"
    let ?r = "if has_flag (co_flags a) CAP_FLAG_EAGER_REVOKE then revoke_cascade j ?s else (0, ?s)"
    obtain c s1 where r: "?r = (c, s1)" by fastforce
    show ?thesis
    proof (cases "\<not> co_deleted a \<and> co_owner_pid a = p \<and> \<not> has_flag (co_flags a) CAP_FLAG_IMMORTAL")
      case True
      then have e: "collect_orphans_loop p (j # is) n s = collect_orphans_loop p is (n + 1 + c) s1"
        using Some r by simp
      have "reg_evolves (g_cap_object_ptrs ?s) (g_cap_object_ptrs s1)"
        using r revoke_cascade_evolves [of ?s j] by (auto split: if_splits)
      then have ev: "reg_evolves (g_cap_object_ptrs ?s) (g_cap_object_ptrs (snd (collect_orphans_loop p is (n + 1 + c) s1)))"
        using collect_orphans_loop_evolves [of s1 p "is" "n + 1 + c"] reg_evolves_trans by blast
      show ?thesis
      proof (cases "i = j")
        case True
        with reg_evolves_SomeI [OF ev, of j "mark_revoked a"] "2.prems"(2) e show ?thesis
          by (auto simp: evolves_def)
      next
        case False
        with "2.prems" have "i \<in> set is" by simp
        with "2.IH"(2) [OF Some True refl refl r [symmetric]] "2.prems" e show ?thesis by simp
      qed
    next
      case False
      then have e: "collect_orphans_loop p (j # is) n s = collect_orphans_loop p is n s"
        using Some by auto
      show ?thesis
      proof (cases "i = j")
        case True
        from reg_evolves_SomeD [OF conjunct1 [OF collect_orphans_loop_evolves], of p "is" n s j ob] "2.prems"(2) e True Some
        have "evolves a ob" by auto
        with False "2.prems"(3,4) evolves_flag [of a ob CAP_FLAG_IMMORTAL] show ?thesis
          by (auto simp: evolves_def)
      next
        case F: False
        with "2.prems" have "i \<in> set is" by simp
        with "2.IH"(3) [OF Some False] "2.prems" e show ?thesis by simp
      qed
    qed
  qed
qed simp

section \<open>Sequences of operations\<close>

datatype cap_op =
    CapCreate bool u16 u64 "pid list option" u8 ptr pid nat
  | CapDerive bool nat pid u64 "pid list option" u8
  | CapDeriveQuiet bool nat pid u64 "pid list option" u8
  | CapDeriveInherited bool nat pid u64 "pid list option" u8
  | CapRevoke nat
  | CapCollectOrphans pid
  | CapDestroy nat

fun cap_exec ::
  "(cap_object \<Rightarrow> 'a cap_state_scheme \<Rightarrow> 'a cap_state_scheme) \<Rightarrow> cap_op \<Rightarrow> 'a cap_state_scheme
    \<Rightarrow> 'a cap_state_scheme" where
  "cap_exec deact (CapCreate ok k r aud fl kd own par) s = snd (cap_object_create ok k r aud fl kd own par s)"
| "cap_exec deact (CapDerive ok par c r aud fl) s = snd (cap_object_derive ok par c r aud fl s)"
| "cap_exec deact (CapDeriveQuiet ok par c r aud fl) s = snd (cap_object_derive_quiet ok par c r aud fl s)"
| "cap_exec deact (CapDeriveInherited ok par c r aud fl) s =
    snd (cap_object_derive_inherited ok par c r aud fl s)"
| "cap_exec deact (CapRevoke i) s = snd (cap_object_revoke i s)"
| "cap_exec deact (CapCollectOrphans p) s = snd (revoke_collect_orphans p s)"
| "cap_exec deact (CapDestroy i) s = cap_object_destroy_with deact i s"

text \<open>The operations that mint no authority of their own.\<close>

fun attenuating_op :: "cap_op \<Rightarrow> bool" where
  "attenuating_op (CapCreate ok k r aud fl kd own par) = False"
| "attenuating_op (CapDeriveInherited ok par c r aud fl) = False"
| "attenuating_op _ = True"

definition cap_run ::
  "(cap_object \<Rightarrow> 'a cap_state_scheme \<Rightarrow> 'a cap_state_scheme) \<Rightarrow> cap_op list \<Rightarrow> 'a cap_state_scheme
    \<Rightarrow> 'a cap_state_scheme" where
  "cap_run deact ops s = fold (cap_exec deact) ops s"

lemma create_keeps:
  assumes "g_cap_object_ptrs s i = Some a"
  shows "core_at (snd (cap_object_create ok k r aud fl kd own par s)) i = Some (core a)"
proof (cases "cap_object_create ok k r aud fl kd own par s")
  case (Pair res s')
  show ?thesis
  proof (cases res)
    case (Inl e)
    with Pair assms show ?thesis using cap_object_create_Inl by (fastforce simp: core_at_def)
  next
    case (Inr slot)
    note c = cap_object_create_InrD [OF Pair [unfolded Inr]]
    from c(3) assms have "i \<noteq> slot" by auto
    from c(5) [OF this] Pair assms show ?thesis by (simp add: core_at_def)
  qed
qed

lemma derive_inner_keeps:
  assumes "g_cap_object_ptrs s i = Some a"
  shows "core_at (snd (cap_object_derive_inner ok par c r aud fl q ex s)) i = Some (core a)"
proof -
  have [simp]: "core_at (log_event e t) = core_at t" for e and t :: "'a cap_state_scheme"
    by (simp add: core_at_def fun_eq_iff)
  from create_keeps [OF assms] core_at_SomeI [OF assms] show ?thesis
    unfolding cap_object_derive_inner_def
    by (simp add: Let_def case_prod_beta split: option.split sum.split)
qed

text \<open>
  What the registry relies on from the kind-specific deactivation hook: it does not write the
  registry.
\<close>

locale cap_hooks =
  fixes deact :: "cap_object \<Rightarrow> 'a cap_state_scheme \<Rightarrow> 'a cap_state_scheme"
  assumes deact_ptrs [simp]: "g_cap_object_ptrs (deact ob s) = g_cap_object_ptrs s"
    and deact_count [simp]: "g_cap_object_count (deact ob s) = g_cap_object_count s"
    and deact_cache [simp]: "cap_object_cache (deact ob s) = cap_object_cache s"
begin

lemma destroy_ptrs:
  "g_cap_object_ptrs (cap_object_destroy_with deact i s) =
    (if i = 0 \<or> i \<ge> CAP_OBJECT_CAPACITY then g_cap_object_ptrs s else (g_cap_object_ptrs s)(i := None))"
  by (auto simp: cap_object_destroy_with_def split: option.split)

lemma destroy_sel [simp]:
  "g_cap_object_count (cap_object_destroy_with deact i s) = g_cap_object_count s"
  "cap_object_cache (cap_object_destroy_with deact i s) = cap_object_cache s"
  by (auto simp: cap_object_destroy_with_def split: option.split)

lemma destroy_wf: "cap_wf s \<Longrightarrow> cap_wf (cap_object_destroy_with deact i s)"
  unfolding cap_wf_def by (auto simp: destroy_ptrs split: if_splits)

lemma exec_wf: "cap_wf s \<Longrightarrow> cap_wf (cap_exec deact opn s)"
  by (cases opn)
     (simp_all add: wf_intros cap_object_derive_inner_wf cap_object_derive_quiet_def
        cap_object_derive_inherited_def destroy_wf)

lemma run_wf: "cap_wf s \<Longrightarrow> cap_wf (cap_run deact ops s)"
  unfolding cap_run_def by (induction ops arbitrary: s) (auto intro: exec_wf)

lemma exec_authority:
  assumes "attenuating_op opn" "cap_wf s" "authority (cap_exec deact opn s) p k d r"
  shows "authority s p k d r"
proof (cases opn)
  case (CapDestroy i)
  with assms(3) show ?thesis
    unfolding authority_iff by (auto simp: destroy_ptrs split: if_splits)
next
  case (CapRevoke i)
  with assms(3) show ?thesis by (auto intro: authority_evolves [OF cap_object_revoke_evolves])
next
  case (CapCollectOrphans q)
  with assms(3) show ?thesis by (auto intro: authority_evolves [OF revoke_collect_orphans_evolves(1)])
qed (use assms authority_derive in \<open>auto simp: cap_object_derive_def cap_object_derive_quiet_def\<close>)

lemma run_authority:
  "\<lbrakk>\<forall>opn\<in>set ops. attenuating_op opn; cap_wf s; authority (cap_run deact ops s) p k d r\<rbrakk>
    \<Longrightarrow> authority s p k d r"
proof (induction ops arbitrary: s)
  case (Cons opn ops)
  then have "authority (cap_exec deact opn s) p k d r"
    using exec_wf by (auto simp: cap_run_def)
  with Cons.prems exec_authority [of opn s p k d r] show ?case by simp
qed (simp add: cap_run_def)

lemma exec_deleted:
  assumes "opn \<noteq> CapDestroy i" "g_cap_object_ptrs s i = Some a" "co_deleted a"
  shows "\<exists>b. g_cap_object_ptrs (cap_exec deact opn s) i = Some b \<and> co_deleted b"
proof -
  have keep: "\<exists>b. g_cap_object_ptrs t i = Some b \<and> co_deleted b" if "core_at t i = Some (core a)"
    for t :: "'a cap_state_scheme"
    using core_at_SomeD [OF that] assms(3) core_eq_sel(2) by blast
  have evol: "\<exists>b. g_cap_object_ptrs t i = Some b \<and> co_deleted b"
    if "reg_evolves (g_cap_object_ptrs s) (g_cap_object_ptrs t)" for t :: "'a cap_state_scheme"
    using reg_evolves_SomeI [OF that assms(2)] assms(3) by (auto simp: evolves_def)
  show ?thesis
  proof (cases opn)
    case (CapDestroy j)
    with assms show ?thesis by (auto simp: destroy_ptrs)
  qed (use keep [OF create_keeps [OF assms(2)]] keep [OF derive_inner_keeps [OF assms(2)]]
        evol [OF cap_object_revoke_evolves] evol [OF revoke_collect_orphans_evolves(1)]
      in \<open>simp_all add: cap_object_derive_def cap_object_derive_quiet_def cap_object_derive_inherited_def\<close>)
qed

lemma run_deleted:
  "\<lbrakk>CapDestroy i \<notin> set ops; g_cap_object_ptrs s i = Some a; co_deleted a\<rbrakk>
    \<Longrightarrow> \<exists>b. g_cap_object_ptrs (cap_run deact ops s) i = Some b \<and> co_deleted b"
proof (induction ops arbitrary: s a)
  case (Cons opn ops)
  then obtain b where "g_cap_object_ptrs (cap_exec deact opn s) i = Some b" "co_deleted b"
    using exec_deleted [of opn i s a] by auto
  with Cons show ?case by (auto simp: cap_run_def)
qed (simp add: cap_run_def)

lemma run_no_resolve:
  assumes "CapDestroy i \<notin> set ops" "g_cap_object_ptrs s i = Some a" "co_deleted a"
    "unat (cap_token_idx tok) = i"
  shows "cap_token_resolve (cap_run deact ops s) p tok r = None"
proof (rule ccontr)
  assume "cap_token_resolve (cap_run deact ops s) p tok r \<noteq> None"
  then obtain ob where "cap_token_resolve (cap_run deact ops s) p tok r = Some ob" by blast
  with run_deleted [OF assms(1-3)] assms(4) show False
    by (auto simp: cap_token_resolve_Some_iff Let_def)
qed

end

text \<open>
  Destroying an object frees its slot without remembering its generation, and a new object always
  starts at generation 1.
\<close>

lemma destroy_create_reuse:
  assumes "i \<noteq> 0" "i < CAP_OBJECT_CAPACITY" "cap_object_cache s"
    and "\<And>j. 0 < j \<Longrightarrow> j < i \<Longrightarrow> g_cap_object_ptrs s j \<noteq> None"
    and "g_cap_object_ptrs s i = None"
  shows "\<exists>s' ob. cap_object_create True k rt aud fl kd own CAP_OBJECT_IDX_NONE s = (Inr i, s')
    \<and> g_cap_object_ptrs s' i = Some ob \<and> core ob = core (cap_object_fresh k rt aud fl kd own CAP_OBJECT_IDX_NONE)"
proof -
  obtain j where j: "first_from (\<lambda>i. g_cap_object_ptrs s i = None) 1 CAP_OBJECT_CAPACITY = Some j"
    by (rule first_from_exists [of 1 i CAP_OBJECT_CAPACITY "\<lambda>i. g_cap_object_ptrs s i = None"])
       (use assms in simp_all)
  note jj = first_from_SomeD [OF j]
  have "\<not> j < i" using jj assms(4) [of j] by auto
  moreover have "\<not> i < j"
  proof
    assume "i < j"
    with jj have "g_cap_object_ptrs s i \<noteq> None" using assms(1) by (metis One_nat_def Suc_leI neq0_conv)
    with assms(5) show False by simp
  qed
  ultimately have "j = i" by simp
  with j have slot: "cap_object_find_free_slot_locked s = i"
    by (simp add: cap_object_find_free_slot_locked_def)
  have "i \<noteq> CAP_OBJECT_IDX_NONE" using assms(2) by (simp add: CAP_OBJECT_IDX_NONE_def)
  let ?ob = "cap_object_fresh k rt aud fl kd own CAP_OBJECT_IDX_NONE"
  let ?p = "put_object i ?ob s"
  let ?s' = "if i \<ge> g_cap_object_count ?p then ?p\<lparr>g_cap_object_count := i + 1\<rparr> else ?p"
  have "cap_object_create True k rt aud fl kd own CAP_OBJECT_IDX_NONE s = (Inr i, ?s')"
    unfolding cap_object_create_def Let_def slot using assms(3) \<open>i \<noteq> CAP_OBJECT_IDX_NONE\<close>
    by (simp only: if_False if_True not_True_eq_False simp_thms)
  moreover have "g_cap_object_ptrs ?s' i = Some ?ob" by simp
  ultimately show ?thesis by blast
qed

end
