(* ===== verification/Handle_Table.thy ===== *)
theory Handle_Table
  imports Cap_Object "HOL-Library.Sublist"
begin

text \<open>
  The per-process handle table (kernel/cap/handle_table.h, handle_table.c): an array of entries
  with the free slots threaded through \<^verbatim>\<open>next_free\<close>. The array is a list; NULL is the empty list.
  An operation that would index outside the array returns \<open>None\<close>. The lemmas show that the free
  list always holds exactly the free slots, that every operation keeps this, that a well-formed
  table is never indexed out of range, and that insert, lookup and remove implement a partial map
  from slots to objects.
\<close>

section \<open>The table\<close>

abbreviation CAP_HANDLE_INITIAL_CAPACITY :: nat where "CAP_HANDLE_INITIAL_CAPACITY \<equiv> 16"
abbreviation CAP_HANDLE_MAX :: nat where "CAP_HANDLE_MAX \<equiv> 1024"
definition CAP_HANDLE_SLOT_NONE :: nat where "CAP_HANDLE_SLOT_NONE = 0xFFFFFFFF"

record cap_handle_entry =
  he_object_idx :: nat
  he_local_generation :: u32
  he_token_flags :: u8
  he_next_free :: nat

record cap_handle_table =
  ht_entries :: "cap_handle_entry list"
  ht_capacity :: nat
  ht_count :: nat
  ht_next_free :: nat

definition free_entry :: "nat \<Rightarrow> cap_handle_entry" where
  "free_entry nxt = \<lparr>he_object_idx = CAP_OBJECT_IDX_NONE, he_local_generation = 1,
    he_token_flags = 0, he_next_free = nxt\<rparr>"

text \<open>The loop \<^verbatim>\<open>for (i = end; i-- > start; )\<close>; the second argument is the running \<^verbatim>\<open>i\<close>.\<close>

fun rebuild_free_list_in_range ::
  "nat \<Rightarrow> nat \<Rightarrow> cap_handle_entry list \<Rightarrow> nat \<Rightarrow> cap_handle_entry list \<times> nat" where
  "rebuild_free_list_in_range start 0 entries head = (entries, head)"
| "rebuild_free_list_in_range start (Suc i) entries head =
    (if i < start then (entries, head)
     else rebuild_free_list_in_range start i (entries[i := free_entry head]) i)"

text \<open>
  \<open>fresh\<close> is the memory \<^verbatim>\<open>kmalloc\<close> returned, viewed as entries; \<open>None\<close> is a failed allocation.
\<close>

definition cap_handle_table_init ::
  "cap_handle_entry list option \<Rightarrow> int \<times> cap_handle_table" where
  "cap_handle_table_init fresh =
    (case fresh of
      None \<Rightarrow> (CAP_V2_ENOMEM, \<lparr>ht_entries = [], ht_capacity = 0, ht_count = 0,
                ht_next_free = CAP_HANDLE_SLOT_NONE\<rparr>)
    | Some mem \<Rightarrow>
       let (es, head) = rebuild_free_list_in_range 0 CAP_HANDLE_INITIAL_CAPACITY mem CAP_HANDLE_SLOT_NONE
       in (CAP_V2_OK, \<lparr>ht_entries = es, ht_capacity = CAP_HANDLE_INITIAL_CAPACITY, ht_count = 0,
            ht_next_free = head\<rparr>))"

definition cap_handle_table_free :: "cap_handle_table \<Rightarrow> cap_handle_table" where
  "cap_handle_table_free t =
    t\<lparr>ht_entries := [], ht_capacity := 0, ht_count := 0, ht_next_free := CAP_HANDLE_SLOT_NONE\<rparr>"

text \<open>The copy loop overwrites the first \<open>ht_capacity\<close> entries of the new block.\<close>

definition cap_handle_grow ::
  "(nat \<Rightarrow> cap_handle_entry list option) \<Rightarrow> cap_handle_table \<Rightarrow> int \<times> cap_handle_table" where
  "cap_handle_grow kmalloc t =
    (if ht_capacity t \<ge> CAP_HANDLE_MAX then (CAP_V2_ENOMEM, t)
     else
      let new_cap = (if ht_capacity t * 2 > CAP_HANDLE_MAX then CAP_HANDLE_MAX else ht_capacity t * 2)
      in case kmalloc new_cap of
           None \<Rightarrow> (CAP_V2_ENOMEM, t)
         | Some mem \<Rightarrow>
            let copied = take (ht_capacity t) (ht_entries t) @ drop (ht_capacity t) mem;
                (es, head) = rebuild_free_list_in_range (ht_capacity t) new_cap copied (ht_next_free t)
            in (CAP_V2_OK, t\<lparr>ht_entries := es, ht_capacity := new_cap, ht_next_free := head\<rparr>))"

text \<open>
  The result of an insert is the C return value (the slot's generation read as \<^verbatim>\<open>int\<close>), the slot
  stored through \<^verbatim>\<open>slot_out\<close> if it was reached, and the table.
\<close>

definition cap_handle_insert ::
  "(nat \<Rightarrow> cap_handle_entry list option) \<Rightarrow> cap_handle_table \<Rightarrow> nat \<Rightarrow> u8
    \<Rightarrow> (int \<times> nat option \<times> cap_handle_table) option" where
  "cap_handle_insert kmalloc t object_idx token_flags =
    (if object_idx = CAP_OBJECT_IDX_NONE then Some (CAP_V2_EINVAL, None, t)
     else
      let (r, t) = (if ht_next_free t = CAP_HANDLE_SLOT_NONE then cap_handle_grow kmalloc t
                    else (CAP_V2_OK, t))
      in if r \<noteq> CAP_V2_OK then Some (r, None, t)
         else
          let slot = ht_next_free t in
          if slot \<ge> length (ht_entries t) then None
          else
           let e = ht_entries t ! slot;
               t = t\<lparr>ht_next_free := he_next_free e,
                     ht_entries := (ht_entries t)[slot :=
                        e\<lparr>he_object_idx := object_idx, he_token_flags := token_flags,
                          he_next_free := CAP_HANDLE_SLOT_NONE\<rparr>],
                     ht_count := ht_count t + 1\<rparr>
           in Some (sint (he_local_generation e), Some slot, t))"

definition cap_handle_lookup :: "cap_handle_table \<Rightarrow> nat \<Rightarrow> cap_handle_entry option" where
  "cap_handle_lookup t slot =
    (if ht_entries t = [] then None
     else if slot \<ge> ht_capacity t then None
     else if he_object_idx (ht_entries t ! slot) = CAP_OBJECT_IDX_NONE then None
     else Some (ht_entries t ! slot))"

definition cap_handle_remove :: "cap_handle_table \<Rightarrow> nat \<Rightarrow> int \<times> cap_handle_table" where
  "cap_handle_remove t slot =
    (if slot \<ge> ht_capacity t then (CAP_V2_EINVAL, t)
     else
      let e = ht_entries t ! slot in
      if he_object_idx e = CAP_OBJECT_IDX_NONE then (CAP_V2_EINVAL, t)
      else (CAP_V2_OK,
        t\<lparr>ht_entries := (ht_entries t)[slot :=
             e\<lparr>he_object_idx := CAP_OBJECT_IDX_NONE,
               he_local_generation := he_local_generation e + 1,
               he_token_flags := 0, he_next_free := ht_next_free t\<rparr>],
          ht_next_free := slot, ht_count := ht_count t - 1\<rparr>))"

section \<open>The free list\<close>

fun free_chain :: "cap_handle_entry list \<Rightarrow> nat \<Rightarrow> nat list \<Rightarrow> bool" where
  "free_chain es h [] \<longleftrightarrow> h = CAP_HANDLE_SLOT_NONE"
| "free_chain es h (i # is) \<longleftrightarrow> h = i \<and> i < length es \<and> free_chain es (he_next_free (es ! i)) is"

definition free_slots :: "cap_handle_entry list \<Rightarrow> nat set" where
  "free_slots es = {i. i < length es \<and> he_object_idx (es ! i) = CAP_OBJECT_IDX_NONE}"

definition handle_wf :: "cap_handle_table \<Rightarrow> bool" where
  "handle_wf t \<longleftrightarrow>
    length (ht_entries t) = ht_capacity t
    \<and> (\<exists>k. ht_capacity t = 16 * 2 ^ k) \<and> ht_capacity t \<le> CAP_HANDLE_MAX
    \<and> ht_count t + card (free_slots (ht_entries t)) = ht_capacity t
    \<and> (\<exists>fl. free_chain (ht_entries t) (ht_next_free t) fl \<and> distinct fl
           \<and> set fl = free_slots (ht_entries t))"

text \<open>The allocator returns blocks of the requested size.\<close>

definition kmalloc_sized :: "(nat \<Rightarrow> cap_handle_entry list option) \<Rightarrow> bool" where
  "kmalloc_sized kmalloc \<longleftrightarrow> (\<forall>n mem. kmalloc n = Some mem \<longrightarrow> length mem = n)"

text \<open>The map a table stands for.\<close>

definition handle_map :: "cap_handle_table \<Rightarrow> nat \<Rightarrow> (nat \<times> u8) option" where
  "handle_map t slot = map_option (\<lambda>e. (he_object_idx e, he_token_flags e)) (cap_handle_lookup t slot)"

lemma free_chain_cong:
  "(\<And>i. i \<in> set fl \<Longrightarrow> i < length es' \<and> he_next_free (es' ! i) = he_next_free (es ! i))
    \<Longrightarrow> free_chain es h fl \<Longrightarrow> free_chain es' h fl"
  by (induction fl arbitrary: h) auto

lemma free_chain_update:
  "free_chain es h fl \<Longrightarrow> i \<notin> set fl \<Longrightarrow> free_chain (es[i := e]) h fl"
  by (induction fl arbitrary: h) auto

lemma free_chain_append:
  "free_chain es h fl \<Longrightarrow> free_chain (es @ es') h fl"
  by (induction fl arbitrary: h) (auto simp: nth_append)

lemma free_slots_finite [simp]: "finite (free_slots es)"
  by (simp add: free_slots_def)

lemma free_slots_less: "i \<in> free_slots es \<Longrightarrow> i < length es"
  by (simp add: free_slots_def)

lemma free_slots_update:
  "i < length es \<Longrightarrow> free_slots (es[i := e]) =
    (if he_object_idx e = CAP_OBJECT_IDX_NONE then insert i (free_slots es) else free_slots es - {i})"
  by (auto simp: free_slots_def nth_list_update split: if_splits)

lemma rebuild_spec:
  assumes "rebuild_free_list_in_range start e es h = (es', h')" "e \<le> length es" "start \<le> e"
    and "free_chain es h fl" "set fl \<inter> {start..<e} = {}"
  shows "length es' = length es" "free_chain es' h' ([start..<e] @ fl)"
    "\<And>i. i \<notin> {start..<e} \<Longrightarrow> es' ! i = es ! i"
    "\<And>i. start \<le> i \<Longrightarrow> i < e \<Longrightarrow> he_object_idx (es' ! i) = CAP_OBJECT_IDX_NONE \<and> he_local_generation (es' ! i) = 1"
proof -
  have "length es' = length es \<and> free_chain es' h' ([start..<e] @ fl)
    \<and> (\<forall>i. i \<notin> {start..<e} \<longrightarrow> es' ! i = es ! i)
    \<and> (\<forall>i. start \<le> i \<and> i < e \<longrightarrow> he_object_idx (es' ! i) = CAP_OBJECT_IDX_NONE \<and> he_local_generation (es' ! i) = 1)"
    using assms
  proof (induction start e es h arbitrary: fl rule: rebuild_free_list_in_range.induct)
    case (2 start i es h)
    show ?case
    proof (cases "i < start")
      case True
      with "2.prems" show ?thesis by auto
    next
      case False
      let ?es = "es[i := free_entry h]"
      from "2.prems" have "i \<notin> set fl" using False by auto
      then have ch: "free_chain ?es i (i # fl)"
        using "2.prems"(2,4) by (auto simp: free_entry_def intro: free_chain_update)
      have "set (i # fl) \<inter> {start..<i} = {}" using "2.prems"(5) by auto
      with "2.IH" [OF False _ _ _ ch] "2.prems" False
      have ih: "length es' = length ?es" "free_chain es' h' ([start..<i] @ i # fl)"
        "\<forall>j. j \<notin> {start..<i} \<longrightarrow> es' ! j = ?es ! j"
        "\<forall>j. start \<le> j \<and> j < i \<longrightarrow> he_object_idx (es' ! j) = CAP_OBJECT_IDX_NONE \<and> he_local_generation (es' ! j) = 1"
        by auto
      have "es' ! i = free_entry h" using ih(3) "2.prems"(2) by auto
      with ih False "2.prems"(2) show ?thesis
        by (auto simp: free_entry_def less_Suc_eq nth_list_update)
    qed
  qed auto
  then show "length es' = length es" "free_chain es' h' ([start..<e] @ fl)"
    "\<And>i. i \<notin> {start..<e} \<Longrightarrow> es' ! i = es ! i"
    "\<And>i. start \<le> i \<Longrightarrow> i < e \<Longrightarrow> he_object_idx (es' ! i) = CAP_OBJECT_IDX_NONE \<and> he_local_generation (es' ! i) = 1"
    by blast+
qed

lemma handle_wf_init:
  assumes "length mem = CAP_HANDLE_INITIAL_CAPACITY"
  shows "handle_wf (snd (cap_handle_table_init (Some mem)))"
proof -
  obtain es h where r: "rebuild_free_list_in_range 0 CAP_HANDLE_INITIAL_CAPACITY mem CAP_HANDLE_SLOT_NONE = (es, h)"
    by fastforce
  note sp = rebuild_spec [OF r, of "[]"]
  have len: "length es = 16" and ch: "free_chain es h [0..<16]"
    using sp(1,2) assms by simp_all
  have "free_slots es = {0..<16}" using sp(4) assms len by (auto simp: free_slots_def)
  moreover have "(16 :: nat) = 16 * 2 ^ 0" by simp
  ultimately have "handle_wf \<lparr>ht_entries = es, ht_capacity = 16, ht_count = 0, ht_next_free = h\<rparr>"
    unfolding handle_wf_def using len ch
    by (intro conjI exI [of _ 0] exI [of _ "[0..<16]"]) simp_all
  with r show ?thesis by (simp add: cap_handle_table_init_def)
qed

lemma pow2_cap_half: "c = 16 * 2 ^ k \<Longrightarrow> c < CAP_HANDLE_MAX \<Longrightarrow> c * 2 \<le> CAP_HANDLE_MAX"
proof -
  assume c: "c = 16 * 2 ^ k" "c < CAP_HANDLE_MAX"
  then have "(2 :: nat) ^ k < 2 ^ 6" by simp
  then have "k < 6" by (rule power_less_imp_less_exp [rotated]) simp
  then have "(2 :: nat) ^ k \<le> 2 ^ 5" by (intro power_increasing) simp_all
  with c show ?thesis by simp
qed

lemma handle_wf_next_free:
  "handle_wf t \<Longrightarrow> ht_next_free t \<noteq> CAP_HANDLE_SLOT_NONE \<Longrightarrow> ht_next_free t \<in> free_slots (ht_entries t)"
  unfolding handle_wf_def by (metis free_chain.simps(1,2) list.set_intros(1) neq_Nil_conv)

lemma cap_handle_grow_spec:
  assumes wf: "handle_wf t" and al: "kmalloc_sized kmalloc"
    and g: "cap_handle_grow kmalloc t = (CAP_V2_OK, t')" and full: "ht_next_free t = CAP_HANDLE_SLOT_NONE"
  shows "handle_wf t'" "ht_next_free t' \<noteq> CAP_HANDLE_SLOT_NONE" "ht_capacity t' = 2 * ht_capacity t"
    "\<And>i. i < ht_capacity t \<Longrightarrow> ht_entries t' ! i = ht_entries t ! i"
    "\<And>i. ht_capacity t \<le> i \<Longrightarrow> i < ht_capacity t' \<Longrightarrow> he_object_idx (ht_entries t' ! i) = CAP_OBJECT_IDX_NONE"
    "ht_count t' = ht_count t"
proof -
  let ?c = "ht_capacity t"
  from wf obtain k where c: "?c = 16 * 2 ^ k" and len: "length (ht_entries t) = ?c" and le: "?c \<le> CAP_HANDLE_MAX"
    and cnt: "ht_count t + card (free_slots (ht_entries t)) = ?c"
    unfolding handle_wf_def by blast
  have fs: "free_slots (ht_entries t) = {}"
  proof -
    from wf full obtain fl where fl: "free_chain (ht_entries t) CAP_HANDLE_SLOT_NONE fl"
      "set fl = free_slots (ht_entries t)" unfolding handle_wf_def by auto
    have "CAP_HANDLE_MAX < CAP_HANDLE_SLOT_NONE" by (simp add: CAP_HANDLE_SLOT_NONE_def)
    with fl len le show ?thesis by (cases fl) auto
  qed
  from g have lt: "?c < CAP_HANDLE_MAX" by (auto simp: cap_handle_grow_def cap_err_defs split: if_splits)
  with pow2_cap_half [OF c] have ncap: "?c * 2 \<le> CAP_HANDLE_MAX" by simp
  from g lt ncap obtain mem where m: "kmalloc (?c * 2) = Some mem"
    by (auto simp: cap_handle_grow_def cap_err_defs Let_def split: option.splits)
  with al have lm: "length mem = ?c * 2" unfolding kmalloc_sized_def by blast
  let ?cp = "take ?c (ht_entries t) @ drop ?c mem"
  obtain es h where r: "rebuild_free_list_in_range ?c (?c * 2) ?cp CAP_HANDLE_SLOT_NONE = (es, h)" by fastforce
  have lcp: "length ?cp = ?c * 2" using len lm by simp
  note sp = rebuild_spec [OF r, of "[]", simplified lcp, simplified]
  have t': "t' = t\<lparr>ht_entries := es, ht_capacity := ?c * 2, ht_next_free := h\<rparr>"
    using g lt ncap m r full by (simp add: cap_handle_grow_def)
  have old: "es ! i = ht_entries t ! i" if "i < ?c" for i
    using sp(3) [of i] that len by (simp add: nth_append)
  have fs': "free_slots es = {?c..<?c * 2}"
  proof -
    have "\<not> i < ?c" if "i \<in> free_slots es" for i
    proof
      assume "i < ?c"
      with that len have "i \<in> free_slots (ht_entries t)" by (simp add: free_slots_def old)
      with fs show False by simp
    qed
    with sp(1,4) show ?thesis by (force simp: free_slots_def)
  qed
  show "ht_capacity t' = 2 * ?c" "ht_count t' = ht_count t" "\<And>i. i < ?c \<Longrightarrow> ht_entries t' ! i = ht_entries t ! i"
    using t' old by simp_all
  show "he_object_idx (ht_entries t' ! i) = CAP_OBJECT_IDX_NONE" if "?c \<le> i" "i < ht_capacity t'" for i
    using sp(4) [of i] that t' by simp
  have ch: "free_chain es h [?c..<?c * 2]" using sp(2) by simp
  have cpos: "0 < ?c" using c by simp
  show "ht_next_free t' \<noteq> CAP_HANDLE_SLOT_NONE"
  proof -
    have "[?c..<?c * 2] = ?c # [Suc ?c..<?c * 2]" using cpos by (simp add: upt_conv_Cons)
    with ch have "h = ?c" by simp
    with t' lt show ?thesis by (simp add: CAP_HANDLE_SLOT_NONE_def)
  qed
  show "handle_wf t'"
    unfolding handle_wf_def t'
  proof (intro conjI)
    show "\<exists>k. ht_capacity (t\<lparr>ht_entries := es, ht_capacity := ?c * 2, ht_next_free := h\<rparr>) = 16 * 2 ^ k"
      using c by (intro exI [of _ "Suc k"]) simp
    show "\<exists>fl. free_chain (ht_entries (t\<lparr>ht_entries := es, ht_capacity := ?c * 2, ht_next_free := h\<rparr>))
        (ht_next_free (t\<lparr>ht_entries := es, ht_capacity := ?c * 2, ht_next_free := h\<rparr>)) fl \<and> distinct fl
        \<and> set fl = free_slots (ht_entries (t\<lparr>ht_entries := es, ht_capacity := ?c * 2, ht_next_free := h\<rparr>))"
      using ch fs' by (intro exI [of _ "[?c..<?c * 2]"]) simp
  qed (use ncap sp(1) lcp fs fs' cnt in simp_all)
qed


lemma handle_wf_step:
  assumes "handle_wf t" "length (ht_entries t') = ht_capacity t'" "ht_capacity t' = ht_capacity t"
    "ht_count t' + card (free_slots (ht_entries t')) = ht_capacity t'"
    "free_chain (ht_entries t') (ht_next_free t') fl \<and> distinct fl \<and> set fl = free_slots (ht_entries t')"
  shows "handle_wf t'"
  using assms unfolding handle_wf_def by auto

lemma handle_map_alt:
  "length (ht_entries t) = ht_capacity t \<Longrightarrow> handle_map t slot =
    (if slot < ht_capacity t \<and> he_object_idx (ht_entries t ! slot) \<noteq> CAP_OBJECT_IDX_NONE
     then Some (he_object_idx (ht_entries t ! slot), he_token_flags (ht_entries t ! slot)) else None)"
  by (auto simp: handle_map_def cap_handle_lookup_def)

lemma cap_handle_grow_map:
  assumes "handle_wf t" "kmalloc_sized kmalloc" "cap_handle_grow kmalloc t = (CAP_V2_OK, t')"
    "ht_next_free t = CAP_HANDLE_SLOT_NONE"
  shows "handle_map t' = handle_map t"
proof
  fix slot
  note g = cap_handle_grow_spec [OF assms]
  have "length (ht_entries t) = ht_capacity t" "length (ht_entries t') = ht_capacity t'"
    using assms(1) g(1) by (simp_all add: handle_wf_def)
  then show "handle_map t' slot = handle_map t slot"
    using g(3,4,5) by (cases "slot < ht_capacity t") (auto simp: handle_map_alt)
qed

lemma cap_handle_grow_fail: "cap_handle_grow kmalloc t = (r, t') \<Longrightarrow> r \<noteq> CAP_V2_OK \<Longrightarrow> t' = t \<and> r = CAP_V2_ENOMEM"
  by (auto simp: cap_handle_grow_def Let_def split: if_splits option.splits prod.splits)

text \<open>Popping the free list, once it is not empty.\<close>

lemma pop_free_wf:
  assumes wf: "handle_wf t" and ne: "ht_next_free t \<noteq> CAP_HANDLE_SLOT_NONE" and ob: "ob \<noteq> CAP_OBJECT_IDX_NONE"
    and slot: "slot = ht_next_free t" and e: "e = ht_entries t ! slot"
    and t': "t' = t\<lparr>ht_next_free := he_next_free e, ht_entries := (ht_entries t)[slot :=
       e\<lparr>he_object_idx := ob, he_token_flags := fl, he_next_free := CAP_HANDLE_SLOT_NONE\<rparr>],
       ht_count := ht_count t + 1\<rparr>"
  shows "handle_wf t'" "slot < length (ht_entries t)" "handle_map t slot = None"
    "handle_map t' = (handle_map t)(slot \<mapsto> (ob, fl))"
proof -
  from handle_wf_next_free [OF wf ne] slot have fs: "slot \<in> free_slots (ht_entries t)" by simp
  then show lt: "slot < length (ht_entries t)" by (rule free_slots_less)
  have len: "length (ht_entries t) = ht_capacity t" using wf by (simp add: handle_wf_def)
  from wf slot ne obtain fr where fr: "free_chain (ht_entries t) slot (slot # fr)" "distinct (slot # fr)"
    "set (slot # fr) = free_slots (ht_entries t)"
    unfolding handle_wf_def by (metis free_chain.elims(2))
  have fs': "free_slots (ht_entries t') = free_slots (ht_entries t) - {slot}"
    using t' lt ob by (simp add: free_slots_update)
  have "card (free_slots (ht_entries t)) = Suc (card (free_slots (ht_entries t')))"
    using fs fs' by (metis card_Suc_Diff1 free_slots_finite)
  moreover have "free_chain (ht_entries t') (ht_next_free t') fr \<and> distinct fr \<and> set fr = free_slots (ht_entries t')"
    using fr fs' t' e by (auto intro: free_chain_update)
  ultimately show "handle_wf t'"
    using wf t' unfolding handle_wf_def by auto
  show "handle_map t slot = None" using fs len by (simp add: handle_map_alt free_slots_def)
  show "handle_map t' = (handle_map t)(slot \<mapsto> (ob, fl))"
    using len t' lt ob by (auto simp: handle_map_alt fun_eq_iff nth_list_update)
qed

lemma cap_handle_insert_cases:
  assumes wf: "handle_wf t" and al: "kmalloc_sized kmalloc"
  obtains (fail) r where "cap_handle_insert kmalloc t ob fl = Some (r, None, t)"
      "r = CAP_V2_EINVAL \<or> r = CAP_V2_ENOMEM"
  | (ok) g slot t' where "cap_handle_insert kmalloc t ob fl = Some (sint g, Some slot, t')"
      "handle_wf t'" "handle_map t slot = None" "handle_map t' = (handle_map t)(slot \<mapsto> (ob, fl))"
      "g = he_local_generation (ht_entries t' ! slot)" "slot < CAP_HANDLE_MAX"
proof (cases "ob = CAP_OBJECT_IDX_NONE")
  case True
  then show thesis by (intro fail [of CAP_V2_EINVAL]) (simp_all add: cap_handle_insert_def)
next
  case ob: False
  obtain r u where ru: "(if ht_next_free t = CAP_HANDLE_SLOT_NONE then cap_handle_grow kmalloc t else (CAP_V2_OK, t)) = (r, u)"
    by fastforce
  show thesis
  proof (cases "r = CAP_V2_OK")
    case False
    then have "u = t" "r = CAP_V2_ENOMEM" using ru cap_handle_grow_fail by (auto split: if_splits)
    then show thesis using False ru ob by (intro fail [of r]) (auto simp: cap_handle_insert_def)
  next
    case True
    have u: "handle_wf u" "ht_next_free u \<noteq> CAP_HANDLE_SLOT_NONE" "handle_map u = handle_map t"
      using ru True wf cap_handle_grow_spec(1,2) [OF wf al] cap_handle_grow_map [OF wf al]
      by (auto split: if_splits)
    let ?slot = "ht_next_free u" and ?e = "ht_entries u ! ht_next_free u"
    let ?t' = "u\<lparr>ht_next_free := he_next_free ?e, ht_entries := (ht_entries u)[?slot :=
       ?e\<lparr>he_object_idx := ob, he_token_flags := fl, he_next_free := CAP_HANDLE_SLOT_NONE\<rparr>],
       ht_count := ht_count u + 1\<rparr>"
    note p = pop_free_wf [where fl = fl, OF u(1,2) ob refl refl refl]
    have "cap_handle_insert kmalloc t ob fl = Some (sint (he_local_generation ?e), Some ?slot, ?t')"
      using ru True ob p(2) by (simp add: cap_handle_insert_def Let_def)
    moreover have "?slot < CAP_HANDLE_MAX" using p(2) u(1) by (auto simp: handle_wf_def)
    ultimately show thesis
      using p u(3) by (intro ok [of "he_local_generation ?e" ?slot ?t']) simp_all
  qed
qed

lemma cap_handle_remove_spec:
  assumes wf: "handle_wf t" and r: "cap_handle_remove t slot = (CAP_V2_OK, t')"
  shows "handle_wf t'" "handle_map t slot \<noteq> None" "handle_map t' = (handle_map t)(slot := None)"
    "he_local_generation (ht_entries t' ! slot) = he_local_generation (ht_entries t ! slot) + 1"
proof -
  let ?e = "ht_entries t ! slot"
  let ?e' = "?e\<lparr>he_object_idx := CAP_OBJECT_IDX_NONE, he_local_generation := he_local_generation ?e + 1,
    he_token_flags := 0, he_next_free := ht_next_free t\<rparr>"
  from wf obtain fr where len: "length (ht_entries t) = ht_capacity t" and fr: "free_chain (ht_entries t) (ht_next_free t) fr"
    "distinct fr" "set fr = free_slots (ht_entries t)"
    and cnt: "ht_count t + card (free_slots (ht_entries t)) = ht_capacity t"
    unfolding handle_wf_def by blast
  have live: "slot < ht_capacity t" "he_object_idx ?e \<noteq> CAP_OBJECT_IDX_NONE"
    and t': "t' = t\<lparr>ht_entries := (ht_entries t)[slot := ?e'], ht_next_free := slot, ht_count := ht_count t - 1\<rparr>"
    using r by (auto simp: cap_handle_remove_def Let_def cap_err_defs split: if_splits)
  have nf: "slot \<notin> free_slots (ht_entries t)" using live by (simp add: free_slots_def)
  have fs': "free_slots (ht_entries t') = insert slot (free_slots (ht_entries t))"
    using t' live len by (simp add: free_slots_update)
  have "card (insert slot (free_slots (ht_entries t))) \<le> card {..<ht_capacity t}"
    using live len by (intro card_mono) (auto simp: free_slots_def)
  then have cnt': "ht_count t' + card (free_slots (ht_entries t')) = ht_capacity t'"
    using fs' nf cnt t' by simp
  have ch': "free_chain (ht_entries t') (ht_next_free t') (slot # fr) \<and> distinct (slot # fr)
    \<and> set (slot # fr) = free_slots (ht_entries t')"
    using fr fs' nf t' live len by (auto intro: free_chain_update)
  show "handle_wf t'"
    by (rule handle_wf_step [OF wf _ _ cnt' ch']) (simp_all add: t' len)
  show "handle_map t slot \<noteq> None" using live len by (simp add: handle_map_alt)
  show "handle_map t' = (handle_map t)(slot := None)"
    using len t' live by (auto simp: handle_map_alt fun_eq_iff nth_list_update)
  show "he_local_generation (ht_entries t' ! slot) = he_local_generation ?e + 1"
    using t' live len by simp
qed

section \<open>The handle store interface\<close>

text \<open>
  What the users of handle tables (channel marshalling, spawn inheritance) rely on: a finite
  partial map from slots to objects with a slot chosen by the table on insert.
\<close>

definition holders :: "(nat \<Rightarrow> (nat \<times> u8) option) \<Rightarrow> nat \<Rightarrow> nat set" where
  "holders look ob = {slot. \<exists>fl. look slot = Some (ob, fl)}"

lemma holders_insert:
  "look slot = None \<Longrightarrow> holders (look(slot \<mapsto> (ob, fl))) ob' =
    (if ob' = ob then insert slot (holders look ob) else holders look ob')"
  by (auto simp: holders_def)

lemma holders_remove: "holders (look(slot := None)) ob = holders look ob - {slot}"
  by (auto simp: holders_def)

lemma holders_finite: "finite (dom look) \<Longrightarrow> finite (holders look ob)"
  by (rule finite_subset [of _ "dom look"]) (auto simp: holders_def)

locale handle_store =
  fixes alloc_ok :: "'al \<Rightarrow> bool" and inv :: "'t \<Rightarrow> bool"
    and look :: "'t \<Rightarrow> nat \<Rightarrow> (nat \<times> u8) option"
    and ins :: "'al \<Rightarrow> 't \<Rightarrow> nat \<Rightarrow> u8 \<Rightarrow> (nat \<times> 't) option" and rem :: "'t \<Rightarrow> nat \<Rightarrow> 't option"
  assumes ins_law: "\<lbrakk>alloc_ok al; inv t; ins al t ob fl = Some (slot, t')\<rbrakk>
      \<Longrightarrow> inv t' \<and> look t slot = None \<and> look t' = (look t)(slot \<mapsto> (ob, fl))"
    and rem_law: "\<lbrakk>inv t; rem t slot = Some t'\<rbrakk>
      \<Longrightarrow> inv t' \<and> look t slot \<noteq> None \<and> look t' = (look t)(slot := None)"
    and look_finite: "inv t \<Longrightarrow> finite (dom (look t))"
begin

lemma ins_count:
  assumes "alloc_ok al" "inv t" "ins al t ob fl = Some (slot, t')"
  shows "card (holders (look t') ob') = card (holders (look t) ob') + (if ob' = ob then 1 else 0)"
proof -
  note l = ins_law [OF assms]
  then have "slot \<notin> holders (look t) ob" by (simp add: holders_def)
  with l holders_finite [OF look_finite [OF assms(2)]] show ?thesis by (auto simp: holders_insert)
qed

lemma rem_count:
  assumes "inv t" "look t slot = Some (ob, fl)" "rem t slot = Some t'"
  shows "card (holders (look t) ob') = card (holders (look t') ob') + (if ob' = ob then 1 else 0)"
proof -
  have mem: "slot \<in> holders (look t) ob' \<longleftrightarrow> ob' = ob" using assms(2) by (auto simp: holders_def)
  note f = holders_finite [OF look_finite [OF assms(1)], of ob']
  have h: "holders (look t') ob' = holders (look t) ob' - {slot}"
    using rem_law [OF assms(1,3)] by (simp add: holders_remove)
  show ?thesis
  proof (cases "ob' = ob")
    case True
    with mem card_Suc_Diff1 [OF f, of slot] h show ?thesis by simp
  next
    case False
    with mem h show ?thesis by simp
  qed
qed

text \<open>Moving one handle between two tables neither duplicates nor loses a reference.\<close>

lemma move_conserves:
  assumes "alloc_ok al" "inv t1" "inv t2" "look t1 slot = Some (ob, fl)" "rem t1 slot = Some t1'"
    "ins al t2 ob fl' = Some (slot', t2')"
  shows "card (holders (look t1') x) + card (holders (look t2') x) =
    card (holders (look t1) x) + card (holders (look t2) x)"
  using ins_count [OF assms(1,3,6), of x] rem_count [OF assms(2,4,5), of x] by simp

end

definition handle_ins ::
  "(nat \<Rightarrow> cap_handle_entry list option) \<Rightarrow> cap_handle_table \<Rightarrow> nat \<Rightarrow> u8 \<Rightarrow> (nat \<times> cap_handle_table) option" where
  "handle_ins kmalloc t ob fl =
    (case cap_handle_insert kmalloc t ob fl of Some (r, Some slot, t') \<Rightarrow> Some (slot, t') | _ \<Rightarrow> None)"

definition handle_rem :: "cap_handle_table \<Rightarrow> nat \<Rightarrow> cap_handle_table option" where
  "handle_rem t slot = (let (r, t') = cap_handle_remove t slot in if r = CAP_V2_OK then Some t' else None)"

lemma handle_ins_SomeD:
  assumes "kmalloc_sized al" "handle_wf t" "handle_ins al t ob fl = Some (slot, t')"
  shows "handle_wf t' \<and> handle_map t slot = None \<and> handle_map t' = (handle_map t)(slot \<mapsto> (ob, fl))"
  by (rule cap_handle_insert_cases [OF assms(2,1), of ob fl])
     (use assms(3) in \<open>auto simp: handle_ins_def\<close>)

interpretation ht: handle_store kmalloc_sized handle_wf handle_map handle_ins handle_rem
proof
  show "handle_wf t' \<and> handle_map t slot = None \<and> handle_map t' = (handle_map t)(slot \<mapsto> (ob, fl))"
    if "kmalloc_sized al" "handle_wf t" "handle_ins al t ob fl = Some (slot, t')" for al t ob fl slot t'
    using that by (rule handle_ins_SomeD)
  show "handle_wf t' \<and> handle_map t slot \<noteq> None \<and> handle_map t' = (handle_map t)(slot := None)"
    if "handle_wf t" "handle_rem t slot = Some t'" for t slot t'
  proof -
    from that(2) have "cap_handle_remove t slot = (CAP_V2_OK, t')"
      by (auto simp: handle_rem_def Let_def split: if_splits prod.splits)
    from cap_handle_remove_spec [OF that(1) this] show ?thesis by blast
  qed
  show "finite (dom (handle_map t))" if "handle_wf t" for t
  proof (rule finite_subset)
    show "dom (handle_map t) \<subseteq> {..<ht_capacity t}"
      using that by (auto simp: handle_wf_def handle_map_alt dom_def split: if_splits)
  qed simp
qed

section \<open>Properties\<close>

text \<open>
  C15: on a well-formed table, \<open>cap_handle_insert\<close> never indexes outside the entries array; it either
  fails with EINVAL or ENOMEM and leaves the table alone, or stores the object in a slot that was
  free, changes no other slot, keeps the table well-formed (free list, counts, power-of-two
  capacity at most 1024) and returns that slot's generation.
\<close>

theorem cap_handle_insert_correct:
  assumes "handle_wf t" "kmalloc_sized kmalloc"
  shows "case cap_handle_insert kmalloc t ob fl of
      None \<Rightarrow> False
    | Some (r, None, t') \<Rightarrow> t' = t \<and> (r = CAP_V2_EINVAL \<or> r = CAP_V2_ENOMEM)
    | Some (r, Some slot, t') \<Rightarrow>
        handle_wf t' \<and> cap_handle_lookup t slot = None \<and> slot < CAP_HANDLE_MAX
        \<and> handle_map t' = (handle_map t)(slot \<mapsto> (ob, fl))
        \<and> r = sint (he_local_generation (ht_entries t' ! slot))"
  by (rule cap_handle_insert_cases [OF assms, of ob fl]) (simp_all add: handle_map_def)

definition demo_handle_table :: cap_handle_table where
  "demo_handle_table = snd (cap_handle_table_init (Some (replicate 16 (free_entry 0))))"

definition demo_kmalloc :: "nat \<Rightarrow> cap_handle_entry list option" where
  "demo_kmalloc n = Some (replicate n (free_entry 0))"

lemma demo_handle_table_wf: "handle_wf demo_handle_table"
  unfolding demo_handle_table_def by (rule handle_wf_init) simp

lemma demo_kmalloc_sized: "kmalloc_sized demo_kmalloc"
  by (simp add: kmalloc_sized_def demo_kmalloc_def)

theorem cap_handle_insert_correct_witness:
  "case cap_handle_insert demo_kmalloc demo_handle_table 7 3 of
      None \<Rightarrow> False
    | Some (r, None, t') \<Rightarrow> t' = demo_handle_table \<and> (r = CAP_V2_EINVAL \<or> r = CAP_V2_ENOMEM)
    | Some (r, Some slot, t') \<Rightarrow>
        handle_wf t' \<and> cap_handle_lookup demo_handle_table slot = None \<and> slot < CAP_HANDLE_MAX
        \<and> handle_map t' = (handle_map demo_handle_table)(slot \<mapsto> (7, 3))
        \<and> r = sint (he_local_generation (ht_entries t' ! slot))"
  by (rule cap_handle_insert_correct [OF demo_handle_table_wf demo_kmalloc_sized])

text \<open>
  on a well-formed table, \<open>cap_handle_remove\<close> of a slot without a live handle fails with EINVAL
  and changes nothing; otherwise it empties exactly that slot, advances the slot's generation so
  that an earlier (slot, generation) pair no longer matches, and keeps the table well-formed.
\<close>

theorem cap_handle_remove_correct:
  assumes "handle_wf t"
  shows "case cap_handle_remove t slot of (r, t') \<Rightarrow>
    (if cap_handle_lookup t slot = None then r = CAP_V2_EINVAL \<and> t' = t
     else r = CAP_V2_OK \<and> handle_wf t' \<and> handle_map t' = (handle_map t)(slot := None)
       \<and> he_local_generation (ht_entries t' ! slot) = he_local_generation (ht_entries t ! slot) + 1)"
proof (cases "cap_handle_lookup t slot")
  case None
  have len: "length (ht_entries t) = ht_capacity t" using assms by (simp add: handle_wf_def)
  with None show ?thesis
    by (auto simp: cap_handle_lookup_def cap_handle_remove_def Let_def split: if_splits)
next
  case (Some e)
  then obtain t' where t': "cap_handle_remove t slot = (CAP_V2_OK, t')"
    by (auto simp: cap_handle_lookup_def cap_handle_remove_def Let_def split: if_splits)
  from cap_handle_remove_spec [OF assms t'] Some t' show ?thesis by simp
qed

definition demo_live_table :: cap_handle_table where
  "demo_live_table = (case cap_handle_insert demo_kmalloc demo_handle_table 7 3 of
    Some (r, slot, t) \<Rightarrow> t | None \<Rightarrow> demo_handle_table)"

lemma demo_live_table_wf: "handle_wf demo_live_table"
  unfolding demo_live_table_def
  by (rule cap_handle_insert_cases [OF demo_handle_table_wf demo_kmalloc_sized, of 7 3])
     (simp_all add: demo_handle_table_wf)

lemma demo_live_lookup: "cap_handle_lookup demo_live_table 0 \<noteq> None"
  by code_simp

theorem cap_handle_remove_correct_witness:
  "case cap_handle_remove demo_live_table 0 of (r, t') \<Rightarrow>
     r = CAP_V2_OK \<and> handle_wf t' \<and> handle_map t' = (handle_map demo_live_table)(0 := None)
     \<and> he_local_generation (ht_entries t' ! 0) = he_local_generation (ht_entries demo_live_table ! 0) + 1"
  using cap_handle_remove_correct [OF demo_live_table_wf, of 0] demo_live_lookup by simp

text \<open>
  a table whose capacity is 0, as \<open>cap_handle_table_free\<close> and a failed
  \<open>cap_handle_table_init\<close> leave it, is not rejected by \<open>cap_handle_insert\<close>: growing doubles 0 to 0
  and succeeds (\<^verbatim>\<open>kmalloc(0)\<close> returns a block), and the insert then indexes the entries array at
  the list terminator 0xFFFFFFFF.
\<close>

theorem insert_into_freed_table:
  "kmalloc 0 = Some [] \<Longrightarrow> ob \<noteq> CAP_OBJECT_IDX_NONE
    \<Longrightarrow> cap_handle_insert kmalloc (cap_handle_table_free t) ob fl = None"
  by (simp add: cap_handle_insert_def cap_handle_table_free_def cap_handle_grow_def Let_def)

theorem insert_into_freed_table_witness:
  "cap_handle_insert demo_kmalloc (cap_handle_table_free demo_handle_table) 7 3 = None"
  by (rule insert_into_freed_table) (simp_all add: demo_kmalloc_def CAP_OBJECT_IDX_NONE_def)

end
