(* ===== verification/Kernel_Task.thy ===== *)
theory Kernel_Task
  imports Handle_Table
begin

text \<open>
  Tasks and the capability policy attached to them: the fields of \<^verbatim>\<open>task_struct\<close> the capability,
  channel and transaction code uses, pledge masks (kernel/cap/pledge.h, pledge.c), the system
  capability (kernel/cap/system.c) and capability inheritance on spawn
  (arch/x86_64/cpu/sched/sched.c). A task table entry is found by pid; a call into the handle
  table that leaves the entries array makes the whole operation \<open>None\<close>.
\<close>

section \<open>Tasks\<close>

record task =
  tk_id :: pid
  tk_zombie :: bool
  tk_cap_handles :: cap_handle_table
  tk_pledge_mask :: u16
  tk_txn_current :: ptr
  tk_txn_stack_depth :: nat
  tk_replay_in_progress :: bool

record kernel_state = cap_state +
  k_tasks :: "pid \<Rightarrow> task option"
  g_cap_system_bootcap_idx :: nat

definition sched_get_task_any :: "'a kernel_state_scheme \<Rightarrow> pid \<Rightarrow> task option" where
  "sched_get_task_any s i = (if i < 0 then None else k_tasks s i)"

definition sched_get_task :: "'a kernel_state_scheme \<Rightarrow> pid \<Rightarrow> task option" where
  "sched_get_task s i =
    (if i < 0 then None
     else case k_tasks s i of
       None \<Rightarrow> None
     | Some t \<Rightarrow> if tk_zombie t then None else Some t)"

definition put_task :: "pid \<Rightarrow> task \<Rightarrow> 'a kernel_state_scheme \<Rightarrow> 'a kernel_state_scheme" where
  "put_task i t s = s\<lparr>k_tasks := (k_tasks s)(i \<mapsto> t)\<rparr>"

section \<open>Pledges\<close>

abbreviation PLEDGE_RESERVED_MASK :: u16 where "PLEDGE_RESERVED_MASK \<equiv> 0xC000"
abbreviation PLEDGE_ALL :: u16 where "PLEDGE_ALL \<equiv> 0x3FFF"

definition pledge_mask_allows :: "u16 \<Rightarrow> nat \<Rightarrow> bool" where
  "pledge_mask_allows pm class_bit \<longleftrightarrow> pm AND push_bit class_bit 1 \<noteq> 0"

definition pledge_init :: "u16 \<Rightarrow> task \<Rightarrow> task" where
  "pledge_init initial t = t\<lparr>tk_pledge_mask := initial\<rparr>"

text \<open>The result is the return code, the task and the audit records written.\<close>

definition pledge_narrow :: "u16 \<Rightarrow> task \<Rightarrow> int \<times> task \<times> kevent list" where
  "pledge_narrow new_mask t =
    (if new_mask = 0 then
       (CAP_V2_EINVAL, t,
        [AuditPledgeViolation (tk_id t) (tk_pledge_mask t) new_mask ''pledge mask zero''])
     else if new_mask AND PLEDGE_RESERVED_MASK \<noteq> 0 then
       (CAP_V2_EINVAL, t,
        [AuditPledgeViolation (tk_id t) (tk_pledge_mask t) new_mask ''reserved bits set''])
     else
      let old = tk_pledge_mask t in
      if old AND new_mask \<noteq> new_mask then
        (CAP_V2_EPERM, t, [AuditPledgeViolation (tk_id t) old new_mask ''pledge widen attempt''])
      else (0, t\<lparr>tk_pledge_mask := new_mask\<rparr>, [AuditPledgeNarrow (tk_id t) old new_mask]))"

definition k_class_names :: "string list" where
  "k_class_names =
    [''fs_read'', ''fs_write'', ''net_client'', ''net_server'', ''spawn'', ''ipc_send'', ''ipc_recv'',
     ''sys_query'', ''sys_control'', ''ai_call'', ''compute'', ''time'', ''storage_server'', ''input_server'']"

fun pledge_describe_loop :: "u16 \<Rightarrow> nat \<Rightarrow> (nat \<times> string) list \<Rightarrow> bool \<Rightarrow> string \<Rightarrow> string" where
  "pledge_describe_loop pm buflen [] first buf = buf"
| "pledge_describe_loop pm buflen ((i, name) # rest) first buf =
    (if pm AND push_bit i 1 = 0 then pledge_describe_loop pm buflen rest first buf
     else if length buf + ((if first then 0 else 1) + length name) + 1 > buflen then buf
     else pledge_describe_loop pm buflen rest False
            (buf @ (if first then [] else '','') @ name))"

definition pledge_mask_describe :: "u16 \<Rightarrow> nat \<Rightarrow> string" where
  "pledge_mask_describe pm buflen =
    (if buflen = 0 then []
     else pledge_describe_loop pm buflen (zip [0..<14] k_class_names) True [])"

section \<open>The system capability\<close>

definition CAP_SYSTEM_INIT_RIGHTS :: u64 where
  "CAP_SYSTEM_INIT_RIGHTS = RIGHT_INSPECT OR RIGHT_REVOKE OR RIGHT_DERIVE OR RIGHT_INVOKE"

definition cap_system_init :: "bool \<Rightarrow> 'a kernel_state_scheme \<Rightarrow> 'a kernel_state_scheme" where
  "cap_system_init alloc_ok s =
    (if g_cap_system_bootcap_idx s \<noteq> 0 then s
     else
      case cap_object_create alloc_ok CAP_KIND_SYSTEM CAP_SYSTEM_INIT_RIGHTS
             (Some [PID_KERNEL, PID_NONE]) (CAP_FLAG_EAGER_REVOKE OR CAP_FLAG_PUBLIC) 0 PID_KERNEL
             CAP_OBJECT_IDX_NONE s of
        (Inl e, s) \<Rightarrow> s
      | (Inr idx, s) \<Rightarrow> if idx < 1 then s else s\<lparr>g_cap_system_bootcap_idx := idx\<rparr>)"

definition cap_system_install_to_pid ::
  "bool \<Rightarrow> (nat \<Rightarrow> cap_handle_entry list option) \<Rightarrow> pid \<Rightarrow> u64 \<Rightarrow> 'a kernel_state_scheme
    \<Rightarrow> (int \<times> 'a kernel_state_scheme) option" where
  "cap_system_install_to_pid alloc_ok kmalloc p rights_subset s =
    (if g_cap_system_bootcap_idx s = 0 then Some (CAP_V2_EINVAL, s)
     else if rights_subset = 0 then Some (CAP_V2_EINVAL, s)
     else if rights_subset AND NOT CAP_SYSTEM_INIT_RIGHTS \<noteq> 0 then Some (CAP_V2_EPERM, s)
     else case sched_get_task_any s p of
       None \<Rightarrow> Some (CAP_V2_EINVAL, s)
     | Some t \<Rightarrow>
        (case cap_object_derive alloc_ok (g_cap_system_bootcap_idx s) PID_KERNEL rights_subset
                (Some [p, PID_NONE]) CAP_FLAG_INHERITABLE s of
           (Inl e, s) \<Rightarrow> Some (e, s)
         | (Inr new_idx, s) \<Rightarrow>
            (case cap_handle_insert kmalloc (tk_cap_handles t) new_idx 0 of
               None \<Rightarrow> None
             | Some (gen, slot, h) \<Rightarrow>
                let s = put_task p (t\<lparr>tk_cap_handles := h\<rparr>) s in
                if gen < 0 then Some (gen, snd (cap_object_revoke new_idx s))
                else Some (0, s))))"

definition cap_system_entry_ok :: "'a kernel_state_scheme \<Rightarrow> u64 \<Rightarrow> cap_handle_entry \<Rightarrow> bool" where
  "cap_system_entry_ok s required_rights e =
    (if he_object_idx e = CAP_OBJECT_IDX_NONE then False
     else case cap_object_get s (he_object_idx e) of
       None \<Rightarrow> False
     | Some obj \<Rightarrow> co_kind obj = CAP_KIND_SYSTEM \<and> \<not> co_deleted obj
         \<and> co_rights obj AND required_rights = required_rights)"

definition cap_system_resolve :: "'a kernel_state_scheme \<Rightarrow> pid \<Rightarrow> u64 \<Rightarrow> int" where
  "cap_system_resolve s caller_pid required_rights =
    (if g_cap_system_bootcap_idx s = 0 then CAP_V2_EPERM
     else if required_rights = 0 then CAP_V2_EINVAL
     else case sched_get_task_any s caller_pid of
       None \<Rightarrow> CAP_V2_EPERM
     | Some caller \<Rightarrow>
        let t = tk_cap_handles caller in
        case first_from (\<lambda>i. cap_system_entry_ok s required_rights (ht_entries t ! i)) 0 (ht_capacity t) of
          Some i \<Rightarrow> 0
        | None \<Rightarrow> CAP_V2_EPERM)"

section \<open>Inheritance on spawn\<close>

abbreviation CAP_FLAG_RECURSIVE_INHERIT :: u8 where "CAP_FLAG_RECURSIVE_INHERIT \<equiv> 0x40"

definition inherit_snapshot :: "cap_handle_table \<Rightarrow> nat list" where
  "inherit_snapshot pt =
    take 32 (filter (\<lambda>oidx. oidx \<noteq> CAP_OBJECT_IDX_NONE)
      (map he_object_idx (take (ht_capacity pt) (ht_entries pt))))"

definition inherit_audience :: "cap_object \<Rightarrow> pid \<Rightarrow> pid list" where
  "inherit_audience obj child =
    (let aud = audience obj;
         recursive = has_flag (co_flags obj) CAP_FLAG_RECURSIVE_INHERIT;
         aud = (if recursive \<and> length aud < CAP_AUDIENCE_MAX \<and> child \<notin> set aud then aud @ [child] else aud)
     in aud @ replicate (CAP_AUDIENCE_MAX - length aud) PID_NONE)"

definition inherit_one ::
  "bool \<Rightarrow> (nat \<Rightarrow> cap_handle_entry list option) \<Rightarrow> pid \<Rightarrow> pid \<Rightarrow> nat \<Rightarrow> 'a kernel_state_scheme
    \<Rightarrow> 'a kernel_state_scheme option" where
  "inherit_one alloc_ok kmalloc parent child oidx s =
    (case cap_object_get s oidx of
      None \<Rightarrow> Some s
    | Some obj \<Rightarrow>
       if co_deleted obj then Some s
       else if \<not> has_flag (co_flags obj) CAP_FLAG_INHERITABLE then Some s
       else
        let aud = inherit_audience obj child;
            (r, s) = (if has_flag (co_flags obj) CAP_FLAG_RECURSIVE_INHERIT
                      then cap_object_derive_inherited alloc_ok oidx parent (co_rights obj) (Some aud) (co_flags obj) s
                      else cap_object_derive_quiet alloc_ok oidx parent (co_rights obj) (Some aud) (co_flags obj) s)
        in case r of
             Inl e \<Rightarrow> Some s
           | Inr new_idx \<Rightarrow>
              if new_idx > 0 then
                case k_tasks s child of
                  None \<Rightarrow> Some s
                | Some ct \<Rightarrow>
                   (case cap_handle_insert kmalloc (tk_cap_handles ct) new_idx (co_flags obj) of
                      None \<Rightarrow> None
                    | Some (g, slot, h) \<Rightarrow> Some (put_task child (ct\<lparr>tk_cap_handles := h\<rparr>) s))
              else Some s)"

fun inherit_all ::
  "bool \<Rightarrow> (nat \<Rightarrow> cap_handle_entry list option) \<Rightarrow> pid \<Rightarrow> pid \<Rightarrow> nat list \<Rightarrow> 'a kernel_state_scheme
    \<Rightarrow> 'a kernel_state_scheme option" where
  "inherit_all alloc_ok kmalloc parent child [] s = Some s"
| "inherit_all alloc_ok kmalloc parent child (oidx # rest) s =
    (case inherit_one alloc_ok kmalloc parent child oidx s of
      None \<Rightarrow> None
    | Some s' \<Rightarrow> inherit_all alloc_ok kmalloc parent child rest s')"

section \<open>Frame conditions\<close>

lemma create_more [simp]:
  "cap_state.more (snd (cap_object_create ok k r aud fl kd own par s)) = cap_state.more s"
  "cap_object_cache (snd (cap_object_create ok k r aud fl kd own par s)) = cap_object_cache s"
  "ktrace (snd (cap_object_create ok k r aud fl kd own par s)) = ktrace s"
  by (simp_all add: cap_object_create_def Let_def)

lemma derive_inner_more [simp]:
  "cap_state.more (snd (cap_object_derive_inner ok par c r aud fl q ex s)) = cap_state.more s"
  unfolding cap_object_derive_inner_def
  by (simp add: Let_def case_prod_beta split: option.split sum.split)

lemma kernel_more_cong:
  "cap_state.more s = cap_state.more s' \<Longrightarrow> k_tasks s = k_tasks s'"
  "cap_state.more s = cap_state.more s' \<Longrightarrow> g_cap_system_bootcap_idx s = g_cap_system_bootcap_idx s'"
  by (cases s; cases s'; simp)+

lemma cap_ops_tasks [simp]:
  "k_tasks (snd (cap_object_create ok k r aud fl kd own par s)) = k_tasks s"
  "k_tasks (snd (cap_object_derive_inner ok pr c r aud fl q ex s)) = k_tasks s"
  "k_tasks (snd (cap_object_revoke i s)) = k_tasks s"
  "g_cap_system_bootcap_idx (snd (cap_object_create ok k r aud fl kd own par s)) = g_cap_system_bootcap_idx s"
  "g_cap_system_bootcap_idx (snd (cap_object_derive_inner ok pr c r aud fl q ex s)) = g_cap_system_bootcap_idx s"
  "g_cap_system_bootcap_idx (snd (cap_object_revoke i s)) = g_cap_system_bootcap_idx s"
  by (rule kernel_more_cong; simp)+

lemma put_task_sel [simp]:
  "k_tasks (put_task i t s) = (k_tasks s)(i \<mapsto> t)"
  "g_cap_object_ptrs (put_task i t s) = g_cap_object_ptrs s"
  "g_cap_object_count (put_task i t s) = g_cap_object_count s"
  "cap_object_cache (put_task i t s) = cap_object_cache s"
  "ktrace (put_task i t s) = ktrace s"
  "g_cap_system_bootcap_idx (put_task i t s) = g_cap_system_bootcap_idx s"
  by (simp_all add: put_task_def)

lemma cap_wf_cong:
  "g_cap_object_ptrs s' = g_cap_object_ptrs s \<Longrightarrow> g_cap_object_count s' = g_cap_object_count s
    \<Longrightarrow> cap_object_cache s' = cap_object_cache s \<Longrightarrow> cap_wf s' = cap_wf s"
  by (simp add: cap_wf_def)

lemma cap_wf_put_task [simp]: "cap_wf (put_task i t s) = cap_wf s"
  by (rule cap_wf_cong) simp_all

text \<open>The invariant of the kernel state so far.\<close>

definition tasks_wf :: "(pid \<Rightarrow> task option) \<Rightarrow> bool" where
  "tasks_wf m \<longleftrightarrow> (\<forall>p t. m p = Some t \<longrightarrow> handle_wf (tk_cap_handles t) \<and> tk_id t = p)"

lemma tasks_wf_upd:
  "tasks_wf m \<Longrightarrow> handle_wf (tk_cap_handles t) \<Longrightarrow> tk_id t = p \<Longrightarrow> tasks_wf (m(p \<mapsto> t))"
  by (simp add: tasks_wf_def)

lemma tasks_wfD: "tasks_wf m \<Longrightarrow> m p = Some t \<Longrightarrow> handle_wf (tk_cap_handles t) \<and> tk_id t = p"
  by (simp add: tasks_wf_def)

section \<open>Pledge lemmas\<close>

lemma pledge_narrow_mask:
  "pledge_narrow m t = (r, t', ev) \<Longrightarrow>
    (r = 0 \<and> tk_pledge_mask t' = m \<and> m \<noteq> 0 \<and> m AND PLEDGE_RESERVED_MASK = 0 \<and> has_all (tk_pledge_mask t) m)
    \<or> (r < 0 \<and> t' = t)"
  by (auto simp: pledge_narrow_def Let_def has_all_def cap_err_defs split: if_splits)

definition pledge_run :: "u16 list \<Rightarrow> task \<Rightarrow> task" where
  "pledge_run ms t = fold (\<lambda>m t. fst (snd (pledge_narrow m t))) ms t"

lemma pledge_run_subset: "has_all (tk_pledge_mask t) (tk_pledge_mask (pledge_run ms t))"
proof (induction ms arbitrary: t)
  case (Cons m ms)
  obtain r t' ev where n: "pledge_narrow m t = (r, t', ev)" by (metis prod_cases3)
  have "has_all (tk_pledge_mask t) (tk_pledge_mask t')"
    using pledge_narrow_mask [OF n] by auto
  with Cons.IH [of t'] n show ?case
    by (auto simp: pledge_run_def intro: has_all_trans)
qed (simp add: pledge_run_def)

lemma pledge_allows_mono:
  "has_all a b \<Longrightarrow> pledge_mask_allows b c \<Longrightarrow> pledge_mask_allows a c"
  using has_all_flag [of a b "push_bit c 1"] by (simp add: pledge_mask_allows_def has_flag_def)

lemma pledge_describe_loop_bound:
  "length buf < buflen \<Longrightarrow> length (pledge_describe_loop pm buflen cs first buf) < buflen"
  by (induction pm buflen cs first buf rule: pledge_describe_loop.induct) auto

section \<open>System capability lemmas\<close>

lemma create_Inl_neg: "cap_object_create ok k r aud fl kd own par s = (Inl e, s') \<Longrightarrow> e < 0"
proof -
  have neg: "CAP_V2_EINVAL < 0" "CAP_V2_ENOMEM < 0" by (simp_all add: cap_err_defs)
  show "cap_object_create ok k r aud fl kd own par s = (Inl e, s') \<Longrightarrow> e < 0"
    unfolding cap_object_create_def using neg by (auto simp: Let_def split: if_splits)
qed

lemma derive_inner_Inl_neg:
  assumes "cap_object_derive_inner ok par c r aud fl q ex s = (Inl e, s')"
  shows "e < 0 \<and> s' = s"
proof -
  have neg: "CAP_V2_EINVAL < 0" "CAP_V2_EPERM < 0" "CAP_V2_EREVOKED < 0" by (simp_all add: cap_err_defs)
  show ?thesis
    using assms create_Inl_neg cap_object_create_Inl neg unfolding cap_object_derive_inner_def
    by (auto simp: Let_def split: option.splits sum.splits prod.splits if_splits)
qed

lemma derive_inner_any:
  assumes "cap_object_derive_inner ok par c r (Some aud) fl q ex s = (Inr n, s')"
  obtains parent child where "g_cap_object_ptrs s par = Some parent" "\<not> co_deleted parent"
    "par \<noteq> 0" "par < CAP_OBJECT_CAPACITY" "cap_token_validate_audience (Some parent) c"
    "has_all (co_rights parent) r"
    "n \<noteq> 0" "n < CAP_OBJECT_CAPACITY" "g_cap_object_ptrs s' n = Some child"
    "co_kind child = co_kind parent" "co_kind_data child = co_kind_data parent" "co_rights child = r"
    "\<not> co_deleted child" "set (audience child) \<subseteq> set aud"
    "has_flag (co_flags child) CAP_FLAG_PUBLIC \<Longrightarrow>
      has_flag (co_flags parent) CAP_FLAG_PUBLIC \<or> PID_PUBLIC \<in> set (audience child)"
    "\<And>i. i \<noteq> n \<Longrightarrow> core_at s' i = core_at s i"
proof -
  from assms obtain parent s1 where p: "g_cap_object_ptrs s par = Some parent" "\<not> co_deleted parent"
      "par \<noteq> 0" "par < CAP_OBJECT_CAPACITY" "cap_token_validate_audience (Some parent) c"
    and rt: "has_all (co_rights parent) r"
    and fl: "co_flags parent AND (fl AND (CAP_FLAG_PUBLIC OR CAP_FLAG_IMMORTAL))
      = fl AND (CAP_FLAG_PUBLIC OR CAP_FLAG_IMMORTAL)"
    and cr: "cap_object_create ok (co_kind parent) r (Some aud) fl (co_kind_data parent) c par s = (Inr n, s1)"
    and s1: "\<And>i. core_at s' i = core_at s1 i"
    unfolding cap_object_derive_inner_def has_all_def core_at_def
    by (auto simp: Let_def split: option.splits sum.splits prod.splits if_splits)
  let ?f = "cap_object_fresh (co_kind parent) r (Some aud) fl (co_kind_data parent) c par"
  note cr' = cap_object_create_InrD [OF cr]
  from core_at_SomeD [of s' n "core ?f"] cr'(4) s1 obtain child
    where child: "g_cap_object_ptrs s' n = Some child" and cc: "core child = core ?f" by auto
  note cs = core_eq_sel [OF cc]
  have au: "set (audience child) \<subseteq> set aud"
    using fresh_audience_Some [of "co_kind parent" r aud fl "co_kind_data parent" c par] cs(6)
    by (auto dest!: set_takeWhileD in_set_takeD)
  have pu: "has_flag (co_flags parent) CAP_FLAG_PUBLIC \<or> PID_PUBLIC \<in> set (audience child)"
    if "has_flag (co_flags child) CAP_FLAG_PUBLIC"
    using that has_flag_and_priv [OF fl, of CAP_FLAG_PUBLIC] by (auto simp: cs fresh_flags split: if_splits)
  show ?thesis
    by (rule that [of parent child]) (use p rt cr' child s1 au pu in \<open>simp_all add: cs\<close>)
qed

lemma cap_system_install_resolve:
  assumes i: "cap_system_install_to_pid ok km p r s = Some (0, s')"
    and wf: "tasks_wf (k_tasks s)" "kmalloc_sized km"
    and boot: "g_cap_object_ptrs s (g_cap_system_bootcap_idx s) = Some b" "co_kind b = CAP_KIND_SYSTEM"
    and q: "has_all r q" "q \<noteq> 0"
  shows "cap_system_resolve s' p q = 0"
proof -
  let ?bi = "g_cap_system_bootcap_idx s"
  from i obtain t where t: "?bi \<noteq> 0" "sched_get_task_any s p = Some t"
    by (auto simp: cap_system_install_to_pid_def cap_err_defs split: if_splits option.splits)
  obtain res s1 where d: "cap_object_derive ok ?bi PID_KERNEL r (Some [p, PID_NONE]) CAP_FLAG_INHERITABLE s = (res, s1)"
    by fastforce
  have d1: "k_tasks s1 = k_tasks s" "g_cap_system_bootcap_idx s1 = ?bi"
    using d cap_ops_tasks(2,5) [of ok ?bi PID_KERNEL r "Some [p, PID_NONE]" CAP_FLAG_INHERITABLE False False s]
    by (simp_all add: cap_object_derive_def)
  have gates: "r \<noteq> 0" "r AND NOT CAP_SYSTEM_INIT_RIGHTS = 0"
    using i t by (auto simp: cap_system_install_to_pid_def cap_err_defs split: if_splits)
  have inst: "(case res of Inl e \<Rightarrow> Some (e, s1)
      | Inr new_idx \<Rightarrow>
        (case cap_handle_insert km (tk_cap_handles t) new_idx 0 of
           None \<Rightarrow> None
         | Some (gen, slot, h) \<Rightarrow>
            let s = put_task p (t\<lparr>tk_cap_handles := h\<rparr>) s1 in
            if gen < 0 then Some (gen, snd (cap_object_revoke new_idx s)) else Some (0, s))) = Some (0, s')"
    using i t gates d by (simp add: cap_system_install_to_pid_def)
  obtain n where n: "res = Inr n"
  proof (cases res)
    case (Inl e)
    with derive_inner_Inl_neg d inst show ?thesis by (fastforce simp: cap_object_derive_def)
  qed
  from derive_inner_any [OF d [unfolded n cap_object_derive_def]] boot obtain child where
    child: "n \<noteq> 0" "n < CAP_OBJECT_CAPACITY" "g_cap_object_ptrs s1 n = Some child"
      "co_kind child = CAP_KIND_SYSTEM" "co_rights child = r" "\<not> co_deleted child"
    by (metis option.inject)
  from t have tp: "k_tasks s p = Some t" "\<not> p < 0" by (auto simp: sched_get_task_any_def split: if_splits)
  have hw: "handle_wf (tk_cap_handles t)" using wf(1) tp(1) by (simp add: tasks_wf_def)
  show ?thesis
  proof (rule cap_handle_insert_cases [OF hw wf(2), of n 0])
    fix rc assume f: "cap_handle_insert km (tk_cap_handles t) n 0 = Some (rc, None, tk_cap_handles t)"
      "rc = CAP_V2_EINVAL \<or> rc = CAP_V2_ENOMEM"
    then have "rc < 0" by (auto simp: cap_err_defs)
    with inst n f(1) show ?thesis by simp
  next
    fix g slot h'
    assume f: "cap_handle_insert km (tk_cap_handles t) n 0 = Some (sint g, Some slot, h')" "handle_wf h'"
      "handle_map h' = (handle_map (tk_cap_handles t))(slot \<mapsto> (n, 0))"
    have s': "s' = put_task p (t\<lparr>tk_cap_handles := h'\<rparr>) s1"
      using inst n f(1) by (auto simp: Let_def split: if_splits)
    have len: "length (ht_entries h') = ht_capacity h'" using f(2) by (simp add: handle_wf_def)
    have e: "slot < ht_capacity h'" "he_object_idx (ht_entries h' ! slot) = n" "n \<noteq> CAP_OBJECT_IDX_NONE"
      using fun_cong [OF f(3), of slot] by (auto simp: handle_map_alt [OF len] split: if_splits)
    have ok: "cap_system_entry_ok s' q (ht_entries h' ! slot)"
      using e child q(1) by (simp add: s' cap_system_entry_ok_def cap_object_get_def has_all_def)
    obtain j where "first_from (\<lambda>i. cap_system_entry_ok s' q (ht_entries h' ! i)) 0 (ht_capacity h') = Some j"
      by (rule first_from_exists [of 0 slot "ht_capacity h'" "\<lambda>i. cap_system_entry_ok s' q (ht_entries h' ! i)"])
         (use e ok in simp_all)
    with q(2) t(1) tp(2) d1 show ?thesis
      by (simp add: cap_system_resolve_def s' sched_get_task_any_def)
  qed
qed

lemma cap_system_resolve_zeroD:
  assumes "cap_system_resolve s p q = 0"
  shows "\<exists>t slot ob. k_tasks s p = Some t \<and> slot < ht_capacity (tk_cap_handles t)
    \<and> g_cap_object_ptrs s (he_object_idx (ht_entries (tk_cap_handles t) ! slot)) = Some ob
    \<and> co_kind ob = CAP_KIND_SYSTEM \<and> \<not> co_deleted ob \<and> has_all (co_rights ob) q"
proof -
  from assms obtain t i where t: "k_tasks s p = Some t"
    and i: "first_from (\<lambda>i. cap_system_entry_ok s q (ht_entries (tk_cap_handles t) ! i)) 0
      (ht_capacity (tk_cap_handles t)) = Some i"
    by (auto simp: cap_system_resolve_def sched_get_task_any_def cap_err_defs Let_def
        split: if_splits option.splits)
  from first_from_SomeD [OF i] t show ?thesis
    by (auto simp: cap_system_entry_ok_def cap_object_get_def has_all_def split: if_splits option.splits)
qed

section \<open>Inheritance lemmas\<close>

lemma inherit_audience_set:
  "set (inherit_audience ob child) \<subseteq> set (audience ob) \<union> {child, PID_NONE}"
  by (auto simp: inherit_audience_def Let_def)

lemma authority_cong: "g_cap_object_ptrs s' = g_cap_object_ptrs s \<Longrightarrow> authority s' p k d r = authority s p k d r"
  by (simp add: authority_iff)

lemma authority_derive_expanded:
  assumes wf: "cap_wf s" and ob: "g_cap_object_ptrs s i = Some ob" and nc: "child \<noteq> PID_PUBLIC"
    and d: "cap_object_derive_inner ok i parent (co_rights ob) (Some (inherit_audience ob child)) fl q ex s = (Inr n, s')"
    and au: "authority s' p k dt r" and np: "p \<noteq> PID_NONE"
  shows "authority s p k dt r \<or> (p = child \<and> authority s parent k dt r)"
proof -
  obtain par ch where P: "g_cap_object_ptrs s i = Some par" "\<not> co_deleted par" "i \<noteq> 0" "i < CAP_OBJECT_CAPACITY"
    "cap_token_validate_audience (Some par) parent" "g_cap_object_ptrs s' n = Some ch"
    "co_kind ch = co_kind par" "co_kind_data ch = co_kind_data par" "co_rights ch = co_rights ob"
    "set (audience ch) \<subseteq> set (inherit_audience ob child)"
    "has_flag (co_flags ch) CAP_FLAG_PUBLIC \<Longrightarrow>
      has_flag (co_flags par) CAP_FLAG_PUBLIC \<or> PID_PUBLIC \<in> set (audience ch)"
    "\<And>j. j \<noteq> n \<Longrightarrow> core_at s' j = core_at s j"
    using derive_inner_any [OF d] by metis
  with ob have par: "par = ob" by simp
  from au obtain j x where x: "j \<noteq> 0" "j < CAP_OBJECT_CAPACITY" "g_cap_object_ptrs s' j = Some x"
    "\<not> co_deleted x" "cap_token_validate_audience (Some x) p" "has_all (co_rights x) r"
    "co_kind x = k" "co_kind_data x = dt" unfolding authority_iff by blast
  show ?thesis
  proof (cases "j = n")
    case False
    with P(12) core_at_SomeI [OF x(3)] core_at_SomeD [of s j "core x"] obtain a
      where a: "g_cap_object_ptrs s j = Some a" "core a = core x" by auto
    with x show ?thesis unfolding authority_iff
      by (intro disjI1 exI [of _ j] exI [of _ a])
        (simp add: core_eq_sel [OF a(2)] cap_token_validate_audience_def)
  next
    case True
    with x P have xc: "x = ch" by simp
    have up: "authority s u k dt r" if "cap_token_validate_audience (Some ob) u" for u
      using P(1-4) x par xc that P(7-9) unfolding authority_iff
      by (intro exI [of _ i] exI [of _ ob]) simp
    have pub: "PID_PUBLIC \<in> set (audience ch) \<Longrightarrow> has_flag (co_flags ob) CAP_FLAG_PUBLIC"
      using P(10) inherit_audience_set [of ob child] nc cap_wfD(1) [OF wf ob]
      by (auto simp: object_wf_def PID_PUBLIC_def PID_NONE_def)
    show ?thesis
    proof (cases "cap_token_validate_audience (Some ob) p")
      case False
      with x(5) xc P(11) par pub have "p \<in> set (audience ch)"
        by (auto simp: cap_token_validate_audience_def)
      with P(10) inherit_audience_set [of ob child] False np have "p = child"
        by (auto simp: cap_token_validate_audience_def)
      with up P(5) par show ?thesis by simp
    qed (use up in blast)
  qed
qed

lemma inherit_one_cases:
  assumes i: "inherit_one ok km parent child oidx s = Some s'"
  obtains (same) "s' = s"
  | (derived) ob n s1 where "g_cap_object_ptrs s oidx = Some ob"
      "cap_object_derive_inner ok oidx parent (co_rights ob) (Some (inherit_audience ob child))
        (co_flags ob) True (has_flag (co_flags ob) CAP_FLAG_RECURSIVE_INHERIT) s = (Inr n, s1)"
      "g_cap_object_ptrs s' = g_cap_object_ptrs s1" "cap_wf s' = cap_wf s1"
proof (cases "cap_object_get s oidx")
  case None
  with i have "s' = s" by (simp add: inherit_one_def)
  then show thesis by (rule same)
next
  case (Some ob)
  then have ob: "g_cap_object_ptrs s oidx = Some ob" by (auto simp: cap_object_get_def split: if_splits)
  obtain res s1 where d: "cap_object_derive_inner ok oidx parent (co_rights ob) (Some (inherit_audience ob child))
      (co_flags ob) True (has_flag (co_flags ob) CAP_FLAG_RECURSIVE_INHERIT) s = (res, s1)" by fastforce
  have rd: "(if has_flag (co_flags ob) CAP_FLAG_RECURSIVE_INHERIT
      then cap_object_derive_inherited ok oidx parent (co_rights ob) (Some (inherit_audience ob child)) (co_flags ob) s
      else cap_object_derive_quiet ok oidx parent (co_rights ob) (Some (inherit_audience ob child)) (co_flags ob) s)
      = (res, s1)"
    using d by (cases "has_flag (co_flags ob) CAP_FLAG_RECURSIVE_INHERIT")
      (simp_all add: cap_object_derive_inherited_def cap_object_derive_quiet_def)
  show thesis
  proof (cases "co_deleted ob \<or> \<not> has_flag (co_flags ob) CAP_FLAG_INHERITABLE")
    case True
    with i Some have "s' = s" by (auto simp: inherit_one_def split: if_splits)
    then show thesis by (rule same)
  next
    case False
    show thesis
    proof (cases res)
      case (Inl e)
      from derive_inner_Inl_neg d Inl have "s1 = s" by blast
      with i Some False rd Inl have "s' = s" by (simp add: inherit_one_def)
      then show thesis by (rule same)
    next
      case (Inr n)
      have "g_cap_object_ptrs s' = g_cap_object_ptrs s1" "cap_wf s' = cap_wf s1"
        using i Some False rd Inr by (auto simp: inherit_one_def Let_def split: if_splits option.splits)
      with ob d Inr show thesis by (intro derived) simp_all
    qed
  qed
qed

lemma inherit_one_authority:
  assumes wf: "cap_wf s" and nc: "child \<noteq> PID_PUBLIC" and np: "p \<noteq> PID_NONE"
    and i: "inherit_one ok km parent child oidx s = Some s'" and au: "authority s' p k d r"
  shows "authority s p k d r \<or> (p = child \<and> authority s parent k d r)"
  using i
proof (cases rule: inherit_one_cases)
  case (derived ob n s1)
  have "authority s1 p k d r" using au derived(3) authority_cong [of s' s1] by simp
  from authority_derive_expanded [OF wf derived(1) nc derived(2) this np] show ?thesis .
qed (use au in simp)

lemma inherit_one_wf: "cap_wf s \<Longrightarrow> inherit_one ok km parent child oidx s = Some s' \<Longrightarrow> cap_wf s'"
  by (erule inherit_one_cases) (auto dest: cap_object_derive_inner_wf simp del: split_paired_Ex, metis cap_object_derive_inner_wf snd_conv)

lemma inherit_all_authority:
  assumes "cap_wf s" "child \<noteq> PID_PUBLIC" "parent \<noteq> PID_NONE" "p \<noteq> PID_NONE"
    "inherit_all ok km parent child oidxs s = Some s'" "authority s' p k d r"
  shows "authority s p k d r \<or> (p = child \<and> authority s parent k d r)"
  using assms
proof (induction oidxs arbitrary: s)
  case (Cons oidx rest)
  then obtain s1 where s1: "inherit_one ok km parent child oidx s = Some s1"
    and rest: "inherit_all ok km parent child rest s1 = Some s'" by (auto split: option.splits)
  note wf1 = inherit_one_wf [OF Cons.prems(1) s1]
  from Cons.IH [OF wf1 Cons.prems(2-4) rest Cons.prems(6)]
  show ?case
  proof
    assume "authority s1 p k d r"
    from inherit_one_authority [OF Cons.prems(1,2,4) s1 this] show ?thesis .
  next
    assume a: "p = child \<and> authority s1 parent k d r"
    from inherit_one_authority [OF Cons.prems(1,2,3) s1 conjunct2 [OF a]] a show ?thesis by blast
  qed
qed simp

lemma inherit_one_safe:
  assumes "tasks_wf (k_tasks s)" "kmalloc_sized km"
  shows "\<exists>s'. inherit_one ok km parent child oidx s = Some s' \<and> tasks_wf (k_tasks s')"
proof (cases "cap_object_get s oidx")
  case (Some ob)
  let ?d = "if has_flag (co_flags ob) CAP_FLAG_RECURSIVE_INHERIT
      then cap_object_derive_inherited ok oidx parent (co_rights ob) (Some (inherit_audience ob child)) (co_flags ob) s
      else cap_object_derive_quiet ok oidx parent (co_rights ob) (Some (inherit_audience ob child)) (co_flags ob) s"
  obtain res s1 where d: "?d = (res, s1)" by fastforce
  then have "s1 = snd ?d" by simp
  then have ts: "k_tasks s1 = k_tasks s"
    by (simp add: cap_object_derive_inherited_def cap_object_derive_quiet_def)
  show ?thesis
  proof (cases "\<exists>n ct. res = Inr n \<and> n > 0 \<and> k_tasks s1 child = Some ct \<and> \<not> co_deleted ob
      \<and> has_flag (co_flags ob) CAP_FLAG_INHERITABLE")
    case True
    then obtain n ct where n: "res = Inr n" "n > 0" "k_tasks s1 child = Some ct" "\<not> co_deleted ob"
      "has_flag (co_flags ob) CAP_FLAG_INHERITABLE" by blast
    have ct: "handle_wf (tk_cap_handles ct)" "tk_id ct = child"
      using assms(1) n(3) ts by (simp_all add: tasks_wf_def)
    obtain g sl h where h: "cap_handle_insert km (tk_cap_handles ct) n (co_flags ob) = Some (g, sl, h)" "handle_wf h"
      by (rule cap_handle_insert_cases [OF ct(1) assms(2), of n "co_flags ob"]) (use ct(1) in auto)
    from Some d n h have "inherit_one ok km parent child oidx s
        = Some (put_task child (ct\<lparr>tk_cap_handles := h\<rparr>) s1)" by (simp add: inherit_one_def)
    moreover have "tasks_wf (k_tasks (put_task child (ct\<lparr>tk_cap_handles := h\<rparr>) s1))"
      using assms(1) ts h(2) ct(2) by (simp add: tasks_wf_upd)
    ultimately show ?thesis by blast
  next
    case False
    with Some d ts assms(1) show ?thesis
      by (auto simp: inherit_one_def split: sum.split option.split)
  qed
qed (use assms in \<open>simp add: inherit_one_def\<close>)

lemma inherit_all_safe:
  "tasks_wf (k_tasks s) \<Longrightarrow> kmalloc_sized km
    \<Longrightarrow> \<exists>s'. inherit_all ok km parent child oidxs s = Some s' \<and> tasks_wf (k_tasks s')"
proof (induction oidxs arbitrary: s)
  case (Cons oidx rest)
  from inherit_one_safe [OF Cons.prems] obtain s1
    where "inherit_one ok km parent child oidx s = Some s1" "tasks_wf (k_tasks s1)" by blast
  with Cons show ?case by simp
qed simp

section \<open>Properties\<close>

text \<open>
  whatever sequence of masks a task passes to \<open>pledge_narrow\<close>, and whichever of the calls fail,
  the resulting mask is a subset of the original one: a class that was not permitted is never
  permitted again, and a mask that was non-zero never becomes zero.
\<close>

theorem pledge_never_widens:
  "has_all (tk_pledge_mask t) (tk_pledge_mask (pledge_run ms t))
   \<and> (\<forall>c. pledge_mask_allows (tk_pledge_mask (pledge_run ms t)) c = True \<longrightarrow> pledge_mask_allows (tk_pledge_mask t) c)
   \<and> (tk_pledge_mask t \<noteq> 0 \<longrightarrow> tk_pledge_mask (pledge_run ms t) \<noteq> 0)"
proof (intro conjI allI impI)
  show sub: "has_all (tk_pledge_mask t) (tk_pledge_mask (pledge_run ms t))" by (rule pledge_run_subset)
  show "pledge_mask_allows (tk_pledge_mask t) c"
    if "pledge_mask_allows (tk_pledge_mask (pledge_run ms t)) c = True" for c
    using pledge_allows_mono [OF sub] that by simp
  show "tk_pledge_mask (pledge_run ms t) \<noteq> 0" if "tk_pledge_mask t \<noteq> 0"
    using that
  proof (induction ms arbitrary: t)
    case (Cons m ms)
    obtain r t' ev where n: "pledge_narrow m t = (r, t', ev)" by (metis prod_cases3)
    with pledge_narrow_mask [OF n] Cons.prems have "tk_pledge_mask t' \<noteq> 0" by auto
    from Cons.IH [OF this] n show ?case by (simp add: pledge_run_def)
  qed (simp add: pledge_run_def)
qed

definition demo_task :: "pid \<Rightarrow> task" where
  "demo_task p = \<lparr>tk_id = p, tk_zombie = False, tk_cap_handles = demo_handle_table,
    tk_pledge_mask = PLEDGE_ALL, tk_txn_current = NULL, tk_txn_stack_depth = 0,
    tk_replay_in_progress = False\<rparr>"

theorem pledge_never_widens_witness:
  "has_all (tk_pledge_mask (demo_task 1)) (tk_pledge_mask (pledge_run [0x0C03, 0x0FFF, 0, 0x0C01] (demo_task 1)))
   \<and> \<not> pledge_mask_allows (tk_pledge_mask (pledge_run [0x0C03, 0x0FFF, 0, 0x0C01] (demo_task 1))) 1
   \<and> tk_pledge_mask (pledge_run [0x0C03, 0x0FFF, 0, 0x0C01] (demo_task 1)) \<noteq> 0"
proof -
  have "\<not> pledge_mask_allows (tk_pledge_mask (pledge_run [0x0C03, 0x0FFF, 0, 0x0C01] (demo_task 1))) 1"
    by code_simp
  moreover have "tk_pledge_mask (demo_task 1) \<noteq> 0" by (simp add: demo_task_def)
  ultimately show ?thesis
    using pledge_never_widens [of "demo_task 1" "[0x0C03, 0x0FFF, 0, 0x0C01]"] by blast
qed

text \<open>
  once \<open>cap_system_install_to_pid\<close> reports success for a process, \<open>cap_system_resolve\<close> grants
  that process every system right it was installed with.
\<close>

theorem cap_system_install_grants:
  assumes "cap_system_install_to_pid ok km p r s = Some (0, s')"
    and "tasks_wf (k_tasks s)" "kmalloc_sized km"
    and "g_cap_object_ptrs s (g_cap_system_bootcap_idx s) = Some b" "co_kind b = CAP_KIND_SYSTEM"
    and "has_all r q" "q \<noteq> 0"
  shows "cap_system_resolve s' p q = 0"
  using assms by (rule cap_system_install_resolve)

definition demo_boot :: kernel_state where
  "demo_boot = \<lparr>cap_object_cache = False, g_cap_object_ptrs = \<lambda>_. None, g_cap_object_count = 0, ktrace = [],
    k_tasks = [0 \<mapsto> demo_task 0, 1 \<mapsto> demo_task 1], g_cap_system_bootcap_idx = 0\<rparr>"

definition demo_kernel :: kernel_state where
  "demo_kernel = cap_system_init True (the (cap_object_init True True demo_boot))"

lemma demo_kernel_facts:
  "g_cap_system_bootcap_idx demo_kernel = 1"
  "map_option co_kind (g_cap_object_ptrs demo_kernel 1) = Some CAP_KIND_SYSTEM"
  "map_option fst (cap_system_install_to_pid True demo_kmalloc 1 RIGHT_INVOKE demo_kernel) = Some 0"
  by code_simp+

lemma demo_kernel_tasks: "tasks_wf (k_tasks demo_kernel)"
proof -
  have "k_tasks demo_kernel = [0 \<mapsto> demo_task 0, 1 \<mapsto> demo_task 1]"
    by (simp add: demo_kernel_def demo_boot_def cap_system_init_def cap_object_init_def put_object_def
        cap_object_create_def Let_def)
  then show ?thesis by (simp add: tasks_wf_def demo_task_def demo_handle_table_wf)
qed

theorem cap_system_install_grants_witness:
  "\<exists>s'. cap_system_install_to_pid True demo_kmalloc 1 RIGHT_INVOKE demo_kernel = Some (0, s')
    \<and> cap_system_resolve s' 1 RIGHT_INVOKE = 0"
proof -
  from demo_kernel_facts(3) obtain s' where
    s': "cap_system_install_to_pid True demo_kmalloc 1 RIGHT_INVOKE demo_kernel = Some (0, s')" by auto
  from demo_kernel_facts(1,2) obtain b where
    "g_cap_object_ptrs demo_kernel (g_cap_system_bootcap_idx demo_kernel) = Some b" "co_kind b = CAP_KIND_SYSTEM"
    by auto
  from cap_system_install_grants [OF s' demo_kernel_tasks demo_kmalloc_sized this, of RIGHT_INVOKE] s'
  show ?thesis by simp
qed

text \<open>
  C16: capability inheritance on spawn hands out no authority beyond the parent's: after the walk
  over the parent's handles, any process other than the child can exercise only what it could
  exercise before, and the child can additionally exercise only what the parent could.
\<close>

theorem spawn_inherits_at_most_parent:
  assumes "cap_wf s" "child \<noteq> PID_PUBLIC" "parent \<noteq> PID_NONE" "p \<noteq> PID_NONE"
    "inherit_all ok km parent child (inherit_snapshot pt) s = Some s'" "authority s' p k d r"
  shows "authority s p k d r \<or> (p = child \<and> authority s parent k d r)"
  using assms by (rule inherit_all_authority)

definition demo_parent :: kernel_state where
  "demo_parent = snd (cap_object_create True CAP_KIND_VMO RIGHTS_ALL (Some [0, PID_NONE])
    (CAP_FLAG_INHERITABLE OR CAP_FLAG_RECURSIVE_INHERIT) 7 0 CAP_OBJECT_IDX_NONE demo_kernel)"

definition demo_spawned :: kernel_state where
  "demo_spawned = the (inherit_all True demo_kmalloc 0 1 [2] demo_parent)"

lemma demo_parent_wf: "cap_wf demo_parent"
proof -
  obtain s1 where i: "cap_object_init True True demo_boot = Some s1"
    by (simp add: cap_object_init_def demo_boot_def)
  have w: "cap_wf s1" using cap_object_init_wf [OF _ _ _ i] by (simp add: demo_boot_def)
  have "cap_wf (s\<lparr>g_cap_system_bootcap_idx := x\<rparr>) = cap_wf s" for s :: kernel_state and x
    by (simp add: cap_wf_def)
  then have "cap_wf (cap_system_init True s1)"
    using cap_object_create_wf [OF w, of True CAP_KIND_SYSTEM CAP_SYSTEM_INIT_RIGHTS "Some [PID_KERNEL, PID_NONE]"
        "CAP_FLAG_EAGER_REVOKE OR CAP_FLAG_PUBLIC" 0 PID_KERNEL CAP_OBJECT_IDX_NONE] w
    by (auto simp: cap_system_init_def split: sum.split prod.split)
  with i show ?thesis unfolding demo_parent_def demo_kernel_def by (auto intro: cap_object_create_wf)
qed

lemma demo_spawn_runs:
  "inherit_snapshot (snd (snd (the (cap_handle_insert demo_kmalloc demo_handle_table 2 0)))) = [2]"
  "inherit_all True demo_kmalloc 0 1 [2] demo_parent \<noteq> None"
  "cap_token_resolve demo_spawned 1 (cap_token_pack 1 3 0) RIGHT_WRITE \<noteq> None"
  by code_simp+

theorem spawn_inherits_at_most_parent_witness:
  "\<exists>k d. authority demo_spawned 1 k d RIGHT_WRITE
    \<and> (authority demo_parent 1 k d RIGHT_WRITE \<or> authority demo_parent 0 k d RIGHT_WRITE)"
proof -
  let ?pt = "snd (snd (the (cap_handle_insert demo_kmalloc demo_handle_table 2 0)))"
  have run: "inherit_all True demo_kmalloc 0 1 (inherit_snapshot ?pt) demo_parent = Some demo_spawned"
    using demo_spawn_runs(1,2) by (auto simp: demo_spawned_def)
  from demo_spawn_runs(3) obtain ob where "cap_token_resolve demo_spawned 1 (cap_token_pack 1 3 0) RIGHT_WRITE = Some ob"
    by blast
  then have au: "authority demo_spawned 1 (co_kind ob) (co_kind_data ob) RIGHT_WRITE"
    unfolding authority_def by blast
  from spawn_inherits_at_most_parent [OF demo_parent_wf _ _ _ run au] au show ?thesis
    by (auto simp: PID_PUBLIC_def PID_NONE_def)
qed

end
