(* ===== verification/Linked_Lists.thy ===== *)
theory Linked_Lists
  imports Prelude
begin

text \<open>
  Intrusive linked lists. Several kernel structures link their objects through pointer fields
  (channel registry, transaction list, pid hash buckets and global list, run queues). Here a link
  field is a function from pointers to pointers; \<open>sseg\<close> and \<open>dseg\<close> say that it threads a given
  HOL list. The lemmas give the effect on that list of the pointer surgery the kernel performs:
  push at the front, append at the tail, unlink in the middle, and a walk to the first match.
\<close>

definition hd0 :: "ptr list \<Rightarrow> ptr \<Rightarrow> ptr" where
  "hd0 xs n = (if xs = [] then n else hd xs)"

definition last0 :: "ptr \<Rightarrow> ptr list \<Rightarrow> ptr" where
  "last0 p xs = (if xs = [] then p else last xs)"

fun sseg :: "(ptr \<Rightarrow> ptr) \<Rightarrow> ptr list \<Rightarrow> ptr \<Rightarrow> bool" where
  "sseg nx [] n \<longleftrightarrow> True"
| "sseg nx (x # xs) n \<longleftrightarrow> x \<noteq> NULL \<and> nx x = hd0 xs n \<and> sseg nx xs n"

fun dseg :: "(ptr \<Rightarrow> ptr) \<Rightarrow> (ptr \<Rightarrow> ptr) \<Rightarrow> ptr \<Rightarrow> ptr list \<Rightarrow> ptr \<Rightarrow> bool" where
  "dseg nx pv p [] n \<longleftrightarrow> True"
| "dseg nx pv p (x # xs) n \<longleftrightarrow> x \<noteq> NULL \<and> pv x = p \<and> nx x = hd0 xs n \<and> dseg nx pv x xs n"

lemma hd0_simps [simp]: "hd0 [] n = n" "hd0 (x # xs) n = x" "hd0 (xs @ ys) n = hd0 xs (hd0 ys n)"
  by (auto simp: hd0_def)

lemma last0_simps [simp]: "last0 p [] = p" "last0 p (x # xs) = last0 x xs"
    "last0 p (xs @ ys) = last0 (last0 p xs) ys"
  by (auto simp: last0_def)

lemma last0_in: "xs \<noteq> [] \<Longrightarrow> last0 p xs \<in> set xs"
  by (simp add: last0_def)

lemma hd0_in: "xs \<noteq> [] \<Longrightarrow> hd0 xs n \<in> set xs"
  by (simp add: hd0_def)

lemma sseg_cong: "(\<And>x. x \<in> set xs \<Longrightarrow> nx' x = nx x) \<Longrightarrow> sseg nx' xs n = sseg nx xs n"
  by (induction xs) auto

lemma dseg_cong:
  "(\<And>x. x \<in> set xs \<Longrightarrow> nx' x = nx x \<and> pv' x = pv x) \<Longrightarrow> dseg nx' pv' p xs n = dseg nx pv p xs n"
  by (induction xs arbitrary: p) auto

lemma sseg_append [simp]: "sseg nx (xs @ ys) n \<longleftrightarrow> sseg nx xs (hd0 ys n) \<and> sseg nx ys n"
  by (induction xs) auto

lemma dseg_append [simp]:
  "dseg nx pv p (xs @ ys) n \<longleftrightarrow> dseg nx pv p xs (hd0 ys n) \<and> dseg nx pv (last0 p xs) ys n"
  by (induction xs arbitrary: p) auto

lemma dseg_sseg: "dseg nx pv p xs n \<Longrightarrow> sseg nx xs n"
  by (induction xs arbitrary: p) auto

lemma sseg_nonnull: "sseg nx xs n \<Longrightarrow> NULL \<notin> set xs"
  by (induction xs) auto

lemma dseg_nonnull: "dseg nx pv p xs n \<Longrightarrow> NULL \<notin> set xs"
  by (induction xs arbitrary: p) auto

lemma sseg_retarget:
  "sseg nx xs n \<Longrightarrow> distinct xs \<Longrightarrow> xs \<noteq> [] \<Longrightarrow> sseg (nx(last xs := m)) xs m"
proof (induction xs)
  case (Cons x xs)
  show ?case
  proof (cases "xs = []")
    case False
    have ih: "sseg (nx(last xs := m)) xs m"
      by (rule Cons.IH) (use Cons.prems False in simp_all)
    from False Cons.prems have ne: "x \<noteq> last xs" by auto
    have "(nx(last xs := m)) x = hd0 xs m" using False Cons.prems ne by (simp add: hd0_def)
    with ih Cons.prems(1) show ?thesis unfolding last_ConsR [OF False] sseg.simps by blast
  qed (use Cons.prems in simp)
qed simp

lemma dseg_retarget_last:
  "dseg nx pv p xs n \<Longrightarrow> distinct xs \<Longrightarrow> xs \<noteq> [] \<Longrightarrow> dseg (nx(last xs := m)) pv p xs m"
proof (induction xs arbitrary: p)
  case (Cons x xs)
  show ?case
  proof (cases "xs = []")
    case False
    have ih: "dseg (nx(last xs := m)) pv x xs m"
      by (rule Cons.IH) (use Cons.prems False in simp_all)
    from False Cons.prems have ne: "x \<noteq> last xs" by auto
    have "(nx(last xs := m)) x = hd0 xs m" using False Cons.prems ne by (simp add: hd0_def)
    with ih Cons.prems(1) show ?thesis unfolding last_ConsR [OF False] dseg.simps by blast
  qed (use Cons.prems in simp)
qed simp

lemma dseg_retarget_first:
  "dseg nx pv p xs n \<Longrightarrow> distinct xs \<Longrightarrow> xs \<noteq> [] \<Longrightarrow> dseg nx (pv(hd xs := q)) q xs n"
proof (cases xs)
  case (Cons x ys)
  assume d: "dseg nx pv p xs n" "distinct xs"
  with Cons have "dseg nx (pv(x := q)) x ys n" by (subst dseg_cong [of ys nx nx _ pv]) auto
  with d Cons show ?thesis by simp
qed simp

text \<open>Push at the front, with a back link.\<close>

lemma dseg_push:
  assumes "dseg nx pv NULL xs NULL" "distinct (x # xs)" "x \<noteq> NULL"
    and "nx' = nx(x := hd0 xs NULL)"
    and "pv' = (if xs = [] then pv(x := NULL) else (pv(x := NULL))(hd xs := x))"
  shows "dseg nx' pv' NULL (x # xs) NULL"
proof (cases "xs = []")
  case False
  have "dseg nx (pv(hd xs := x)) x xs NULL" using assms False by (intro dseg_retarget_first) auto
  then have "dseg nx' pv' x xs NULL"
    using assms False by (subst dseg_cong [of xs nx' nx pv' "pv(hd xs := x)"]) auto
  with assms False show ?thesis by auto
qed (use assms in simp)

text \<open>Append at the tail.\<close>

lemma dseg_snoc:
  assumes "dseg nx pv NULL xs NULL" "distinct (xs @ [x])" "x \<noteq> NULL"
    and "nx' = (if xs = [] then nx(x := NULL) else (nx(x := NULL))(last xs := x))"
    and "pv' = pv(x := last0 NULL xs)"
  shows "dseg nx' pv' NULL (xs @ [x]) NULL"
proof (cases "xs = []")
  case False
  have "dseg (nx(last xs := x)) pv NULL xs x" using assms False by (intro dseg_retarget_last) auto
  then have "dseg nx' pv' NULL xs x"
    using assms False by (subst dseg_cong [of xs nx' "nx(last xs := x)" pv' pv]) auto
  with assms False show ?thesis by (auto simp: last0_def)
qed (use assms in simp)

text \<open>Unlink in the middle: the neighbours are joined.\<close>

lemma dseg_unlink:
  assumes d: "dseg nx pv NULL (xs @ x # ys) NULL" and di: "distinct (xs @ x # ys)"
    and nx': "nx' = (if pv x \<noteq> NULL then nx(pv x := nx x) else nx)"
    and pv': "pv' = (if nx x \<noteq> NULL then pv(nx x := pv x) else pv)"
  shows "dseg nx' pv' NULL (xs @ ys) NULL" "pv x = last0 NULL xs" "nx x = hd0 ys NULL"
proof -
  from d show p: "pv x = last0 NULL xs" and n: "nx x = hd0 ys NULL" by simp_all
  have nn: "NULL \<notin> set xs" "NULL \<notin> set ys" using dseg_nonnull [OF d] by auto
  have pz: "pv x \<noteq> NULL \<longleftrightarrow> xs \<noteq> []" using p nn(1) last0_in [of xs NULL] by (cases "xs = []") auto
  have nz: "nx x \<noteq> NULL \<longleftrightarrow> ys \<noteq> []" using n nn(2) hd0_in [of ys NULL] by (cases "ys = []") auto
  have lx: "last xs \<notin> set ys" if "xs \<noteq> []" using di last_in_set [OF that] by auto
  have hy: "hd ys \<notin> set xs" if "ys \<noteq> []" using di hd_in_set [OF that] by auto
  have dx: "dseg nx pv NULL xs x" "dseg nx pv x ys NULL" using d by simp_all
  have 1: "dseg nx' pv' NULL xs (hd0 ys NULL)"
  proof (cases "xs = []")
    case False
    have "dseg (nx(last xs := hd0 ys NULL)) pv NULL xs (hd0 ys NULL)"
      using dx di False by (intro dseg_retarget_last) auto
    then show ?thesis
      using nx' pv' pz nz p n False di
      by (subst dseg_cong [of xs nx' "nx(last xs := hd0 ys NULL)" pv' pv]) (auto simp: last0_def hd0_def dest: hy)
  qed simp
  have 2: "dseg nx' pv' (last0 NULL xs) ys NULL"
  proof (cases "ys = []")
    case False
    have "dseg nx (pv(hd ys := last0 NULL xs)) (last0 NULL xs) ys NULL"
      using dx di False by (intro dseg_retarget_first) auto
    then show ?thesis
      using nx' pv' pz nz p n False di
      by (subst dseg_cong [of ys nx' nx pv' "pv(hd ys := last0 NULL xs)"]) (auto simp: last0_def hd0_def dest: lx)
  qed simp
  from 1 2 show "dseg nx' pv' NULL (xs @ ys) NULL" by simp
qed

text \<open>
  A walk along the links to the first node that satisfies a test. It returns the node, or NULL at
  the end of the list; a cyclic list without a match has no result.
\<close>

partial_function (option) find_next :: "(ptr \<Rightarrow> ptr) \<Rightarrow> (ptr \<Rightarrow> bool) \<Rightarrow> ptr \<Rightarrow> ptr option" where
  "find_next nx P p =
    (if p = NULL then Some NULL else if P p then Some p else find_next nx P (nx p))"

declare find_next.simps [code]

lemma find_next_sseg:
  "sseg nx xs NULL \<Longrightarrow>
    find_next nx P (hd0 xs NULL) = Some (case find P xs of None \<Rightarrow> NULL | Some x \<Rightarrow> x)"
  by (induction xs) (auto simp: find_next.simps)

end
