(* ===== verification/Channel.thy ===== *)
theory Channel
  imports Kernel_Task Linked_Lists
begin

text \<open>
  Channels (kernel/ipc/channel.h, channel.c), the message type manifest (kernel/ipc/manifest.c with
  the FNV-1a hash of kernel/fs/simhash.c) and the freeze API (kernel/snap/chan_freeze.c): channel
  and endpoint objects in an explicit store addressed by pointers, the registry list, creation and
  teardown with every failure path, the message ring, freezing and thawing, handle marshalling and
  endpoint resolution. Memory handed back to a slab cache keeps its content and is recorded in the
  trace, so that a double free is visible. Sending and receiving, which involve transactions, are in
  \<open>Channel_Io\<close>. The lemmas show that the ring implements a bounded FIFO queue, that the registry
  lists exactly the linked channels, and what freezing preserves.
\<close>

section \<open>Messages and channels\<close>

abbreviation CHAN_MODE_BLOCKING :: nat where "CHAN_MODE_BLOCKING \<equiv> 1"
abbreviation CHAN_MODE_NONBLOCKING :: nat where "CHAN_MODE_NONBLOCKING \<equiv> 2"
abbreviation CHAN_ENDPOINT_READ :: nat where "CHAN_ENDPOINT_READ \<equiv> 1"
abbreviation CHAN_ENDPOINT_WRITE :: nat where "CHAN_ENDPOINT_WRITE \<equiv> 2"
abbreviation CHAN_MSG_INLINE_MAX :: nat where "CHAN_MSG_INLINE_MAX \<equiv> 256"
abbreviation CHAN_MSG_HANDLES_MAX :: nat where "CHAN_MSG_HANDLES_MAX \<equiv> 8"
abbreviation CHAN_CAPACITY_MAX :: nat where "CHAN_CAPACITY_MAX \<equiv> 4096"
abbreviation CHANNEL_MAGIC :: u32 where "CHANNEL_MAGIC \<equiv> 0xCAFEC4A1"

record chan_msg_header =
  mh_seq :: u64
  mh_type_hash :: u64
  mh_sender_pid :: u32
  mh_inline_len :: u16
  mh_nhandles :: u8
  mh_flags :: u8
  mh_timestamp_tsc :: u64

record channel_msg =
  cm_header :: chan_msg_header
  cm_inline_payload :: "u8 list"
  cm_in_flight_idx :: "u32 list"

record chan_msg_user =
  um_header :: chan_msg_header
  um_inline_payload :: "u8 list"
  um_handles :: "cap_token list"

record channel =
  ch_magic :: u32
  ch_mode :: nat
  ch_id :: u64
  ch_type_hash :: u64
  ch_capacity :: nat
  ch_head :: nat
  ch_tail :: nat
  ch_msgcount :: nat
  ch_refcount :: u32
  ch_read_cap_idx :: nat
  ch_write_cap_idx :: nat
  ch_read_waiters :: "pid list"
  ch_write_waiters :: "pid list"
  ch_ring :: "channel_msg list"
  ch_seq_next :: u64
  ch_total_sends :: u64
  ch_total_recvs :: u64
  ch_rejected_messages :: u64
  ch_owner_pid :: pid
  ch_frozen_at_snap :: u64
  ch_saved_head :: nat
  ch_saved_tail :: nat
  ch_saved_msgcount :: nat
  ch_reg_next :: ptr
  ch_reg_prev :: ptr

record chan_endpoint =
  ep_channel :: ptr
  ep_direction :: nat
  ep_current_holder_pid :: pid

record chan_state = kernel_state +
  chans :: "ptr \<Rightarrow> channel option"
  eps :: "ptr \<Rightarrow> chan_endpoint option"
  g_next_chan_id :: u64
  g_chan_reg_head :: ptr
  g_hashes :: "u64 list"
  g_manifest_ready :: bool

definition put_chan :: "ptr \<Rightarrow> channel \<Rightarrow> 'a chan_state_scheme \<Rightarrow> 'a chan_state_scheme" where
  "put_chan p c s = s\<lparr>chans := (chans s)(p \<mapsto> c)\<rparr>"

definition put_ep :: "ptr \<Rightarrow> chan_endpoint \<Rightarrow> 'a chan_state_scheme \<Rightarrow> 'a chan_state_scheme" where
  "put_ep p e s = s\<lparr>eps := (eps s)(p \<mapsto> e)\<rparr>"

definition upd_chan ::
  "ptr \<Rightarrow> (channel \<Rightarrow> channel) \<Rightarrow> 'a chan_state_scheme \<Rightarrow> 'a chan_state_scheme" where
  "upd_chan p f s = (case chans s p of None \<Rightarrow> s | Some c \<Rightarrow> put_chan p (f c) s)"

definition zero_header :: chan_msg_header where
  "zero_header = \<lparr>mh_seq = 0, mh_type_hash = 0, mh_sender_pid = 0, mh_inline_len = 0,
    mh_nhandles = 0, mh_flags = 0, mh_timestamp_tsc = 0\<rparr>"

definition zero_msg :: channel_msg where
  "zero_msg = \<lparr>cm_header = zero_header, cm_inline_payload = replicate CHAN_MSG_INLINE_MAX 0,
    cm_in_flight_idx = replicate CHAN_MSG_HANDLES_MAX 0\<rparr>"

section \<open>The type manifest\<close>

fun fnv1a_loop :: "u64 \<Rightarrow> u8 list \<Rightarrow> u64" where
  "fnv1a_loop hash [] = hash"
| "fnv1a_loop hash (b # bs) = fnv1a_loop ((hash XOR ucast b) * 1099511628211) bs"

definition fnv1a_hash64 :: "u8 list \<Rightarrow> u64" where
  "fnv1a_hash64 bytes = fnv1a_loop 14695981039346656037 bytes"

definition manifest_compute_hash :: "string \<Rightarrow> u64" where
  "manifest_compute_hash type_name = fnv1a_hash64 (map of_char type_name)"

definition manifest_names :: "string list" where
  "manifest_names =
    [''grahaos.notify.v1'', ''grahaos.pipe.bytes.v1'', ''grahaos.fault.v1'', ''grahaos.shutdown.v1'',
     ''grahaos.audit.v1'', ''grahaos.test.v1'', ''grahaos.io.completion.v1'', ''grahaos.net.accept.v1'',
     ''grahaos.net.frame.v1'', ''grahaos.net.socket.v1'', ''grahaos.blk.service.v1'',
     ''grahaos.blk.list.v1'', ''grahaos.wasm.service.v1'']"

definition manifest_init :: "'a chan_state_scheme \<Rightarrow> 'a chan_state_scheme" where
  "manifest_init s = s\<lparr>g_hashes := map manifest_compute_hash manifest_names, g_manifest_ready := True\<rparr>"

definition manifest_type_known :: "'a chan_state_scheme \<Rightarrow> u64 \<Rightarrow> bool" where
  "manifest_type_known s type_hash = (if \<not> g_manifest_ready s then False else type_hash \<in> set (g_hashes s))"

section \<open>Waking\<close>

text \<open>
  \<open>sched_wake_one_on_channel\<close> and \<open>sched_wake_all_on_channel\<close> on a waiter list: the list that is
  left, and the wake-ups in order.
\<close>

definition sched_wake_one_on_channel :: "pid list \<Rightarrow> int \<Rightarrow> pid list \<times> kevent list" where
  "sched_wake_one_on_channel ws r = (case ws of [] \<Rightarrow> ([], []) | w # ws' \<Rightarrow> (ws', [Wake w r]))"

definition sched_wake_all_on_channel :: "pid list \<Rightarrow> int \<Rightarrow> pid list \<times> kevent list" where
  "sched_wake_all_on_channel ws r = ([], map (\<lambda>w. Wake w r) ws)"

definition log_events :: "kevent list \<Rightarrow> 'a cap_state_scheme \<Rightarrow> 'a cap_state_scheme" where
  "log_events es s = s\<lparr>ktrace := ktrace s @ es\<rparr>"

section \<open>Registry\<close>

definition chan_reg_link :: "ptr \<Rightarrow> 'a chan_state_scheme \<Rightarrow> 'a chan_state_scheme" where
  "chan_reg_link p s =
    (let s = upd_chan p (\<lambda>c. c\<lparr>ch_reg_prev := NULL\<rparr>) s;
         s = upd_chan p (\<lambda>c. c\<lparr>ch_reg_next := g_chan_reg_head s\<rparr>) s;
         s = (if g_chan_reg_head s \<noteq> NULL
              then upd_chan (g_chan_reg_head s) (\<lambda>c. c\<lparr>ch_reg_prev := p\<rparr>) s else s)
     in s\<lparr>g_chan_reg_head := p\<rparr>)"

definition reg_nx :: "'a chan_state_scheme \<Rightarrow> ptr \<Rightarrow> ptr" where
  "reg_nx s p = (case chans s p of None \<Rightarrow> NULL | Some c \<Rightarrow> ch_reg_next c)"

definition reg_pv :: "'a chan_state_scheme \<Rightarrow> ptr \<Rightarrow> ptr" where
  "reg_pv s p = (case chans s p of None \<Rightarrow> NULL | Some c \<Rightarrow> ch_reg_prev c)"

definition chan_reg_unlink :: "ptr \<Rightarrow> 'a chan_state_scheme \<Rightarrow> 'a chan_state_scheme" where
  "chan_reg_unlink p s =
    (let pv = reg_pv s p; nx = reg_nx s p;
         s = (if pv \<noteq> NULL then upd_chan pv (\<lambda>c. c\<lparr>ch_reg_next := nx\<rparr>) s
              else if g_chan_reg_head s = p then s\<lparr>g_chan_reg_head := nx\<rparr> else s);
         s = (if nx \<noteq> NULL then upd_chan nx (\<lambda>c. c\<lparr>ch_reg_prev := pv\<rparr>) s else s)
     in upd_chan p (\<lambda>c. c\<lparr>ch_reg_prev := NULL, ch_reg_next := NULL\<rparr>) s)"

definition next_chan_id :: "'a chan_state_scheme \<Rightarrow> u64 \<times> 'a chan_state_scheme" where
  "next_chan_id s = (g_next_chan_id s, s\<lparr>g_next_chan_id := g_next_chan_id s + 1\<rparr>)"

text \<open>The walk has no result on a cyclic registry; NULL is the pointer 0.\<close>

definition chan_lookup_by_id :: "'a chan_state_scheme \<Rightarrow> u64 \<Rightarrow> ptr option" where
  "chan_lookup_by_id s chan_id =
    (if chan_id = 0 then Some NULL
     else find_next (reg_nx s) (\<lambda>p. map_option ch_id (chans s p) = Some chan_id) (g_chan_reg_head s))"

definition chan_ok :: "channel \<Rightarrow> bool" where
  "chan_ok c \<longleftrightarrow> ch_magic c = CHANNEL_MAGIC \<and> ch_capacity c > 0 \<and> ch_ring c \<noteq> []"

definition chan_check :: "'a chan_state_scheme \<Rightarrow> ptr \<Rightarrow> bool" where
  "chan_check s p = (p \<noteq> NULL \<and> (case chans s p of None \<Rightarrow> False | Some c \<Rightarrow> chan_ok c))"

section \<open>Creation and teardown\<close>

text \<open>What the allocators return to one \<^verbatim>\<open>chan_create\<close> call.\<close>

record chan_allocs =
  al_channel :: "ptr option"
  al_ring :: bool
  al_rd_ep :: "ptr option"
  al_wr_ep :: "ptr option"
  al_rd_obj :: bool
  al_wr_obj :: bool
  al_kmalloc :: "nat \<Rightarrow> cap_handle_entry list option"

definition fresh_channel :: "u64 \<Rightarrow> nat \<Rightarrow> nat \<Rightarrow> u64 \<Rightarrow> pid \<Rightarrow> channel" where
  "fresh_channel type_hash mode capacity cid owner =
    \<lparr>ch_magic = CHANNEL_MAGIC, ch_mode = mode, ch_id = cid, ch_type_hash = type_hash,
     ch_capacity = capacity, ch_head = 0, ch_tail = 0, ch_msgcount = 0, ch_refcount = 2,
     ch_read_cap_idx = 0, ch_write_cap_idx = 0, ch_read_waiters = [], ch_write_waiters = [],
     ch_ring = replicate capacity zero_msg, ch_seq_next = 0, ch_total_sends = 0,
     ch_total_recvs = 0, ch_rejected_messages = 0, ch_owner_pid = owner, ch_frozen_at_snap = 0,
     ch_saved_head = 0, ch_saved_tail = 0, ch_saved_msgcount = 0, ch_reg_next = NULL,
     ch_reg_prev = NULL\<rparr>"

definition chan_free :: "ptr \<Rightarrow> 'a chan_state_scheme \<Rightarrow> 'a chan_state_scheme" where
  "chan_free p s =
    (if \<not> chan_check s p then s
     else
      let s = chan_reg_unlink p s;
          s = log_event (KFreeRing p) (upd_chan p (\<lambda>c. c\<lparr>ch_ring := []\<rparr>) s);
          s = upd_chan p (\<lambda>c. c\<lparr>ch_magic := 0\<rparr>) s
      in log_event (KmemFree ''channel_t'' p) s)"

definition wake_both :: "ptr \<Rightarrow> int \<Rightarrow> 'a chan_state_scheme \<Rightarrow> 'a chan_state_scheme" where
  "wake_both p r s =
    (case chans s p of
      None \<Rightarrow> s
    | Some c \<Rightarrow>
       let (rw, e1) = sched_wake_all_on_channel (ch_read_waiters c) r;
           (ww, e2) = sched_wake_all_on_channel (ch_write_waiters c) r
       in log_events (e1 @ e2) (put_chan p (c\<lparr>ch_read_waiters := rw, ch_write_waiters := ww\<rparr>) s))"

definition chan_destroy_kernel :: "ptr \<Rightarrow> 'a chan_state_scheme \<Rightarrow> 'a chan_state_scheme" where
  "chan_destroy_kernel p s =
    (if \<not> chan_check s p then s
     else chan_free p (upd_chan p (\<lambda>c. c\<lparr>ch_refcount := 0\<rparr>) (wake_both p CAP_V2_EPIPE s)))"

definition chan_endpoint_deactivate :: "cap_object \<Rightarrow> 'a chan_state_scheme \<Rightarrow> 'a chan_state_scheme" where
  "chan_endpoint_deactivate obj s =
    (if co_kind_data obj = NULL then s
     else case eps s (co_kind_data obj) of
       None \<Rightarrow> s
     | Some ep \<Rightarrow>
        let p = ep_channel ep;
            s = (if chan_check s p then
                   let s = wake_both p CAP_V2_EPIPE s;
                       s = upd_chan p (\<lambda>c. c\<lparr>ch_refcount := ch_refcount c - 1\<rparr>) s
                   in if map_option ch_refcount (chans s p) = Some 0 then chan_free p s else s
                 else s)
        in log_event (KmemFree ''chan_endpoint_t'' (co_kind_data obj)) s)"

text \<open>The switch of \<^verbatim>\<open>cap_object_destroy\<close>; memory objects and streams are outside the model.\<close>

definition cap_kind_deactivate :: "cap_object \<Rightarrow> 'a chan_state_scheme \<Rightarrow> 'a chan_state_scheme" where
  "cap_kind_deactivate obj s =
    (if co_kind obj = CAP_KIND_CHANNEL then chan_endpoint_deactivate obj s
     else if co_kind obj = CAP_KIND_VMO then log_event (VmoDeactivate (co_kind_data obj)) s
     else if co_kind obj = CAP_KIND_STREAM then log_event (StreamDeactivate (co_kind_data obj)) s
     else s)"

definition cap_object_destroy :: "nat \<Rightarrow> 'a chan_state_scheme \<Rightarrow> 'a chan_state_scheme" where
  "cap_object_destroy idx s = cap_object_destroy_with cap_kind_deactivate idx s"

text \<open>The cleanup the failure paths of \<^verbatim>\<open>chan_create\<close> end with.\<close>

definition chan_create_undo :: "ptr \<Rightarrow> 'a chan_state_scheme \<Rightarrow> 'a chan_state_scheme" where
  "chan_create_undo p s =
    (let s = (if map_option ch_ring (chans s p) = Some [] then s else log_event (KFreeRing p) s);
         s = chan_reg_unlink p s
     in log_event (KmemFree ''channel_t'' p) s)"

definition free_ep :: "ptr option \<Rightarrow> 'a chan_state_scheme \<Rightarrow> 'a chan_state_scheme" where
  "free_ep e s = (case e of None \<Rightarrow> s | Some p \<Rightarrow> log_event (KmemFree ''chan_endpoint_t'' p) s)"

definition object_token :: "'a cap_state_scheme \<Rightarrow> nat \<Rightarrow> cap_token" where
  "object_token s idx =
    cap_token_pack (case g_cap_object_ptrs s idx of Some ob \<Rightarrow> co_generation ob | None \<Rightarrow> 0) (of_nat idx) 0"

abbreviation CHAN_RD_RIGHTS :: u64 where
  "CHAN_RD_RIGHTS \<equiv> RIGHT_READ OR RIGHT_RECV OR RIGHT_INSPECT OR RIGHT_DERIVE OR RIGHT_REVOKE"
abbreviation CHAN_WR_RIGHTS :: u64 where
  "CHAN_WR_RIGHTS \<equiv> RIGHT_WRITE OR RIGHT_SEND OR RIGHT_INSPECT OR RIGHT_DERIVE OR RIGHT_REVOKE"

text \<open>The last part: both endpoint objects exist; publish the handles.\<close>

definition chan_create_publish ::
  "chan_allocs \<Rightarrow> pid \<Rightarrow> ptr \<Rightarrow> nat \<Rightarrow> nat \<Rightarrow> 'a chan_state_scheme
    \<Rightarrow> (((cap_token \<times> cap_token) cres) \<times> 'a chan_state_scheme) option" where
  "chan_create_publish al caller_pid p rd_idx wr_idx s =
    (let s = upd_chan p (\<lambda>c. c\<lparr>ch_read_cap_idx := rd_idx, ch_write_cap_idx := wr_idx\<rparr>) s;
         undo = (\<lambda>s. chan_create_undo p (cap_object_destroy wr_idx (cap_object_destroy rd_idx s)))
     in case sched_get_task s caller_pid of
          None \<Rightarrow> Some (Inl CAP_V2_EINVAL, undo s)
        | Some t \<Rightarrow>
           (case cap_handle_insert (al_kmalloc al) (tk_cap_handles t) rd_idx 0 of
              None \<Rightarrow> None
            | Some (rd_ins, rd_slot, h1) \<Rightarrow>
               let s = put_task caller_pid (t\<lparr>tk_cap_handles := h1\<rparr>) s in
               if rd_ins < 0 then Some (Inl rd_ins, undo s)
               else
                (case cap_handle_insert (al_kmalloc al) h1 wr_idx 0 of
                   None \<Rightarrow> None
                 | Some (wr_ins, wr_slot, h2) \<Rightarrow>
                    if wr_ins < 0 then
                      let h3 = (case rd_slot of Some sl \<Rightarrow> snd (cap_handle_remove h2 sl) | None \<Rightarrow> h2);
                          s = put_task caller_pid (t\<lparr>tk_cap_handles := h3\<rparr>) s
                      in Some (Inl wr_ins, undo s)
                    else
                      let s = put_task caller_pid (t\<lparr>tk_cap_handles := h2\<rparr>) s
                      in Some (Inr (object_token s rd_idx, object_token s wr_idx), s))))"

definition chan_create ::
  "chan_allocs \<Rightarrow> u64 \<Rightarrow> nat \<Rightarrow> nat \<Rightarrow> pid \<Rightarrow> 'a chan_state_scheme
    \<Rightarrow> (((cap_token \<times> cap_token) cres) \<times> 'a chan_state_scheme) option" where
  "chan_create al type_hash mode capacity caller_pid s =
    (if capacity = 0 \<or> capacity > CHAN_CAPACITY_MAX then Some (Inl CAP_V2_EINVAL, s)
     else if mode \<noteq> CHAN_MODE_BLOCKING \<and> mode \<noteq> CHAN_MODE_NONBLOCKING then Some (Inl CAP_V2_EINVAL, s)
     else if \<not> manifest_type_known s type_hash then Some (Inl CAP_V2_EPROTOTYPE, s)
     else case al_channel al of
       None \<Rightarrow> Some (Inl CAP_V2_ENOMEM, s)
     | Some p \<Rightarrow>
        let (cid, s) = next_chan_id s;
            c = fresh_channel type_hash mode capacity cid caller_pid
        in if \<not> al_ring al
           then Some (Inl CAP_V2_ENOMEM,
                  log_event (KmemFree ''channel_t'' p) (put_chan p (c\<lparr>ch_ring := []\<rparr>) s))
           else
            let s = chan_reg_link p (put_chan p c s) in
            case (al_rd_ep al, al_wr_ep al) of
              (Some rd, Some wr) \<Rightarrow>
               (let s = put_ep rd \<lparr>ep_channel = p, ep_direction = CHAN_ENDPOINT_READ,
                                   ep_current_holder_pid = caller_pid\<rparr> s;
                    s = put_ep wr \<lparr>ep_channel = p, ep_direction = CHAN_ENDPOINT_WRITE,
                                   ep_current_holder_pid = caller_pid\<rparr> s;
                    aud = Some [caller_pid, PID_NONE]
                in case cap_object_create (al_rd_obj al) CAP_KIND_CHANNEL CHAN_RD_RIGHTS aud 0 rd caller_pid
                          CAP_OBJECT_IDX_NONE s of
                     (Inl e, s) \<Rightarrow>
                       Some (Inl e, chan_create_undo p (free_ep (Some wr) (free_ep (Some rd) s)))
                   | (Inr rd_idx, s) \<Rightarrow>
                      (case cap_object_create (al_wr_obj al) CAP_KIND_CHANNEL CHAN_WR_RIGHTS aud 0 wr caller_pid
                              CAP_OBJECT_IDX_NONE s of
                         (Inl e, s) \<Rightarrow>
                           Some (Inl e, chan_create_undo p (free_ep (Some wr) (cap_object_destroy rd_idx s)))
                       | (Inr wr_idx, s) \<Rightarrow> chan_create_publish al caller_pid p rd_idx wr_idx s))
            | (rd, wr) \<Rightarrow>
                Some (Inl CAP_V2_ENOMEM, chan_create_undo p (free_ep wr (free_ep rd s))))"

definition chan_create_kernel ::
  "ptr option \<Rightarrow> bool \<Rightarrow> u64 \<Rightarrow> nat \<Rightarrow> nat \<Rightarrow> 'a chan_state_scheme \<Rightarrow> ptr \<times> 'a chan_state_scheme" where
  "chan_create_kernel al_chan ring_ok type_hash mode capacity s =
    (if capacity = 0 \<or> capacity > CHAN_CAPACITY_MAX then (NULL, s)
     else if mode \<noteq> CHAN_MODE_BLOCKING \<and> mode \<noteq> CHAN_MODE_NONBLOCKING then (NULL, s)
     else case al_chan of
       None \<Rightarrow> (NULL, s)
     | Some p \<Rightarrow>
        let (cid, s) = next_chan_id s;
            c = fresh_channel type_hash mode capacity cid (- 1)
        in if \<not> ring_ok then (NULL, log_event (KmemFree ''channel_t'' p) (put_chan p (c\<lparr>ch_ring := []\<rparr>) s))
           else (p, chan_reg_link p (put_chan p c s)))"

section \<open>The ring\<close>

text \<open>The insertion of \<^verbatim>\<open>chan_send\<close> and the removal of \<^verbatim>\<open>chan_recv\<close>, under the channel lock.\<close>

definition stamp_msg :: "channel \<Rightarrow> pid \<Rightarrow> channel_msg \<Rightarrow> channel_msg" where
  "stamp_msg c sender msg =
    msg\<lparr>cm_header := (cm_header msg)\<lparr>mh_sender_pid := of_int sender, mh_seq := ch_seq_next c\<rparr>\<rparr>"

definition chan_ring_put :: "channel \<Rightarrow> pid \<Rightarrow> channel_msg \<Rightarrow> channel" where
  "chan_ring_put c sender msg =
    c\<lparr>ch_ring := (ch_ring c)[ch_tail c := stamp_msg c sender msg],
      ch_seq_next := ch_seq_next c + 1,
      ch_tail := (ch_tail c + 1) mod ch_capacity c,
      ch_msgcount := ch_msgcount c + 1,
      ch_total_sends := ch_total_sends c + 1\<rparr>"

definition chan_ring_get :: "channel \<Rightarrow> channel_msg \<times> channel" where
  "chan_ring_get c =
    (let slot = ch_ring c ! ch_head c in
     (slot,
      c\<lparr>ch_ring := (ch_ring c)[ch_head c := slot\<lparr>cm_in_flight_idx := replicate CHAN_MSG_HANDLES_MAX 0\<rparr>],
        ch_head := (ch_head c + 1) mod ch_capacity c,
        ch_msgcount := ch_msgcount c - 1,
        ch_total_recvs := ch_total_recvs c + 1\<rparr>))"

definition chan_poll_probe :: "'a chan_state_scheme \<Rightarrow> ptr \<Rightarrow> u32" where
  "chan_poll_probe s p =
    (if \<not> chan_check s p then 0
     else case chans s p of
       None \<Rightarrow> 0
     | Some c \<Rightarrow>
        (if ch_msgcount c > 0 then 1 else 0)
        OR (if ch_msgcount c < ch_capacity c then 2 else 0)
        OR (if ch_refcount c < 2 then 4 else 0))"

section \<open>Freezing\<close>

definition chan_freeze_locked :: "ptr \<Rightarrow> u64 \<Rightarrow> 'a chan_state_scheme \<Rightarrow> int \<times> 'a chan_state_scheme" where
  "chan_freeze_locked p snap_id s =
    (if \<not> chan_check s p \<or> snap_id = 0 then (CAP_V2_EINVAL, s)
     else case chans s p of
       None \<Rightarrow> (CAP_V2_EINVAL, s)
     | Some c \<Rightarrow>
        if ch_frozen_at_snap c \<noteq> 0 \<and> ch_frozen_at_snap c \<noteq> snap_id then (CAP_V2_EBUSY, s)
        else
         (CAP_V2_OK,
          wake_both p CAP_V2_EFROZEN
            (put_chan p (c\<lparr>ch_frozen_at_snap := snap_id, ch_saved_head := ch_head c,
                           ch_saved_tail := ch_tail c, ch_saved_msgcount := ch_msgcount c\<rparr>) s)))"

definition CHAN_THAW_KEEP :: nat where "CHAN_THAW_KEEP = 0xFFFFFFFF"

definition chan_rewind :: "nat \<Rightarrow> nat \<Rightarrow> channel \<Rightarrow> channel" where
  "chan_rewind restore_head restore_tail c =
    (let h = restore_head mod ch_capacity c; t = restore_tail mod ch_capacity c
     in c\<lparr>ch_head := h, ch_tail := t,
          ch_msgcount := (if t \<ge> h then t - h else ch_capacity c - h + t)\<rparr>)"

definition chan_thaw_locked :: "ptr \<Rightarrow> nat \<Rightarrow> nat \<Rightarrow> 'a chan_state_scheme \<Rightarrow> int \<times> 'a chan_state_scheme" where
  "chan_thaw_locked p restore_head restore_tail s =
    (if \<not> chan_check s p then (CAP_V2_EINVAL, s)
     else case chans s p of
       None \<Rightarrow> (CAP_V2_EINVAL, s)
     | Some c \<Rightarrow>
        if ch_frozen_at_snap c = 0 then (CAP_V2_EINVAL, s)
        else
         let c = c\<lparr>ch_frozen_at_snap := 0\<rparr>;
             c = (if restore_head \<noteq> CHAN_THAW_KEEP \<and> restore_tail \<noteq> CHAN_THAW_KEEP
                  then chan_rewind restore_head restore_tail c else c)
         in (CAP_V2_OK, wake_both p 0 (put_chan p c s)))"

text \<open>A walk over the registry that runs an operation on each channel.\<close>

partial_function (option) chan_walk ::
  "(ptr \<Rightarrow> 'a chan_state_scheme \<Rightarrow> 'a chan_state_scheme) \<Rightarrow> ptr \<Rightarrow> 'a chan_state_scheme
    \<Rightarrow> 'a chan_state_scheme option" where
  "chan_walk f p s =
    (if p = NULL then Some s else let s' = f p s in chan_walk f (reg_nx s' p) s')"

declare chan_walk.simps [code]

definition chan_freeze_all_locked :: "u64 \<Rightarrow> 'a chan_state_scheme \<Rightarrow> (int \<times> 'a chan_state_scheme) option" where
  "chan_freeze_all_locked snap_id s =
    (if snap_id = 0 then Some (CAP_V2_EINVAL, s)
     else map_option (\<lambda>s'. (CAP_V2_OK, s'))
            (chan_walk (\<lambda>p s. snd (chan_freeze_locked p snap_id s)) (g_chan_reg_head s) s))"

definition chan_thaw_all_locked :: "u64 \<Rightarrow> 'a chan_state_scheme \<Rightarrow> (int \<times> 'a chan_state_scheme) option" where
  "chan_thaw_all_locked snap_id s =
    (if snap_id = 0 then Some (CAP_V2_EINVAL, s)
     else map_option (\<lambda>s'. (CAP_V2_OK, s'))
            (chan_walk (\<lambda>p s. if map_option ch_frozen_at_snap (chans s p) = Some snap_id
                              then snd (chan_thaw_locked p CHAN_THAW_KEEP CHAN_THAW_KEEP s) else s)
               (g_chan_reg_head s) s))"

definition chan_freeze :: "u64 \<Rightarrow> u64 \<Rightarrow> 'a chan_state_scheme \<Rightarrow> (int \<times> 'a chan_state_scheme) option" where
  "chan_freeze chan_id snap_id s =
    (if chan_id = 0 \<or> snap_id = 0 then Some (CAP_V2_EINVAL, s)
     else case chan_lookup_by_id s chan_id of
       None \<Rightarrow> None
     | Some p \<Rightarrow> if p = NULL then Some (CAP_V2_EINVAL, s) else Some (chan_freeze_locked p snap_id s))"

definition chan_thaw :: "u64 \<Rightarrow> nat \<Rightarrow> nat \<Rightarrow> 'a chan_state_scheme \<Rightarrow> (int \<times> 'a chan_state_scheme) option" where
  "chan_thaw chan_id rhead rtail s =
    (if chan_id = 0 then Some (CAP_V2_EINVAL, s)
     else case chan_lookup_by_id s chan_id of
       None \<Rightarrow> None
     | Some p \<Rightarrow> if p = NULL then Some (CAP_V2_EINVAL, s) else Some (chan_thaw_locked p rhead rtail s))"

section \<open>Handle marshalling\<close>

text \<open>
  Phase 1 resolves every handle token of the message, phase 2 removes the first table entry that
  names the same object. \<open>staged0\<close> is the previous content of the staging buffer.
\<close>

fun stage_handles :: "'a cap_state_scheme \<Rightarrow> pid \<Rightarrow> cap_token list \<Rightarrow> u32 list option" where
  "stage_handles s p [] = Some []"
| "stage_handles s p (tok # toks) =
    (case cap_token_resolve s p tok 0 of
      None \<Rightarrow> None
    | Some obj \<Rightarrow>
       (case stage_handles s p toks of None \<Rightarrow> None | Some idxs \<Rightarrow> Some (cap_token_idx tok # idxs)))"

fun remove_handles :: "u32 list \<Rightarrow> cap_handle_table \<Rightarrow> cap_handle_table" where
  "remove_handles [] t = t"
| "remove_handles (idx # idxs) t =
    (case first_from (\<lambda>sl. map_option he_object_idx (cap_handle_lookup t sl) = Some (unat idx)) 0 (ht_capacity t) of
      Some sl \<Rightarrow> remove_handles idxs (snd (cap_handle_remove t sl))
    | None \<Rightarrow> remove_handles idxs t)"

definition chan_marshal_send ::
  "pid \<Rightarrow> chan_msg_user \<Rightarrow> channel_msg \<Rightarrow> 'a kernel_state_scheme
    \<Rightarrow> (channel_msg cres) \<times> 'a kernel_state_scheme" where
  "chan_marshal_send sender user_msg staged0 s =
    (case k_tasks s sender of
      None \<Rightarrow> (Inl CAP_V2_EFAULT, s)
    | Some t \<Rightarrow>
       let h = um_header user_msg; n = unat (mh_nhandles h); len = unat (mh_inline_len h) in
       if len > CHAN_MSG_INLINE_MAX then (Inl CAP_V2_EINVAL, s)
       else if n > CHAN_MSG_HANDLES_MAX then (Inl CAP_V2_EINVAL, s)
       else case stage_handles s (tk_id t) (take n (um_handles user_msg)) of
         None \<Rightarrow> (Inl CAP_V2_EPERM, s)
       | Some idxs \<Rightarrow>
          (Inr \<lparr>cm_header = h,
                cm_inline_payload = take len (um_inline_payload user_msg) @ drop len (cm_inline_payload staged0),
                cm_in_flight_idx = idxs @ replicate (CHAN_MSG_HANDLES_MAX - n) 0\<rparr>,
           put_task sender (t\<lparr>tk_cap_handles := remove_handles idxs (tk_cap_handles t)\<rparr>) s))"

text \<open>
  The receive loop over the in-flight indices; \<open>inserted\<close> are the slots to roll back. \<open>Inl\<close> is the
  code of a failed insert.
\<close>

fun install_handles ::
  "(nat \<Rightarrow> cap_handle_entry list option) \<Rightarrow> pid \<Rightarrow> u32 list \<Rightarrow> nat list \<Rightarrow> 'a chan_state_scheme
    \<Rightarrow> (cap_token list cres \<times> 'a chan_state_scheme) option" where
  "install_handles km receiver [] inserted s = Some (Inr [], s)"
| "install_handles km receiver (w # ws) inserted s =
    (if w = 0 then
       (case install_handles km receiver ws inserted s of
          None \<Rightarrow> None
        | Some (Inl e, s') \<Rightarrow> Some (Inl e, s')
        | Some (Inr toks, s') \<Rightarrow> Some (Inr (Cap_Token 0 # toks), s'))
     else case k_tasks s receiver of
       None \<Rightarrow> None
     | Some t \<Rightarrow>
        (case cap_handle_insert km (tk_cap_handles t) (unat w) 0 of
           None \<Rightarrow> None
         | Some (rc, slot, h) \<Rightarrow>
            if rc < 0 then
              Some (Inl rc,
                put_task receiver (t\<lparr>tk_cap_handles := fold (\<lambda>sl h. snd (cap_handle_remove h sl)) inserted h\<rparr>) s)
            else
              let s = put_task receiver (t\<lparr>tk_cap_handles := h\<rparr>) s;
                  tok = object_token s (unat w);
                  s = (case g_cap_object_ptrs s (unat w) of
                         None \<Rightarrow> s
                       | Some ob \<Rightarrow>
                          if co_kind ob = CAP_KIND_CHANNEL \<and> co_kind_data ob \<noteq> NULL then
                            (case eps s (co_kind_data ob) of
                               None \<Rightarrow> s
                             | Some ep \<Rightarrow> put_ep (co_kind_data ob) (ep\<lparr>ep_current_holder_pid := tk_id t\<rparr>) s)
                          else s)
              in (case install_handles km receiver ws (inserted @ (case slot of Some sl \<Rightarrow> [sl] | None \<Rightarrow> [])) s of
                    None \<Rightarrow> None
                  | Some (Inl e, s') \<Rightarrow> Some (Inl e, s')
                  | Some (Inr toks, s') \<Rightarrow> Some (Inr (tok # toks), s'))))"

definition chan_marshal_recv ::
  "(nat \<Rightarrow> cap_handle_entry list option) \<Rightarrow> pid \<Rightarrow> channel_msg \<Rightarrow> chan_msg_user \<Rightarrow> 'a chan_state_scheme
    \<Rightarrow> (chan_msg_user cres \<times> 'a chan_state_scheme) option" where
  "chan_marshal_recv km receiver slot user0 s =
    (let h = cm_header slot; n = unat (mh_nhandles h); len = unat (mh_inline_len h) in
     case install_handles km receiver (take n (cm_in_flight_idx slot)) [] s of
       None \<Rightarrow> None
     | Some (Inl e, s') \<Rightarrow> Some (Inl e, s')
     | Some (Inr toks, s') \<Rightarrow>
        Some (Inr \<lparr>um_header = h,
                   um_inline_payload = take len (cm_inline_payload slot) @ drop len (um_inline_payload user0),
                   um_handles = toks @ replicate (CHAN_MSG_HANDLES_MAX - length toks) (Cap_Token 0)\<rparr>,
              log_event (AuditHandleTransfer (sint (mh_sender_pid h)) receiver
                (unat (cm_in_flight_idx slot ! 0)) n) s'))"

definition chan_resolve_endpoint ::
  "'a chan_state_scheme \<Rightarrow> pid \<Rightarrow> cap_token \<Rightarrow> nat \<Rightarrow> u64 \<Rightarrow> (ptr \<times> nat) cres" where
  "chan_resolve_endpoint s caller_pid tok dir required_rights =
    (case cap_token_resolve s caller_pid tok required_rights of
      None \<Rightarrow> Inl CAP_V2_EPERM
    | Some obj \<Rightarrow>
       if co_kind obj \<noteq> CAP_KIND_CHANNEL then Inl CAP_V2_EINVAL
       else if co_kind_data obj = NULL then Inl CAP_V2_EINVAL
       else case eps s (co_kind_data obj) of
         None \<Rightarrow> Inl CAP_V2_EINVAL
       | Some ep \<Rightarrow>
          if \<not> chan_check s (ep_channel ep) then Inl CAP_V2_EINVAL
          else if ep_direction ep \<noteq> dir then Inl CAP_V2_EPERM
          else case chans s (ep_channel ep) of
            None \<Rightarrow> Inl CAP_V2_EINVAL
          | Some c \<Rightarrow>
             Inr (ep_channel ep, if dir = CHAN_ENDPOINT_READ then ch_read_cap_idx c else ch_write_cap_idx c))"

section \<open>Frame conditions\<close>

lemma put_chan_sel [simp]:
  "chans (put_chan p c s) = (chans s)(p \<mapsto> c)"
  "eps (put_chan p c s) = eps s"
  "g_chan_reg_head (put_chan p c s) = g_chan_reg_head s"
  "g_next_chan_id (put_chan p c s) = g_next_chan_id s"
  "g_hashes (put_chan p c s) = g_hashes s"
  "g_manifest_ready (put_chan p c s) = g_manifest_ready s"
  "k_tasks (put_chan p c s) = k_tasks s"
  "g_cap_object_ptrs (put_chan p c s) = g_cap_object_ptrs s"
  "g_cap_object_count (put_chan p c s) = g_cap_object_count s"
  "cap_object_cache (put_chan p c s) = cap_object_cache s"
  "ktrace (put_chan p c s) = ktrace s"
  by (simp_all add: put_chan_def)

lemma put_ep_sel [simp]:
  "chans (put_ep p e s) = chans s"
  "eps (put_ep p e s) = (eps s)(p \<mapsto> e)"
  "g_chan_reg_head (put_ep p e s) = g_chan_reg_head s"
  "k_tasks (put_ep p e s) = k_tasks s"
  "g_cap_object_ptrs (put_ep p e s) = g_cap_object_ptrs s"
  "g_cap_object_count (put_ep p e s) = g_cap_object_count s"
  "cap_object_cache (put_ep p e s) = cap_object_cache s"
  "ktrace (put_ep p e s) = ktrace s"
  by (simp_all add: put_ep_def)

lemma upd_chan_sel [simp]:
  "chans (upd_chan p f s) = (chans s)(p := map_option f (chans s p))"
  "eps (upd_chan p f s) = eps s"
  "g_chan_reg_head (upd_chan p f s) = g_chan_reg_head s"
  "g_next_chan_id (upd_chan p f s) = g_next_chan_id s"
  "k_tasks (upd_chan p f s) = k_tasks s"
  "g_cap_object_ptrs (upd_chan p f s) = g_cap_object_ptrs s"
  "g_cap_object_count (upd_chan p f s) = g_cap_object_count s"
  "cap_object_cache (upd_chan p f s) = cap_object_cache s"
  "ktrace (upd_chan p f s) = ktrace s"
  by (auto simp: upd_chan_def split: option.split)

lemma log_events_sel [simp]:
  "g_cap_object_ptrs (log_events es s) = g_cap_object_ptrs s"
  "g_cap_object_count (log_events es s) = g_cap_object_count s"
  "cap_object_cache (log_events es s) = cap_object_cache s"
  "cap_state.more (log_events es s) = cap_state.more s"
  "ktrace (log_events es s) = ktrace s @ es"
  by (simp_all add: log_events_def)

lemma chan_more_cong:
  "cap_state.more s = cap_state.more s' \<Longrightarrow> chans s = chans s'"
  "cap_state.more s = cap_state.more s' \<Longrightarrow> eps s = eps s'"
  "cap_state.more s = cap_state.more s' \<Longrightarrow> g_chan_reg_head s = g_chan_reg_head s'"
  "cap_state.more s = cap_state.more s' \<Longrightarrow> g_next_chan_id s = g_next_chan_id s'"
  "cap_state.more s = cap_state.more s' \<Longrightarrow> g_hashes s = g_hashes s'"
  "cap_state.more s = cap_state.more s' \<Longrightarrow> g_manifest_ready s = g_manifest_ready s'"
  by (cases s; cases s'; simp)+

lemma cap_ops_chans [simp]:
  "chans (log_event e s) = chans s" "eps (log_event e s) = eps s"
  "g_chan_reg_head (log_event e s) = g_chan_reg_head s" "k_tasks (log_event e s) = k_tasks s"
  "g_next_chan_id (log_event e s) = g_next_chan_id s"
  "chans (log_events es s) = chans s" "eps (log_events es s) = eps s"
  "g_chan_reg_head (log_events es s) = g_chan_reg_head s" "k_tasks (log_events es s) = k_tasks s"
  "g_next_chan_id (log_events es s) = g_next_chan_id s"
  "chans (snd (cap_object_create ok k r aud fl kd own par s)) = chans s"
  "eps (snd (cap_object_create ok k r aud fl kd own par s)) = eps s"
  "g_chan_reg_head (snd (cap_object_create ok k r aud fl kd own par s)) = g_chan_reg_head s"
  "chans (snd (cap_object_revoke i s)) = chans s" "eps (snd (cap_object_revoke i s)) = eps s"
  "g_chan_reg_head (snd (cap_object_revoke i s)) = g_chan_reg_head s"
  by (simp_all add: log_event_def log_events_def) (rule chan_more_cong; simp)+

lemma put_task_chans [simp]:
  "chans (put_task i t s) = chans s" "eps (put_task i t s) = eps s"
  "g_chan_reg_head (put_task i t s) = g_chan_reg_head s"
  "g_next_chan_id (put_task i t s) = g_next_chan_id s"
  by (simp_all add: put_task_def)

lemma chan_reg_link_caps [simp]:
  "g_cap_object_ptrs (chan_reg_link p s) = g_cap_object_ptrs s"
  "g_cap_object_count (chan_reg_link p s) = g_cap_object_count s"
  "cap_object_cache (chan_reg_link p s) = cap_object_cache s"
  "k_tasks (chan_reg_link p s) = k_tasks s" "eps (chan_reg_link p s) = eps s"
  "ktrace (chan_reg_link p s) = ktrace s"
  by (simp_all add: chan_reg_link_def Let_def)

lemma chan_reg_unlink_caps [simp]:
  "g_cap_object_ptrs (chan_reg_unlink p s) = g_cap_object_ptrs s"
  "g_cap_object_count (chan_reg_unlink p s) = g_cap_object_count s"
  "cap_object_cache (chan_reg_unlink p s) = cap_object_cache s"
  "k_tasks (chan_reg_unlink p s) = k_tasks s" "eps (chan_reg_unlink p s) = eps s"
  "ktrace (chan_reg_unlink p s) = ktrace s"
  by (simp_all add: chan_reg_unlink_def Let_def)

lemma chan_free_caps [simp]:
  "g_cap_object_ptrs (chan_free p s) = g_cap_object_ptrs s"
  "g_cap_object_count (chan_free p s) = g_cap_object_count s"
  "cap_object_cache (chan_free p s) = cap_object_cache s"
  "k_tasks (chan_free p s) = k_tasks s" "eps (chan_free p s) = eps s"
  by (simp_all add: chan_free_def Let_def)

lemma wake_both_sel [simp]:
  "g_cap_object_ptrs (wake_both p r s) = g_cap_object_ptrs s"
  "g_cap_object_count (wake_both p r s) = g_cap_object_count s"
  "cap_object_cache (wake_both p r s) = cap_object_cache s"
  "k_tasks (wake_both p r s) = k_tasks s" "eps (wake_both p r s) = eps s"
  "g_chan_reg_head (wake_both p r s) = g_chan_reg_head s"
  "chans (wake_both p r s) = (chans s)(p := map_option (\<lambda>c. c\<lparr>ch_read_waiters := [], ch_write_waiters := []\<rparr>) (chans s p))"
  by (auto simp: wake_both_def sched_wake_all_on_channel_def Let_def split: option.split)

lemma deactivate_caps [simp]:
  "g_cap_object_ptrs (cap_kind_deactivate ob s) = g_cap_object_ptrs s"
  "g_cap_object_count (cap_kind_deactivate ob s) = g_cap_object_count s"
  "cap_object_cache (cap_kind_deactivate ob s) = cap_object_cache s"
  "k_tasks (cap_kind_deactivate ob s) = k_tasks s"
  by (simp_all add: cap_kind_deactivate_def chan_endpoint_deactivate_def Let_def split: option.split)

interpretation kern: cap_hooks cap_kind_deactivate
  by unfold_locales simp_all

lemma cap_object_destroy_ptrs:
  "g_cap_object_ptrs (cap_object_destroy i s) =
    (if i = 0 \<or> i \<ge> CAP_OBJECT_CAPACITY then g_cap_object_ptrs s else (g_cap_object_ptrs s)(i := None))"
  unfolding cap_object_destroy_def by (rule kern.destroy_ptrs)

lemma cap_object_destroy_wf: "cap_wf s \<Longrightarrow> cap_wf (cap_object_destroy i s)"
  unfolding cap_object_destroy_def by (rule kern.destroy_wf)

lemma cap_object_destroy_tasks [simp]: "k_tasks (cap_object_destroy i s) = k_tasks s"
  by (auto simp: cap_object_destroy_def cap_object_destroy_with_def split: option.split)

section \<open>The ring as a bounded queue\<close>

text \<open>
  The contract a bounded FIFO promises its users, and what follows for any interleaving of
  insertions and removals: nothing is lost, duplicated or reordered.
\<close>

datatype 'm fifo_op = Put 'm | Get

fun fifo_run ::
  "('c \<Rightarrow> nat) \<Rightarrow> ('c \<Rightarrow> nat) \<Rightarrow> ('c \<Rightarrow> 'm \<Rightarrow> 'c) \<Rightarrow> ('c \<Rightarrow> 'v \<times> 'c) \<Rightarrow> ('c \<Rightarrow> 'm \<Rightarrow> 'v)
    \<Rightarrow> 'm fifo_op list \<Rightarrow> 'c \<Rightarrow> 'v list \<times> 'v list \<times> 'c" where
  "fifo_run cnt cap enq deq val [] c = ([], [], c)"
| "fifo_run cnt cap enq deq val (Put m # ops) c =
    (if cnt c < cap c then
       let (acc, rec, c') = fifo_run cnt cap enq deq val ops (enq c m) in (val c m # acc, rec, c')
     else fifo_run cnt cap enq deq val ops c)"
| "fifo_run cnt cap enq deq val (Get # ops) c =
    (if cnt c > 0 then
       let (v, c1) = deq c; (acc, rec, c') = fifo_run cnt cap enq deq val ops c1 in (acc, v # rec, c')
     else fifo_run cnt cap enq deq val ops c)"

locale bounded_fifo =
  fixes inv :: "'c \<Rightarrow> bool" and queue :: "'c \<Rightarrow> 'v list" and cnt cap :: "'c \<Rightarrow> nat"
    and enq :: "'c \<Rightarrow> 'm \<Rightarrow> 'c" and deq :: "'c \<Rightarrow> 'v \<times> 'c" and val :: "'c \<Rightarrow> 'm \<Rightarrow> 'v"
  assumes cnt_law: "inv c \<Longrightarrow> cnt c = length (queue c) \<and> cnt c \<le> cap c"
    and enq_law: "inv c \<Longrightarrow> cnt c < cap c
      \<Longrightarrow> inv (enq c m) \<and> queue (enq c m) = queue c @ [val c m] \<and> cap (enq c m) = cap c"
    and deq_law: "inv c \<Longrightarrow> cnt c > 0
      \<Longrightarrow> inv (snd (deq c)) \<and> queue c = fst (deq c) # queue (snd (deq c)) \<and> cap (snd (deq c)) = cap c"
begin

lemma run_fifo:
  "inv c \<Longrightarrow> fifo_run cnt cap enq deq val ops c = (acc, rec, c')
    \<Longrightarrow> inv c' \<and> queue c @ acc = rec @ queue c' \<and> cap c' = cap c"
proof (induction ops arbitrary: c acc rec c')
  case (Cons opn ops)
  show ?case
  proof (cases opn)
    case (Put m)
    show ?thesis
    proof (cases "cnt c < cap c")
      case True
      obtain a r d where f: "fifo_run cnt cap enq deq val ops (enq c m) = (a, r, d)" by (metis prod_cases3)
      note e = enq_law [OF Cons.prems(1) True, of m]
      have "acc = val c m # a" "rec = r" "c' = d" using Cons.prems(2) Put True f by simp_all
      with Cons.IH [OF conjunct1 [OF e] f] e show ?thesis by simp
    next
      case False
      then have "fifo_run cnt cap enq deq val ops c = (acc, rec, c')" using Cons.prems(2) Put by simp
      from Cons.IH [OF Cons.prems(1) this] show ?thesis .
    qed
  next
    case Get
    show ?thesis
    proof (cases "cnt c > 0")
      case True
      obtain v c1 where v: "deq c = (v, c1)" by fastforce
      obtain a r d where f: "fifo_run cnt cap enq deq val ops c1 = (a, r, d)" by (metis prod_cases3)
      note e = deq_law [OF Cons.prems(1) True, unfolded v fst_conv snd_conv]
      have "acc = a" "rec = v # r" "c' = d" using Cons.prems(2) Get True f v by simp_all
      with Cons.IH [OF conjunct1 [OF e] f] e show ?thesis by simp
    next
      case False
      then have "fifo_run cnt cap enq deq val ops c = (acc, rec, c')" using Cons.prems(2) Get by simp
      from Cons.IH [OF Cons.prems(1) this] show ?thesis .
    qed
  qed
qed simp

end

definition chan_wf :: "channel \<Rightarrow> bool" where
  "chan_wf c \<longleftrightarrow>
    0 < ch_capacity c \<and> length (ch_ring c) = ch_capacity c \<and> ch_head c < ch_capacity c
    \<and> ch_msgcount c \<le> ch_capacity c \<and> ch_tail c = (ch_head c + ch_msgcount c) mod ch_capacity c"

definition ring_queue :: "channel \<Rightarrow> channel_msg list" where
  "ring_queue c = map (\<lambda>i. ch_ring c ! ((ch_head c + i) mod ch_capacity c)) [0..<ch_msgcount c]"

lemma fresh_channel_wf: "0 < cap \<Longrightarrow> chan_wf (fresh_channel th m cap i own) \<and> ring_queue (fresh_channel th m cap i own) = []"
  by (simp add: chan_wf_def ring_queue_def fresh_channel_def)

lemma mod_add_inj:
  assumes "i < n" "j < n" "(h + i) mod n = (h + j) mod n"
  shows "i = (j :: nat)"
proof -
  have le: "a = b" if "a \<le> b" "b < n" "(h + b) mod n = (h + a) mod n" for a b :: nat
  proof -
    have "n dvd (h + b) - (h + a)" using that by (simp add: mod_eq_dvd_iff_nat)
    then have "b - a = 0" using that by (auto dest: dvd_imp_le)
    with that show ?thesis by simp
  qed
  show ?thesis using assms le [of i j] le [of j i] by (cases "i \<le> j") auto
qed

lemma ring_put_wf: "chan_wf c \<Longrightarrow> ch_msgcount c < ch_capacity c \<Longrightarrow> chan_wf (chan_ring_put c p m)"
  by (simp add: chan_wf_def chan_ring_put_def mod_Suc_eq)

lemma ring_put_queue:
  assumes "chan_wf c" "ch_msgcount c < ch_capacity c"
  shows "ring_queue (chan_ring_put c p m) = ring_queue c @ [stamp_msg c p m]"
proof -
  have "ch_ring (chan_ring_put c p m) ! ((ch_head c + i) mod ch_capacity c) = ch_ring c ! ((ch_head c + i) mod ch_capacity c)"
    if "i < ch_msgcount c" for i
  proof -
    have "(ch_head c + i) mod ch_capacity c \<noteq> ch_tail c"
      using assms that mod_add_inj [of i "ch_capacity c" "ch_msgcount c" "ch_head c"]
      by (auto simp: chan_wf_def)
    then show ?thesis by (simp add: chan_ring_put_def)
  qed
  moreover have "ch_tail c < length (ch_ring c)" using assms by (simp add: chan_wf_def)
  ultimately show ?thesis
    using assms by (simp add: ring_queue_def chan_ring_put_def chan_wf_def)
qed

lemma ring_get_wf: "chan_wf c \<Longrightarrow> 0 < ch_msgcount c \<Longrightarrow> chan_wf (snd (chan_ring_get c))"
  by (cases "ch_msgcount c") (auto simp: chan_wf_def chan_ring_get_def Let_def mod_add_left_eq)

lemma ring_get_queue:
  assumes "chan_wf c" "0 < ch_msgcount c"
  shows "ring_queue c = fst (chan_ring_get c) # ring_queue (snd (chan_ring_get c))"
proof -
  obtain n where n: "ch_msgcount c = Suc n" using assms by (cases "ch_msgcount c") auto
  let ?c = "snd (chan_ring_get c)"
  have "ch_ring ?c ! (((ch_head c + 1) mod ch_capacity c + i) mod ch_capacity c)
      = ch_ring c ! ((ch_head c + Suc i) mod ch_capacity c)" if "i < n" for i
  proof -
    have e: "((ch_head c + 1) mod ch_capacity c + i) mod ch_capacity c = (ch_head c + Suc i) mod ch_capacity c"
      by (simp add: mod_add_left_eq)
    have "(ch_head c + Suc i) mod ch_capacity c \<noteq> ch_head c"
      using assms(1) that n mod_add_inj [of "Suc i" "ch_capacity c" 0 "ch_head c"]
      by (auto simp: chan_wf_def)
    then show ?thesis unfolding e by (simp add: chan_ring_get_def Let_def)
  qed
  moreover have "ch_head c mod ch_capacity c = ch_head c" using assms by (simp add: chan_wf_def)
  ultimately show ?thesis
    using n by (simp add: ring_queue_def chan_ring_get_def Let_def map_upt_Suc del: upt_Suc)
qed

lemma ring_queue_length [simp]: "length (ring_queue c) = ch_msgcount c"
  by (simp add: ring_queue_def)

lemma ring_caps [simp]:
  "ch_capacity (chan_ring_put c p m) = ch_capacity c"
  "ch_capacity (snd (chan_ring_get c)) = ch_capacity c"
  by (simp_all add: chan_ring_put_def chan_ring_get_def Let_def)

interpretation ring: bounded_fifo chan_wf ring_queue ch_msgcount ch_capacity
  "\<lambda>c pm. chan_ring_put c (fst pm) (snd pm)" chan_ring_get "\<lambda>c pm. stamp_msg c (fst pm) (snd pm)"
proof
  show "ch_msgcount c = length (ring_queue c) \<and> ch_msgcount c \<le> ch_capacity c" if "chan_wf c" for c
    using that by (simp add: chan_wf_def)
  show "chan_wf (chan_ring_put c (fst m) (snd m))
      \<and> ring_queue (chan_ring_put c (fst m) (snd m)) = ring_queue c @ [stamp_msg c (fst m) (snd m)]
      \<and> ch_capacity (chan_ring_put c (fst m) (snd m)) = ch_capacity c"
    if "chan_wf c" "ch_msgcount c < ch_capacity c" for c m
    using ring_put_wf [OF that] ring_put_queue [OF that] by simp
  show "chan_wf (snd (chan_ring_get c)) \<and> ring_queue c = fst (chan_ring_get c) # ring_queue (snd (chan_ring_get c))
      \<and> ch_capacity (snd (chan_ring_get c)) = ch_capacity c"
    if "chan_wf c" "0 < ch_msgcount c" for c
    using ring_get_wf [OF that] ring_get_queue [OF that] by simp
qed

text \<open>Any interleaving of sends and receives on one ring: accepted messages, received messages, ring.\<close>

definition chan_fifo_run ::
  "(pid \<times> channel_msg) fifo_op list \<Rightarrow> channel \<Rightarrow> channel_msg list \<times> channel_msg list \<times> channel" where
  "chan_fifo_run = fifo_run ch_msgcount ch_capacity (\<lambda>c pm. chan_ring_put c (fst pm) (snd pm)) chan_ring_get
    (\<lambda>c pm. stamp_msg c (fst pm) (snd pm))"

lemma chan_fifo_run_simps [simp]:
  "chan_fifo_run [] c = ([], [], c)"
  "chan_fifo_run (Put m # ops) c =
    (if ch_msgcount c < ch_capacity c then
       let (acc, rec, c') = chan_fifo_run ops (chan_ring_put c (fst m) (snd m))
       in (stamp_msg c (fst m) (snd m) # acc, rec, c')
     else chan_fifo_run ops c)"
  "chan_fifo_run (Get # ops) c =
    (if ch_msgcount c > 0 then
       let (v, c1) = chan_ring_get c; (acc, rec, c') = chan_fifo_run ops c1 in (acc, v # rec, c')
     else chan_fifo_run ops c)"
  by (simp_all add: chan_fifo_run_def)

text \<open>Accepted messages are numbered consecutively.\<close>

lemma chan_fifo_seq:
  "chan_fifo_run ops c = (acc, rec, c') \<Longrightarrow>
    map (mh_seq \<circ> cm_header) acc = map (\<lambda>i. ch_seq_next c + of_nat i) [0..<length acc]
    \<and> ch_seq_next c' = ch_seq_next c + of_nat (length acc)"
proof (induction ops arbitrary: c acc rec c')
  case (Cons opn ops)
  show ?case
  proof (cases opn)
    case (Put m)
    show ?thesis
    proof (cases "ch_msgcount c < ch_capacity c")
      case True
      let ?c = "chan_ring_put c (fst m) (snd m)"
      obtain a r d where f: "chan_fifo_run ops ?c = (a, r, d)" by (metis prod_cases3)
      have e: "acc = stamp_msg c (fst m) (snd m) # a" "rec = r" "c' = d"
        using Cons.prems Put True f by simp_all
      have "ch_seq_next ?c = ch_seq_next c + 1" by (simp add: chan_ring_put_def)
      with Cons.IH [OF f] e show ?thesis
        by (simp add: stamp_msg_def map_upt_Suc algebra_simps del: upt_Suc)
    next
      case False
      then have "chan_fifo_run ops c = (acc, rec, c')" using Cons.prems Put by simp
      then show ?thesis by (rule Cons.IH)
    qed
  next
    case Get
    show ?thesis
    proof (cases "ch_msgcount c > 0")
      case True
      obtain v c1 where v: "chan_ring_get c = (v, c1)" by fastforce
      obtain a r d where f: "chan_fifo_run ops c1 = (a, r, d)" by (metis prod_cases3)
      have e: "acc = a" "rec = v # r" "c' = d" using Cons.prems Get True f v by simp_all
      have "ch_seq_next c1 = ch_seq_next c" using v by (auto simp: chan_ring_get_def Let_def)
      with Cons.IH [OF f] e show ?thesis by simp
    next
      case False
      then have "chan_fifo_run ops c = (acc, rec, c')" using Cons.prems Get by simp
      then show ?thesis by (rule Cons.IH)
    qed
  qed
qed simp

section \<open>Freezing lemmas\<close>

lemma chan_rewind_saved:
  assumes "chan_wf c" "ch_msgcount c < ch_capacity c"
  shows "chan_rewind (ch_head c) (ch_tail c) c = c"
proof -
  have h: "ch_head c mod ch_capacity c = ch_head c" "ch_tail c mod ch_capacity c = ch_tail c"
    using assms by (auto simp: chan_wf_def)
  have "(if ch_tail c \<ge> ch_head c then ch_tail c - ch_head c else ch_capacity c - ch_head c + ch_tail c) = ch_msgcount c"
  proof (cases "ch_head c + ch_msgcount c < ch_capacity c")
    case True
    with assms show ?thesis by (simp add: chan_wf_def)
  next
    case False
    have "ch_head c + ch_msgcount c - ch_capacity c < ch_capacity c"
      using assms by (auto simp: chan_wf_def)
    with False have "(ch_head c + ch_msgcount c) mod ch_capacity c = ch_head c + ch_msgcount c - ch_capacity c"
      by (simp add: le_mod_geq)
    then have "ch_tail c = ch_head c + ch_msgcount c - ch_capacity c"
      using assms by (simp add: chan_wf_def)
    with False assms show ?thesis by (auto simp: chan_wf_def)
  qed
  with h show ?thesis by (simp add: chan_rewind_def Let_def)
qed

lemma chan_rewind_full:
  assumes "chan_wf c" "ch_msgcount c = ch_capacity c"
  shows "ch_msgcount (chan_rewind (ch_head c) (ch_tail c) c) = 0"
proof -
  have "ch_tail c = ch_head c" using assms by (simp add: chan_wf_def)
  then show ?thesis by (simp add: chan_rewind_def Let_def)
qed

lemma wrap_count:
  assumes "h < n" "t < (n :: nat)"
  shows "t = (h + (if t \<ge> h then t - h else n - h + t)) mod n"
proof (cases "t \<ge> h")
  case False
  then have "h + (n - h + t) = n + t" using assms by simp
  with False assms show ?thesis by simp
qed (use assms in simp)

lemma chan_rewind_wf: "0 < ch_capacity c \<Longrightarrow> length (ch_ring c) = ch_capacity c \<Longrightarrow> chan_wf (chan_rewind h t c)"
proof -
  assume a: "0 < ch_capacity c" "length (ch_ring c) = ch_capacity c"
  let ?h = "h mod ch_capacity c" and ?t = "t mod ch_capacity c"
  have lt: "?h < ch_capacity c" "?t < ch_capacity c" using a by simp_all
  have "?t = (?h + (if ?t \<ge> ?h then ?t - ?h else ch_capacity c - ?h + ?t)) mod ch_capacity c"
    using lt by (rule wrap_count)
  with a lt show ?thesis by (auto simp: chan_wf_def chan_rewind_def Let_def)
qed

section \<open>Registry lemmas\<close>

definition reg_wf :: "'a chan_state_scheme \<Rightarrow> ptr list \<Rightarrow> bool" where
  "reg_wf s ps \<longleftrightarrow>
    dseg (reg_nx s) (reg_pv s) NULL ps NULL \<and> distinct ps \<and> g_chan_reg_head s = hd0 ps NULL
    \<and> (\<forall>p\<in>set ps. chans s p \<noteq> None)"

lemma reg_fields_upd:
  "reg_nx (upd_chan p f s) = (\<lambda>q. if q = p then (case chans s p of None \<Rightarrow> NULL | Some c \<Rightarrow> ch_reg_next (f c)) else reg_nx s q)"
  "reg_pv (upd_chan p f s) = (\<lambda>q. if q = p then (case chans s p of None \<Rightarrow> NULL | Some c \<Rightarrow> ch_reg_prev (f c)) else reg_pv s q)"
  by (auto simp: reg_nx_def reg_pv_def fun_eq_iff split: option.split)

lemma reg_fields_set [simp]:
  "reg_pv (upd_chan p (\<lambda>c. c\<lparr>ch_reg_next := n\<rparr>) s) = reg_pv s"
  "reg_nx (upd_chan p (\<lambda>c. c\<lparr>ch_reg_prev := n\<rparr>) s) = reg_nx s"
  "chans s p \<noteq> None \<Longrightarrow> reg_nx (upd_chan p (\<lambda>c. c\<lparr>ch_reg_next := n\<rparr>) s) = (reg_nx s)(p := n)"
  "chans s p \<noteq> None \<Longrightarrow> reg_pv (upd_chan p (\<lambda>c. c\<lparr>ch_reg_prev := n\<rparr>) s) = (reg_pv s)(p := n)"
  by (auto simp: reg_nx_def reg_pv_def fun_eq_iff split: option.split)

lemma reg_fields_head [simp]:
  "reg_nx (s\<lparr>g_chan_reg_head := h\<rparr>) = reg_nx s" "reg_pv (s\<lparr>g_chan_reg_head := h\<rparr>) = reg_pv s"
  by (simp_all add: reg_nx_def reg_pv_def fun_eq_iff)

lemma reg_wf_cong:
  assumes "reg_wf s ps" "g_chan_reg_head s' = g_chan_reg_head s"
    and "\<And>p c. p \<in> set ps \<Longrightarrow> chans s p = Some c
      \<Longrightarrow> \<exists>c'. chans s' p = Some c' \<and> ch_reg_next c' = ch_reg_next c \<and> ch_reg_prev c' = ch_reg_prev c"
  shows "reg_wf s' ps"
proof -
  have "reg_nx s' p = reg_nx s p \<and> reg_pv s' p = reg_pv s p" if "p \<in> set ps" for p
  proof -
    from assms(1) that obtain c where c: "chans s p = Some c" by (auto simp: reg_wf_def)
    from assms(3) [OF that c] c show ?thesis by (auto simp: reg_nx_def reg_pv_def)
  qed
  then have "dseg (reg_nx s') (reg_pv s') NULL ps NULL = dseg (reg_nx s) (reg_pv s) NULL ps NULL"
    by (intro dseg_cong) simp
  moreover have "\<forall>p\<in>set ps. chans s' p \<noteq> None"
    using assms(1,3) unfolding reg_wf_def by fastforce
  ultimately show ?thesis using assms(1,2) by (simp add: reg_wf_def)
qed

lemma chan_reg_link_wf:
  assumes "reg_wf s ps" "p \<noteq> NULL" "p \<notin> set ps" "chans s p \<noteq> None"
  shows "reg_wf (chan_reg_link p s) (p # ps)"
proof -
  from assms obtain c where c: "chans s p = Some c" by auto
  from assms(1) have d: "dseg (reg_nx s) (reg_pv s) NULL ps NULL" "distinct ps" "g_chan_reg_head s = hd0 ps NULL"
    and live: "\<forall>q\<in>set ps. chans s q \<noteq> None" by (auto simp: reg_wf_def)
  have hn: "hd0 ps NULL \<noteq> NULL \<longleftrightarrow> ps \<noteq> []" using dseg_nonnull [OF d(1)] hd0_in [of ps NULL]
    by (cases "ps = []") auto
  have hl: "ps \<noteq> [] \<Longrightarrow> \<exists>y. chans s (hd ps) = Some y" using live by simp
  have nx: "reg_nx (chan_reg_link p s) = (reg_nx s)(p := hd0 ps NULL)"
    and pv: "reg_pv (chan_reg_link p s) = (if ps = [] then (reg_pv s)(p := NULL) else ((reg_pv s)(p := NULL))(hd ps := p))"
    using c d(3) hn hl assms(3)
    by (auto simp: chan_reg_link_def Let_def reg_nx_def reg_pv_def fun_eq_iff hd0_def split: option.splits)
  have "dseg (reg_nx (chan_reg_link p s)) (reg_pv (chan_reg_link p s)) NULL (p # ps) NULL"
    by (rule dseg_push [OF d(1) _ assms(2) nx pv]) (use d assms in simp)
  moreover have "g_chan_reg_head (chan_reg_link p s) = p" by (simp add: chan_reg_link_def Let_def)
  moreover have "\<forall>q\<in>set (p # ps). chans (chan_reg_link p s) q \<noteq> None"
    using c live by (auto simp: chan_reg_link_def Let_def)
  ultimately show ?thesis using d assms by (simp add: reg_wf_def)
qed

lemma chan_reg_unlink_wf:
  assumes "reg_wf s (ps @ p # qs)"
  shows "reg_wf (chan_reg_unlink p s) (ps @ qs)"
proof -
  let ?s = "chan_reg_unlink p s"
  from assms have d: "dseg (reg_nx s) (reg_pv s) NULL (ps @ p # qs) NULL" and di: "distinct (ps @ p # qs)"
    and h: "g_chan_reg_head s = hd0 (ps @ p # qs) NULL"
    and live: "\<forall>q\<in>set (ps @ p # qs). chans s q \<noteq> None" by (auto simp: reg_wf_def)
  let ?nx = "if reg_pv s p \<noteq> NULL then (reg_nx s)(reg_pv s p := reg_nx s p) else reg_nx s"
  let ?pv = "if reg_nx s p \<noteq> NULL then (reg_pv s)(reg_nx s p := reg_pv s p) else reg_pv s"
  note u = dseg_unlink [OF d di refl refl]
  have nn: "NULL \<notin> set (ps @ p # qs)" using dseg_nonnull [OF d] .
  have pin: "reg_pv s p \<noteq> NULL \<Longrightarrow> reg_pv s p \<in> set ps" "reg_pv s p = NULL \<longleftrightarrow> ps = []"
    using u(2) nn last0_in [of ps NULL] by (cases "ps = []"; auto)+
  have nin: "reg_nx s p \<noteq> NULL \<Longrightarrow> reg_nx s p \<in> set qs" 
    using u(3) nn hd0_in [of qs NULL] by (cases "qs = []") auto
  have lp: "reg_pv s p \<noteq> NULL \<Longrightarrow> chans s (reg_pv s p) \<noteq> None" using live pin(1) by auto
  have ln: "reg_nx s p \<noteq> NULL \<Longrightarrow> chans s (reg_nx s p) \<noteq> None" using live nin by auto
  have eq: "reg_nx ?s q = ?nx q \<and> reg_pv ?s q = ?pv q" if "q \<in> set (ps @ qs)" for q
  proof -
    have qp: "q \<noteq> p" using that di by auto
    show ?thesis
    proof (cases "reg_pv s p = NULL")
      case True
      then show ?thesis using qp ln
        by (cases "reg_nx s p = NULL") (auto simp: chan_reg_unlink_def Let_def reg_fields_upd(1,2) [where p = p])
    next
      case False
      then show ?thesis using qp ln lp
        by (cases "reg_nx s p = NULL") (auto simp: chan_reg_unlink_def Let_def reg_fields_upd(1,2) [where p = p])
    qed
  qed
  have "dseg (reg_nx ?s) (reg_pv ?s) NULL (ps @ qs) NULL"
    by (subst dseg_cong [of "ps @ qs" "reg_nx ?s" ?nx "reg_pv ?s" ?pv]) (use eq u(1) in auto)
  moreover have "g_chan_reg_head ?s = hd0 (ps @ qs) NULL"
    using h pin(2) u(3) by (cases "ps = []") (auto simp: chan_reg_unlink_def Let_def hd0_def)
  moreover have "\<forall>q\<in>set (ps @ qs). chans ?s q \<noteq> None"
    using live by (auto simp: chan_reg_unlink_def Let_def)
  ultimately show ?thesis using di by (simp add: reg_wf_def)
qed

lemma chan_lookup_by_id_spec:
  assumes "reg_wf s ps" "cid \<noteq> 0"
  shows "chan_lookup_by_id s cid =
    Some (case find (\<lambda>p. map_option ch_id (chans s p) = Some cid) ps of Some p \<Rightarrow> p | None \<Rightarrow> NULL)"
proof -
  from assms(1) have "sseg (reg_nx s) ps NULL" "g_chan_reg_head s = hd0 ps NULL"
    by (auto simp: reg_wf_def dest: dseg_sseg)
  from find_next_sseg [OF this(1)] this(2) assms(2) show ?thesis
    unfolding chan_lookup_by_id_def by (simp only: if_False)
qed

section \<open>Channel creation\<close>

lemma object_token_resolves:
  assumes "core_at s i = Some (core ob)" "i \<noteq> 0" "i < CAP_OBJECT_CAPACITY" "\<not> co_deleted ob"
    and "cap_token_validate_audience (Some ob) p" "has_all (co_rights ob) r"
  shows "\<exists>ob'. cap_token_resolve s p (object_token s i) r = Some ob' \<and> core ob' = core ob"
proof -
  from assms(1) obtain ob' where ob': "g_cap_object_ptrs s i = Some ob'" and c: "core ob' = core ob"
    by (auto simp: core_at_def)
  have i: "unat (cap_token_idx (cap_token_pack g (of_nat i) 0)) = i" for g
    using assms(3) by (intro cap_token_idx_pack_nat) simp
  from c assms(4-6) have "\<not> co_deleted ob'" "cap_token_validate_audience (Some ob') p" "has_all (co_rights ob') r"
    by (simp_all add: cap_token_validate_audience_def core_eq_sel [OF c])
  with assms(2,3) ob' c show ?thesis
    unfolding cap_token_resolve_Some_iff by (simp add: object_token_def i Let_def)
qed

lemma fresh_endpoint_audience:
  "p \<noteq> PID_NONE \<Longrightarrow> p \<in> set (audience (cap_object_fresh k r (Some [p, PID_NONE]) fl kd own par))"
  by (simp add: fresh_audience cap_object_copy_audience_def)

text \<open>An endpoint object, and that its token opens the endpoint.\<close>

definition endpoint_at :: "'a chan_state_scheme \<Rightarrow> pid \<Rightarrow> nat \<Rightarrow> u64 \<Rightarrow> ptr \<Rightarrow> bool" where
  "endpoint_at s p i r e \<longleftrightarrow>
    i \<noteq> 0 \<and> i < CAP_OBJECT_CAPACITY
    \<and> core_at s i = Some (core (cap_object_fresh CAP_KIND_CHANNEL r (Some [p, PID_NONE]) 0 e p CAP_OBJECT_IDX_NONE))"

lemma endpoint_at_resolves:
  assumes "endpoint_at s p i r e" "p \<noteq> PID_NONE" "has_all r q" "e \<noteq> NULL"
    and "eps s e = Some ep" "ep_direction ep = dir" "chans s (ep_channel ep) = Some c" "chan_ok c" "ep_channel ep \<noteq> NULL"
  shows "chan_resolve_endpoint s p (object_token s i) dir q
    = Inr (ep_channel ep, if dir = CHAN_ENDPOINT_READ then ch_read_cap_idx c else ch_write_cap_idx c)"
proof -
  let ?ob = "cap_object_fresh CAP_KIND_CHANNEL r (Some [p, PID_NONE]) 0 e p CAP_OBJECT_IDX_NONE"
  have f: "\<not> co_deleted ?ob" "co_rights ?ob = r" "co_kind ?ob = CAP_KIND_CHANNEL" "co_kind_data ?ob = e"
    by (simp_all add: cap_object_fresh_def Let_def case_prod_beta cap_object_zero_def)
  have "cap_token_validate_audience (Some ?ob) p"
    using fresh_endpoint_audience [OF assms(2)] by (simp add: cap_token_validate_audience_def)
  then obtain ob' where r: "cap_token_resolve s p (object_token s i) q = Some ob'" and c: "core ob' = core ?ob"
    using object_token_resolves [of s i ?ob p q] assms(1,3) f by (auto simp: endpoint_at_def)
  from core_eq_sel(1,5) [OF c] f assms show ?thesis
    by (simp add: chan_resolve_endpoint_def r chan_check_def)
qed

lemma chan_create_publish_InrD:
  assumes "chan_create_publish al p cp ri wi s = Some (Inr (rt, wt), s')"
  shows "chans s' = chans (upd_chan cp (\<lambda>c. c\<lparr>ch_read_cap_idx := ri, ch_write_cap_idx := wi\<rparr>) s)"
    "eps s' = eps s" "g_chan_reg_head s' = g_chan_reg_head s" "g_cap_object_ptrs s' = g_cap_object_ptrs s"
    "rt = object_token s' ri" "wt = object_token s' wi"
  using assms by (auto simp: chan_create_publish_def Let_def object_token_def split: option.splits if_splits)

lemma chan_create_InrD:
  assumes "chan_create al th m n p s = Some (Inr (rt, wt), s')"
    and "al_channel al = Some cp" "al_rd_ep al = Some rd" "al_wr_ep al = Some wr"
  obtains s1 s2 s3 ri wi where
    "s1 = put_ep wr \<lparr>ep_channel = cp, ep_direction = CHAN_ENDPOINT_WRITE, ep_current_holder_pid = p\<rparr>
      (put_ep rd \<lparr>ep_channel = cp, ep_direction = CHAN_ENDPOINT_READ, ep_current_holder_pid = p\<rparr>
        (chan_reg_link cp (put_chan cp (fresh_channel th m n (g_next_chan_id s) p)
          (s\<lparr>g_next_chan_id := g_next_chan_id s + 1\<rparr>))))"
    "cap_object_create (al_rd_obj al) CAP_KIND_CHANNEL CHAN_RD_RIGHTS (Some [p, PID_NONE]) 0 rd p
      CAP_OBJECT_IDX_NONE s1 = (Inr ri, s2)"
    "cap_object_create (al_wr_obj al) CAP_KIND_CHANNEL CHAN_WR_RIGHTS (Some [p, PID_NONE]) 0 wr p
      CAP_OBJECT_IDX_NONE s2 = (Inr wi, s3)"
    "chan_create_publish al p cp ri wi s3 = Some (Inr (rt, wt), s')" "0 < n"
  using assms
  by (auto simp: chan_create_def Let_def next_chan_id_def split: if_splits prod.splits sum.splits)

lemma rd_wr_rights:
  "has_all CHAN_RD_RIGHTS (RIGHT_READ OR RIGHT_RECV)" "has_all CHAN_WR_RIGHTS (RIGHT_WRITE OR RIGHT_SEND)"
  by (simp_all add: has_all_def)

text \<open>Linking changes no channel but for the registry links.\<close>

definition unlinked :: "channel \<Rightarrow> channel" where
  "unlinked c = c\<lparr>ch_reg_next := NULL, ch_reg_prev := NULL\<rparr>"

lemma unlinked_upd [simp]:
  "unlinked (c\<lparr>ch_reg_next := x\<rparr>) = unlinked c" "unlinked (c\<lparr>ch_reg_prev := x\<rparr>) = unlinked c"
  by (simp_all add: unlinked_def)

lemma unlinked_eqD:
  assumes "unlinked a = unlinked b"
  shows "chan_ok a = chan_ok b" "chan_wf a = chan_wf b" "ring_queue a = ring_queue b"
    "ch_capacity a = ch_capacity b" "ch_type_hash a = ch_type_hash b"
proof -
  have "channel.more a = channel.more b" "ch_magic a = ch_magic b" "ch_ring a = ch_ring b" "ch_head a = ch_head b"
    "ch_tail a = ch_tail b" "ch_msgcount a = ch_msgcount b"
    and c: "ch_capacity a = ch_capacity b" "ch_type_hash a = ch_type_hash b"
    using assms by (cases a; cases b; simp add: unlinked_def)+
  then show "chan_ok a = chan_ok b" "chan_wf a = chan_wf b" "ring_queue a = ring_queue b"
    "ch_capacity a = ch_capacity b" "ch_type_hash a = ch_type_hash b"
    by (simp_all add: chan_ok_def chan_wf_def ring_queue_def)
qed

lemma chan_reg_link_unlinked:
  "map_option unlinked (chans (chan_reg_link p s) q) = map_option unlinked (chans s q)"
  by (simp add: chan_reg_link_def Let_def option.map_comp comp_def)

lemma chan_create_spec:
  assumes c: "chan_create al th m n p s = Some (Inr (rt, wt), s')"
    and a: "al_channel al = Some cp" "al_rd_ep al = Some rd" "al_wr_ep al = Some wr"
    and nn: "p \<noteq> PID_NONE" "cp \<noteq> NULL" "rd \<noteq> NULL" "wr \<noteq> NULL" "rd \<noteq> wr"
    and reg: "reg_wf s ps" "cp \<notin> set ps"
  shows "\<exists>ri wi ch. chan_resolve_endpoint s' p rt CHAN_ENDPOINT_READ (RIGHT_READ OR RIGHT_RECV) = Inr (cp, ri)
      \<and> chan_resolve_endpoint s' p wt CHAN_ENDPOINT_WRITE (RIGHT_WRITE OR RIGHT_SEND) = Inr (cp, wi)
      \<and> chans s' cp = Some ch \<and> chan_wf ch \<and> ring_queue ch = [] \<and> ch_capacity ch = n \<and> ch_type_hash ch = th"
    and "reg_wf s' (cp # ps)"
proof -
  from chan_create_InrD [OF c a] obtain s1 s2 s3 ri wi where
    s1: "s1 = put_ep wr \<lparr>ep_channel = cp, ep_direction = CHAN_ENDPOINT_WRITE, ep_current_holder_pid = p\<rparr>
      (put_ep rd \<lparr>ep_channel = cp, ep_direction = CHAN_ENDPOINT_READ, ep_current_holder_pid = p\<rparr>
        (chan_reg_link cp (put_chan cp (fresh_channel th m n (g_next_chan_id s) p)
          (s\<lparr>g_next_chan_id := g_next_chan_id s + 1\<rparr>))))" (is "_ = put_ep wr _ (put_ep rd _ (chan_reg_link cp ?s0))")
    and cr: "cap_object_create (al_rd_obj al) CAP_KIND_CHANNEL CHAN_RD_RIGHTS (Some [p, PID_NONE]) 0 rd p
      CAP_OBJECT_IDX_NONE s1 = (Inr ri, s2)"
    and cw: "cap_object_create (al_wr_obj al) CAP_KIND_CHANNEL CHAN_WR_RIGHTS (Some [p, PID_NONE]) 0 wr p
      CAP_OBJECT_IDX_NONE s2 = (Inr wi, s3)"
    and pub: "chan_create_publish al p cp ri wi s3 = Some (Inr (rt, wt), s')" and n: "0 < n" .
  note P = chan_create_publish_InrD [OF pub]
  note R = cap_object_create_InrD [OF cr]
  note W = cap_object_create_InrD [OF cw]
  have "g_cap_object_ptrs s2 ri \<noteq> None" using R(4) by (auto simp: core_at_def)
  with W(3) have "ri \<noteq> wi" by auto
  have core: "core_at s' i = core_at s3 i" for i using P(4) by (simp add: core_at_def)
  have eR: "endpoint_at s' p ri CHAN_RD_RIGHTS rd"
    using R(1,2,4) W(5) [OF \<open>ri \<noteq> wi\<close>] by (simp add: endpoint_at_def core)
  have eW: "endpoint_at s' p wi CHAN_WR_RIGHTS wr" using W(1,2,4) by (simp add: endpoint_at_def core)
  have ceq: "chans s3 = chans s1" "eps s3 = eps s1" "g_chan_reg_head s3 = g_chan_reg_head s1"
    using chan_more_cong [OF R(9)] chan_more_cong [OF W(9)] by simp_all
  have reg0: "reg_wf ?s0 ps"
    by (rule reg_wf_cong [OF reg(1)]) (use reg(2) in \<open>auto simp: fun_upd_apply\<close>)
  have l: "reg_wf (chan_reg_link cp ?s0) (cp # ps)"
    by (rule chan_reg_link_wf [OF reg0 nn(2) reg(2)]) simp
  show "reg_wf s' (cp # ps)"
    by (rule reg_wf_cong [OF l]) (auto simp: P ceq s1)
  obtain ch where ch: "chans s1 cp = Some ch" and chf: "chan_ok ch" "chan_wf ch" "ring_queue ch = []"
    "ch_capacity ch = n" "ch_type_hash ch = th"
  proof -
    let ?f = "fresh_channel th m n (g_next_chan_id s) p"
    have "map_option unlinked (chans s1 cp) = Some (unlinked ?f)"
      unfolding s1 by (simp add: chan_reg_link_unlinked del: map_option_eq_Some)
    then obtain d where d: "chans s1 cp = Some d" "unlinked d = unlinked ?f" by (cases "chans s1 cp") auto
    have "chan_ok ?f" "ring_queue ?f = []" "ch_capacity ?f = n" "ch_type_hash ?f = th"
      using n by (simp_all add: fresh_channel_def chan_ok_def ring_queue_def)
    with that d unlinked_eqD [OF d(2)] fresh_channel_wf [OF n] show ?thesis by simp
  qed
  let ?ch = "ch\<lparr>ch_read_cap_idx := ri, ch_write_cap_idx := wi\<rparr>"
  have ch': "chans s' cp = Some ?ch" using ch by (simp add: P(1) ceq)
  have ok: "chan_ok ?ch" "chan_wf ?ch" "ring_queue ?ch = []" "ch_capacity ?ch = n" "ch_type_hash ?ch = th"
    using chf by (simp_all add: chan_ok_def chan_wf_def ring_queue_def)
  have "chan_resolve_endpoint s' p rt CHAN_ENDPOINT_READ (RIGHT_READ OR RIGHT_RECV) = Inr (cp, ri)"
    using endpoint_at_resolves [OF eR nn(1) rd_wr_rights(1) nn(3), of _ CHAN_ENDPOINT_READ ?ch] ch' ok nn P(2,5) ceq
    by (simp add: s1)
  moreover have "chan_resolve_endpoint s' p wt CHAN_ENDPOINT_WRITE (RIGHT_WRITE OR RIGHT_SEND) = Inr (cp, wi)"
    using endpoint_at_resolves [OF eW nn(1) rd_wr_rights(2) nn(4), of _ CHAN_ENDPOINT_WRITE ?ch] ch' ok nn P(2,6) ceq
    by (simp add: s1)
  ultimately show "\<exists>ri wi ch. chan_resolve_endpoint s' p rt CHAN_ENDPOINT_READ (RIGHT_READ OR RIGHT_RECV) = Inr (cp, ri)
      \<and> chan_resolve_endpoint s' p wt CHAN_ENDPOINT_WRITE (RIGHT_WRITE OR RIGHT_SEND) = Inr (cp, wi)
      \<and> chans s' cp = Some ch \<and> chan_wf ch \<and> ring_queue ch = [] \<and> ch_capacity ch = n \<and> ch_type_hash ch = th"
    using ch' ok by blast
qed

section \<open>Freezing the whole registry\<close>

lemma chan_walk_fold:
  assumes "reg_wf s ps" "\<And>p s. reg_nx (f p s) = reg_nx s"
  shows "chan_walk f (hd0 ps NULL) s = Some (fold f ps s)"
proof -
  have "sseg (reg_nx s) ps NULL \<Longrightarrow> chan_walk f (hd0 ps NULL) s = Some (fold f ps s)"
  proof (induction ps arbitrary: s)
    case (Cons p ps)
    then show ?case by (subst chan_walk.simps) (simp add: assms(2) Let_def)
  qed (simp add: chan_walk.simps)
  with assms(1) show ?thesis by (auto simp: reg_wf_def dest: dseg_sseg)
qed

lemma fold_chans:
  assumes "distinct ps" "\<And>p s. chans (f p s) = (chans s)(p := g p (chans s p))"
  shows "chans (fold f ps s) q = (if q \<in> set ps then g q (chans s q) else chans s q)"
  using assms(1) by (induction ps arbitrary: s) (auto simp: assms(2))

text \<open>What freezing and thawing (without a rewind) do to one channel.\<close>

definition frozen_chan :: "u64 \<Rightarrow> ptr \<Rightarrow> channel option \<Rightarrow> channel option" where
  "frozen_chan snap p co =
    (case co of None \<Rightarrow> None
     | Some c \<Rightarrow>
        if p \<noteq> NULL \<and> chan_ok c \<and> (ch_frozen_at_snap c = 0 \<or> ch_frozen_at_snap c = snap)
        then Some (c\<lparr>ch_frozen_at_snap := snap, ch_saved_head := ch_head c, ch_saved_tail := ch_tail c,
                    ch_saved_msgcount := ch_msgcount c, ch_read_waiters := [], ch_write_waiters := []\<rparr>)
        else Some c)"

definition thawed_chan :: "u64 \<Rightarrow> ptr \<Rightarrow> channel option \<Rightarrow> channel option" where
  "thawed_chan snap p co =
    (case co of None \<Rightarrow> None
     | Some c \<Rightarrow>
        if p \<noteq> NULL \<and> chan_ok c \<and> ch_frozen_at_snap c = snap
        then Some (c\<lparr>ch_frozen_at_snap := 0, ch_read_waiters := [], ch_write_waiters := []\<rparr>)
        else Some c)"

abbreviation freeze_step :: "u64 \<Rightarrow> ptr \<Rightarrow> 'a chan_state_scheme \<Rightarrow> 'a chan_state_scheme" where
  "freeze_step snap \<equiv> (\<lambda>p s. snd (chan_freeze_locked p snap s))"

abbreviation thaw_step :: "u64 \<Rightarrow> ptr \<Rightarrow> 'a chan_state_scheme \<Rightarrow> 'a chan_state_scheme" where
  "thaw_step snap \<equiv> (\<lambda>p s. if map_option ch_frozen_at_snap (chans s p) = Some snap
                            then snd (chan_thaw_locked p CHAN_THAW_KEEP CHAN_THAW_KEEP s) else s)"

lemma freeze_step_chans:
  "snap \<noteq> 0 \<Longrightarrow> chans (freeze_step snap p s) = (chans s)(p := frozen_chan snap p (chans s p))"
  "g_chan_reg_head (freeze_step snap p s) = g_chan_reg_head s"
  by (auto simp: chan_freeze_locked_def chan_check_def frozen_chan_def fun_eq_iff split: option.splits)

lemma thaw_step_chans:
  "snap \<noteq> 0 \<Longrightarrow> chans (thaw_step snap p s) = (chans s)(p := thawed_chan snap p (chans s p))"
  "g_chan_reg_head (thaw_step snap p s) = g_chan_reg_head s"
  by (auto simp: chan_thaw_locked_def chan_check_def thawed_chan_def fun_eq_iff Let_def split: option.splits)

lemma step_reg_nx:
  "snap \<noteq> 0 \<Longrightarrow> reg_nx (freeze_step snap p s) = reg_nx s" "snap \<noteq> 0 \<Longrightarrow> reg_nx (thaw_step snap p s) = reg_nx s"
  unfolding reg_nx_def fun_eq_iff freeze_step_chans(1) thaw_step_chans(1)
  by (auto simp: frozen_chan_def thawed_chan_def split: option.split)

lemma fold_head:
  assumes "\<And>p s. g_chan_reg_head (f p s) = g_chan_reg_head s"
  shows "g_chan_reg_head (fold f ps s) = g_chan_reg_head s"
  by (induction ps arbitrary: s) (simp_all add: assms)

lemma freeze_all_spec:
  assumes "reg_wf s ps" "snap \<noteq> 0"
  obtains s' where "chan_freeze_all_locked snap s = Some (CAP_V2_OK, s')" "reg_wf s' ps"
    "\<And>q. chans s' q = (if q \<in> set ps then frozen_chan snap q (chans s q) else chans s q)"
proof -
  let ?s = "fold (freeze_step snap) ps s"
  have d: "distinct ps" "g_chan_reg_head s = hd0 ps NULL" using assms(1) by (auto simp: reg_wf_def)
  have w: "chan_walk (freeze_step snap) (hd0 ps NULL) s = Some ?s"
    by (rule chan_walk_fold [OF assms(1)]) (rule step_reg_nx(1) [OF assms(2)])
  have ch: "chans ?s q = (if q \<in> set ps then frozen_chan snap q (chans s q) else chans s q)" for q
    by (rule fold_chans [OF d(1)]) (rule freeze_step_chans(1) [OF assms(2)])
  have "reg_wf ?s ps"
    by (rule reg_wf_cong [OF assms(1)]) (auto simp: fold_head freeze_step_chans(2) ch frozen_chan_def)
  with that [of ?s] w ch d assms(2) show ?thesis by (simp add: chan_freeze_all_locked_def)
qed

lemma thaw_all_spec:
  assumes "reg_wf s ps" "snap \<noteq> 0"
  obtains s' where "chan_thaw_all_locked snap s = Some (CAP_V2_OK, s')" "reg_wf s' ps"
    "\<And>q. chans s' q = (if q \<in> set ps then thawed_chan snap q (chans s q) else chans s q)"
proof -
  let ?s = "fold (thaw_step snap) ps s"
  have d: "distinct ps" "g_chan_reg_head s = hd0 ps NULL" using assms(1) by (auto simp: reg_wf_def)
  have w: "chan_walk (thaw_step snap) (hd0 ps NULL) s = Some ?s"
    by (rule chan_walk_fold [OF assms(1)]) (rule step_reg_nx(2) [OF assms(2)])
  have ch: "chans ?s q = (if q \<in> set ps then thawed_chan snap q (chans s q) else chans s q)" for q
    by (rule fold_chans [OF d(1)]) (rule thaw_step_chans(1) [OF assms(2)])
  have "reg_wf ?s ps"
  proof (rule reg_wf_cong [OF assms(1)])
    show "g_chan_reg_head ?s = g_chan_reg_head s" by (rule fold_head) (rule thaw_step_chans(2))
  qed (unfold ch, auto simp: thawed_chan_def)
  from that [OF _ this ch] w d assms(2) show ?thesis unfolding chan_thaw_all_locked_def by (simp only: if_False option.map)
qed

section \<open>The manifest hashes\<close>

text \<open>
  The low 16 bits of an FNV-1a hash depend only on the low 16 bits of each intermediate value, so
  they can be computed on small numbers.
\<close>

fun fnv_low :: "nat \<Rightarrow> nat list \<Rightarrow> nat" where
  "fnv_low hash [] = hash"
| "fnv_low hash (b # bs) = fnv_low (((hash XOR b) * 435) mod 65536) bs"

lemma fnv_step:
  "unat ((h XOR ucast b) * 1099511628211 :: u64) mod 65536
    = ((unat h mod 65536 XOR unat (b :: u8)) * 435) mod 65536"
proof -
  have "unat ((h XOR ucast b) * 1099511628211) mod 65536 = (unat (h XOR ucast b) * 1099511628211) mod 65536"
    by (simp add: unat_word_ariths(2) mod_mod_cancel)
  also have "\<dots> = (unat (h XOR ucast b) mod 65536 * (1099511628211 mod 65536)) mod 65536"
    by (simp only: mod_mult_eq)
  also have "unat (h XOR ucast b) mod 65536 = (unat h mod 65536 XOR unat b)"
  proof -
    have "unat b < 65536" using unsigned_less [of b, where ?'a = nat] by simp
    then have b: "take_bit 16 (unat b) = unat b" "unat (ucast b :: u64) = unat b"
      by (simp_all add: unsigned_ucast_eq take_bit_nat_eq_self)
    have "unat (h XOR ucast b) mod 65536 = take_bit 16 (unat (h XOR ucast b))" by (simp add: take_bit_eq_mod)
    also have "\<dots> = take_bit 16 (unat h) XOR take_bit 16 (unat (ucast b :: u64))"
      by (simp add: unsigned_xor_eq take_bit_xor)
    finally show ?thesis using b by (simp add: take_bit_eq_mod)
  qed
  finally show ?thesis by simp
qed

lemma fnv_low_loop: "unat (fnv1a_loop h bs) mod 65536 = fnv_low (unat h mod 65536) (map unat bs)"
  by (induction bs arbitrary: h) (simp_all add: fnv_step)

lemma unat_of_char: "unat (of_char c :: u8) = of_char c"
proof -
  have "(of_char c :: nat) < 256" by simp
  then have "unat (of_nat (of_char c) :: u8) = of_char c"
    by (simp only: unsigned_of_nat) (simp add: take_bit_nat_eq_self)
  then show ?thesis by (simp only: of_nat_of_char)
qed

lemma manifest_hash_low:
  "unat (manifest_compute_hash n) mod 65536 = fnv_low 8997 (map of_char n)"
  by (simp add: manifest_compute_hash_def fnv1a_hash64_def fnv_low_loop comp_def unat_of_char)

lemma manifest_hashes_distinct: "distinct (map manifest_compute_hash manifest_names)"
proof -
  have "distinct (map (\<lambda>n. fnv_low 8997 (map of_char n)) manifest_names)" by code_simp
  then have "distinct (map (\<lambda>h. unat h mod 65536) (map manifest_compute_hash manifest_names))"
    by (simp add: comp_def manifest_hash_low)
  then show ?thesis unfolding distinct_map by simp
qed

section \<open>Properties\<close>

text \<open>
  the thirteen manifest types have pairwise different FNV-1a hashes, so the channel type gate
  tells them apart, and after \<open>manifest_init\<close> exactly these hashes are known types.
\<close>

theorem manifest_types_distinct:
  "distinct (g_hashes (manifest_init s)) \<and> length (g_hashes (manifest_init s)) = 13
   \<and> (manifest_type_known (manifest_init s) h \<longleftrightarrow> h \<in> set (map manifest_compute_hash manifest_names))"
  using manifest_hashes_distinct by (simp add: manifest_init_def manifest_type_known_def manifest_names_def)

text \<open>
  C4: a channel is a bounded first-in first-out queue. For any interleaving of insertions (refused
  when the ring is full) and removals (refused when it is empty) on a well-formed channel, the
  messages taken out, followed by those still queued, are the messages queued at the start followed
  by the accepted ones, in order; accepted messages carry consecutive sequence numbers; and the
  channel stays well-formed with at most its capacity queued.
\<close>

theorem chan_ring_fifo:
  assumes "chan_wf c" "chan_fifo_run ops c = (acc, rec, c')"
  shows "ring_queue c @ acc = rec @ ring_queue c'
    \<and> map (mh_seq \<circ> cm_header) acc = map (\<lambda>i. ch_seq_next c + of_nat i) [0..<length acc]
    \<and> chan_wf c' \<and> length (ring_queue c') \<le> ch_capacity c"
proof -
  from ring.run_fifo [OF assms(1) assms(2) [unfolded chan_fifo_run_def]]
  have r: "chan_wf c'" "ring_queue c @ acc = rec @ ring_queue c'" "ch_capacity c' = ch_capacity c" by auto
  from ring.cnt_law [OF r(1)] r(3) have "length (ring_queue c') \<le> ch_capacity c" by simp
  with r chan_fifo_seq [OF assms(2)] show ?thesis by blast
qed

definition demo_msg :: "u8 \<Rightarrow> channel_msg" where
  "demo_msg b = zero_msg\<lparr>cm_inline_payload := b # replicate 255 0\<rparr>"

definition demo_ops :: "(pid \<times> channel_msg) fifo_op list" where
  "demo_ops = [Put (1, demo_msg 10), Put (1, demo_msg 20), Put (2, demo_msg 30), Get, Put (3, demo_msg 40), Get]"

theorem chan_ring_fifo_witness:
  "\<exists>acc rec c'. chan_fifo_run demo_ops (fresh_channel 7 CHAN_MODE_NONBLOCKING 2 1 1) = (acc, rec, c')
    \<and> length acc = 3 \<and> length rec = 2 \<and> acc = rec @ ring_queue c'"
proof -
  let ?c = "fresh_channel 7 CHAN_MODE_NONBLOCKING 2 1 1"
  have w: "chan_wf ?c" "ring_queue ?c = []" using fresh_channel_wf [of 2] by auto
  obtain acc rec c' where r: "chan_fifo_run demo_ops ?c = (acc, rec, c')" by (metis prod_cases3)
  have "length (fst (chan_fifo_run demo_ops ?c)) = 3 \<and> length (fst (snd (chan_fifo_run demo_ops ?c))) = 2"
    by (simp add: demo_ops_def fresh_channel_def chan_ring_put_def chan_ring_get_def Let_def)
  with r chan_ring_fifo [OF w(1) r] w(2) show ?thesis by auto
qed


definition demo_chan_boot :: chan_state where
  "demo_chan_boot = \<lparr>cap_object_cache = False, g_cap_object_ptrs = \<lambda>_. None, g_cap_object_count = 0, ktrace = [],
    k_tasks = [0 \<mapsto> demo_task 0, 1 \<mapsto> demo_task 1], g_cap_system_bootcap_idx = 0,
    chans = \<lambda>_. None, eps = \<lambda>_. None, g_next_chan_id = 1, g_chan_reg_head = NULL, g_hashes = [7],
    g_manifest_ready = True\<rparr>"

definition demo_chan_kernel :: chan_state where
  "demo_chan_kernel = the (cap_object_init True True demo_chan_boot)"

definition demo_allocs :: "ptr \<Rightarrow> chan_allocs" where
  "demo_allocs p = \<lparr>al_channel = Some p, al_ring = True, al_rd_ep = Some (p + 1), al_wr_ep = Some (p + 2),
    al_rd_obj = True, al_wr_obj = True, al_kmalloc = demo_kmalloc\<rparr>"

lemma cap_object_create_succeeds:
  assumes "cap_object_cache s" "0 < i" "i < CAP_OBJECT_CAPACITY" "g_cap_object_ptrs s i = None"
  obtains slot s' where "cap_object_create True k r aud fl kd own par s = (Inr slot, s')"
proof -
  from first_from_exists [of 1 i CAP_OBJECT_CAPACITY "\<lambda>i. g_cap_object_ptrs s i = None"] assms obtain j where
    j: "first_from (\<lambda>i. g_cap_object_ptrs s i = None) 1 CAP_OBJECT_CAPACITY = Some j" by auto
  with first_from_SomeD [OF j] have "cap_object_find_free_slot_locked s \<noteq> CAP_OBJECT_IDX_NONE"
    by (simp add: cap_object_find_free_slot_locked_def CAP_OBJECT_IDX_NONE_def)
  with assms(1) have "fst (cap_object_create True k r aud fl kd own par s) = Inr (cap_object_find_free_slot_locked s)"
    by (simp add: cap_object_create_def Let_def)
  then show ?thesis by (intro that) (rule prod_eqI, simp_all)
qed

lemma sched_get_task_upd_chan [simp]: "sched_get_task (upd_chan q f s) p = sched_get_task s p"
  by (simp add: sched_get_task_def)

lemma chan_create_succeeds:
  assumes "0 < n" "n \<le> CHAN_CAPACITY_MAX" "m = CHAN_MODE_BLOCKING \<or> m = CHAN_MODE_NONBLOCKING"
    and "manifest_type_known s th" "cap_object_cache s" "sched_get_task s p = Some t"
    and al: "al_channel al = Some cp" "al_rd_ep al = Some rd" "al_wr_ep al = Some wr" "al_ring al" "al_rd_obj al" "al_wr_obj al"
    and free: "0 < i" "i < CAP_OBJECT_CAPACITY" "g_cap_object_ptrs s i = None"
      "0 < j" "j < CAP_OBJECT_CAPACITY" "g_cap_object_ptrs s j = None" "i \<noteq> j"
    and ins: "\<And>a b. a < CAP_OBJECT_CAPACITY \<Longrightarrow> b < CAP_OBJECT_CAPACITY \<Longrightarrow>
      \<exists>r sl h r' sl' h'. cap_handle_insert (al_kmalloc al) (tk_cap_handles t) a 0 = Some (r, sl, h) \<and> 0 \<le> r
        \<and> cap_handle_insert (al_kmalloc al) h b 0 = Some (r', sl', h') \<and> 0 \<le> r'"
  shows "\<exists>rt wt s'. chan_create al th m n p s = Some (Inr (rt, wt), s')"
proof -
  let ?s1 = "put_ep wr \<lparr>ep_channel = cp, ep_direction = CHAN_ENDPOINT_WRITE, ep_current_holder_pid = p\<rparr>
      (put_ep rd \<lparr>ep_channel = cp, ep_direction = CHAN_ENDPOINT_READ, ep_current_holder_pid = p\<rparr>
        (chan_reg_link cp (put_chan cp (fresh_channel th m n (g_next_chan_id s) p)
          (s\<lparr>g_next_chan_id := g_next_chan_id s + 1\<rparr>))))"
  obtain ri s2 where cr: "cap_object_create True CAP_KIND_CHANNEL CHAN_RD_RIGHTS (Some [p, PID_NONE]) 0 rd p
      CAP_OBJECT_IDX_NONE ?s1 = (Inr ri, s2)"
    by (rule cap_object_create_succeeds [of ?s1 i]) (use assms in simp_all)
  note R = cap_object_create_InrD [OF cr]
  define k where "k = (if ri = i then j else i)"
  have k: "0 < k" "k < CAP_OBJECT_CAPACITY" "k \<noteq> ri" "g_cap_object_ptrs s k = None" using free by (auto simp: k_def)
  have "g_cap_object_ptrs s2 k = None" using R(5) [OF k(3)] k(4) by (simp add: core_at_def)
  then obtain wi s3 where cw: "cap_object_create True CAP_KIND_CHANNEL CHAN_WR_RIGHTS (Some [p, PID_NONE]) 0 wr p
      CAP_OBJECT_IDX_NONE s2 = (Inr wi, s3)"
    using cap_object_create_succeeds [OF R(6) k(1,2)] by blast
  note W = cap_object_create_InrD [OF cw]
  have "k_tasks s3 = k_tasks s"
    using arg_cong [OF cw, of "\<lambda>x. k_tasks (snd x)"] arg_cong [OF cr, of "\<lambda>x. k_tasks (snd x)"] by simp
  then have t: "sched_get_task s3 p = Some t" using assms(6) unfolding sched_get_task_def by presburger
  from ins [OF R(2) W(2)] obtain r sl h r' sl' h' where
    "cap_handle_insert (al_kmalloc al) (tk_cap_handles t) ri 0 = Some (r, sl, h)" "0 \<le> r"
    "cap_handle_insert (al_kmalloc al) h wi 0 = Some (r', sl', h')" "0 \<le> r'" by blast
  with t obtain rt wt s' where pub: "chan_create_publish al p cp ri wi s3 = Some (Inr (rt, wt), s')"
    by (simp add: chan_create_publish_def Let_def)
  have "chan_create al th m n p s = Some (Inr (rt, wt), s')"
    using assms(1-4) al cr cw pub by (auto simp: chan_create_def Let_def next_chan_id_def)
  then show ?thesis by blast
qed

lemma demo_table_head:
  "ht_next_free demo_handle_table = 0" "length (ht_entries demo_handle_table) = 16"
  "he_next_free (ht_entries demo_handle_table ! 0) = 1"
  "sint (he_local_generation (ht_entries demo_handle_table ! 0)) \<ge> 0"
  "sint (he_local_generation (ht_entries demo_handle_table ! 1)) \<ge> 0"
  by code_simp+

lemma demo_inserts:
  assumes "a < CAP_OBJECT_CAPACITY" "b < CAP_OBJECT_CAPACITY"
  shows "\<exists>r sl h r' sl' h'. cap_handle_insert demo_kmalloc demo_handle_table a 0 = Some (r, sl, h) \<and> 0 \<le> r
    \<and> cap_handle_insert demo_kmalloc h b 0 = Some (r', sl', h') \<and> 0 \<le> r'"
proof -
  have n: "a \<noteq> CAP_OBJECT_IDX_NONE" "b \<noteq> CAP_OBJECT_IDX_NONE" "CAP_HANDLE_SLOT_NONE \<noteq> 0" "CAP_HANDLE_SLOT_NONE \<noteq> 1"
    using assms by (simp_all add: CAP_OBJECT_IDX_NONE_def CAP_HANDLE_SLOT_NONE_def)
  obtain r sl h where 1: "cap_handle_insert demo_kmalloc demo_handle_table a 0 = Some (r, sl, h)"
      "0 \<le> r" "ht_next_free h = 1" "length (ht_entries h) = 16" "sint (he_local_generation (ht_entries h ! 1)) \<ge> 0"
    using n demo_table_head by (simp add: cap_handle_insert_def Let_def cap_err_defs)
  moreover obtain r' sl' h' where "cap_handle_insert demo_kmalloc h b 0 = Some (r', sl', h')" "0 \<le> r'"
    using n 1(3-5) by (simp add: cap_handle_insert_def Let_def cap_err_defs)
  ultimately show ?thesis by blast
qed

lemma demo_chan_reg: "reg_wf demo_chan_kernel []"
  by (simp add: demo_chan_kernel_def demo_chan_boot_def cap_object_init_def reg_wf_def put_object_def)


lemma ring_queue_freeze [simp]:
  "ring_queue (c\<lparr>ch_frozen_at_snap := x\<rparr>) = ring_queue c"
  "ring_queue (c\<lparr>ch_saved_head := n\<rparr>) = ring_queue c" "ring_queue (c\<lparr>ch_saved_tail := n\<rparr>) = ring_queue c"
  "ring_queue (c\<lparr>ch_saved_msgcount := n\<rparr>) = ring_queue c"
  "ring_queue (c\<lparr>ch_read_waiters := ws\<rparr>) = ring_queue c" "ring_queue (c\<lparr>ch_write_waiters := ws\<rparr>) = ring_queue c"
  by (simp_all add: ring_queue_def)

text \<open>
  freezing every channel for a snapshot and then releasing the snapshot is transparent. Both
  registry walks end; in between, every valid channel that no other snapshot holds is frozen, and
  afterwards it is live again with the same queued messages and the same next sequence number, while
  a channel held by another snapshot is not touched at all.
\<close>

theorem chan_freeze_thaw_all:
  assumes "reg_wf s ps" "snap \<noteq> 0" "p \<in> set ps" "chans s p = Some c" "chan_ok c"
  shows "\<exists>s1 s2 c1 c2. chan_freeze_all_locked snap s = Some (CAP_V2_OK, s1)
    \<and> chan_thaw_all_locked snap s1 = Some (CAP_V2_OK, s2)
    \<and> chans s1 p = Some c1 \<and> chans s2 p = Some c2 \<and> reg_wf s2 ps
    \<and> (if ch_frozen_at_snap c = 0
       then ch_frozen_at_snap c1 = snap \<and> ch_frozen_at_snap c2 = 0
         \<and> ring_queue c2 = ring_queue c \<and> ch_seq_next c2 = ch_seq_next c
       else ch_frozen_at_snap c \<noteq> snap \<longrightarrow> c1 = c \<and> c2 = c)"
proof -
  from freeze_all_spec [OF assms(1,2)] obtain s1 where s1: "chan_freeze_all_locked snap s = Some (CAP_V2_OK, s1)"
    "reg_wf s1 ps" "\<And>q. chans s1 q = (if q \<in> set ps then frozen_chan snap q (chans s q) else chans s q)" by blast
  from thaw_all_spec [OF s1(2) assms(2)] obtain s2 where s2: "chan_thaw_all_locked snap s1 = Some (CAP_V2_OK, s2)"
    "reg_wf s2 ps" "\<And>q. chans s2 q = (if q \<in> set ps then thawed_chan snap q (chans s1 q) else chans s1 q)" by blast
  have nn: "p \<noteq> NULL" using assms(1,3) dseg_nonnull by (fastforce simp: reg_wf_def)
  obtain c1 where c1: "frozen_chan snap p (Some c) = Some c1" by (cases "frozen_chan snap p (Some c)") (auto simp: frozen_chan_def split: if_splits)
  obtain c2 where c2: "thawed_chan snap p (Some c1) = Some c2" by (cases "thawed_chan snap p (Some c1)") (auto simp: thawed_chan_def split: if_splits)
  have "chans s1 p = Some c1" "chans s2 p = Some c2" using s1(3) s2(3) assms(3,4) c1 c2 by simp_all
  moreover have "if ch_frozen_at_snap c = 0
       then ch_frozen_at_snap c1 = snap \<and> ch_frozen_at_snap c2 = 0
         \<and> ring_queue c2 = ring_queue c \<and> ch_seq_next c2 = ch_seq_next c
       else ch_frozen_at_snap c \<noteq> snap \<longrightarrow> c1 = c \<and> c2 = c"
    using c1 c2 nn assms(2,5)
    by (auto simp: frozen_chan_def thawed_chan_def chan_ok_def split: if_splits)
  ultimately show ?thesis using s1(1) s2(1,2) by blast
qed

definition demo_chan :: "nat \<Rightarrow> channel" where
  "demo_chan k = (fresh_channel 7 CHAN_MODE_NONBLOCKING 2 1 1)\<lparr>ch_msgcount := k, ch_tail := k mod 2\<rparr>"

definition demo_one_chan :: "nat \<Rightarrow> chan_state" where
  "demo_one_chan k = demo_chan_boot\<lparr>chans := [0x1000 \<mapsto> demo_chan k], g_chan_reg_head := 0x1000\<rparr>"

lemma demo_one_chan_facts:
  "reg_wf (demo_one_chan k) [0x1000]" "chans (demo_one_chan k) 0x1000 = Some (demo_chan k)"
  "chan_ok (demo_chan k)" "k \<le> 2 \<Longrightarrow> chan_wf (demo_chan k)" "ch_frozen_at_snap (demo_chan k) = 0"
  "ch_msgcount (demo_chan k) = k" "ch_capacity (demo_chan k) = 2" "chan_check (demo_one_chan k) 0x1000"
  by (auto simp: demo_one_chan_def demo_chan_def fresh_channel_def reg_wf_def reg_nx_def reg_pv_def chan_ok_def
      chan_wf_def chan_check_def hd0_def)

theorem chan_freeze_thaw_all_witness:
  "\<exists>s1 s2 c2. chan_freeze_all_locked 9 (demo_one_chan 1) = Some (CAP_V2_OK, s1)
    \<and> chan_thaw_all_locked 9 s1 = Some (CAP_V2_OK, s2)
    \<and> chans s2 0x1000 = Some c2 \<and> ring_queue c2 = ring_queue (demo_chan 1)"
proof -
  have "(9 :: u64) \<noteq> 0" "(0x1000 :: ptr) \<in> set [0x1000]" by simp_all
  from chan_freeze_thaw_all [OF demo_one_chan_facts(1) [of 1] this demo_one_chan_facts(2,3)]
  show ?thesis unfolding demo_one_chan_facts(5) if_P [OF refl] by blast
qed

text \<open>A freeze followed by a thaw with the saved ring positions, as a snapshot restore does it.\<close>

definition freeze_then_rewind :: "ptr \<Rightarrow> u64 \<Rightarrow> 'a chan_state_scheme \<Rightarrow> 'a chan_state_scheme" where
  "freeze_then_rewind p snap s =
    (let s1 = snd (chan_freeze_locked p snap s)
     in case chans s1 p of
          None \<Rightarrow> s1
        | Some c \<Rightarrow> snd (chan_thaw_locked p (ch_saved_head c) (ch_saved_tail c) s1))"

lemma freeze_then_rewind_chan:
  assumes "chan_check s p" "chans s p = Some c" "chan_wf c" "ch_frozen_at_snap c = 0" "snap \<noteq> 0"
    "ch_capacity c \<le> CHAN_CAPACITY_MAX"
  shows "\<exists>c'. chans (freeze_then_rewind p snap s) p = Some c' \<and> ch_frozen_at_snap c' = 0 \<and> chan_wf c'
    \<and> ring_queue c' = ring_queue (chan_rewind (ch_head c) (ch_tail c) c)"
proof -
  have "ch_head c < ch_capacity c" "ch_tail c < ch_capacity c" using assms(3) by (auto simp: chan_wf_def)
  then have k: "ch_head c \<noteq> CHAN_THAW_KEEP" "ch_tail c \<noteq> CHAN_THAW_KEEP"
    using assms(6) by (simp_all add: CHAN_THAW_KEEP_def)
  have w: "chan_wf (chan_rewind (ch_head c) (ch_tail c) c)"
    by (rule chan_rewind_wf) (use assms(3) in \<open>simp_all add: chan_wf_def\<close>)
  obtain c' where "chans (freeze_then_rewind p snap s) p = Some c'" "ch_frozen_at_snap c' = 0"
    "ch_ring c' = ch_ring c" "ch_capacity c' = ch_capacity c"
    "ch_head c' = ch_head (chan_rewind (ch_head c) (ch_tail c) c)"
    "ch_tail c' = ch_tail (chan_rewind (ch_head c) (ch_tail c) c)"
    "ch_msgcount c' = ch_msgcount (chan_rewind (ch_head c) (ch_tail c) c)"
    using assms k
    by (auto simp: freeze_then_rewind_def chan_freeze_locked_def chan_thaw_locked_def chan_check_def chan_ok_def
        chan_rewind_def Let_def)
  with w show ?thesis by (auto simp: chan_wf_def ring_queue_def chan_rewind_def Let_def)
qed



text \<open>
  C19: the same freeze and thaw of a channel whose ring was full loses every queued message: the
  message count is recomputed from the two positions, which are equal both when the ring is full and
  when it is empty.
\<close>

theorem chan_rewind_full_loses:
  assumes "chan_check s p" "chans s p = Some c" "chan_wf c" "ch_frozen_at_snap c = 0" "snap \<noteq> 0"
    "ch_capacity c \<le> CHAN_CAPACITY_MAX" "ch_msgcount c = ch_capacity c"
  shows "ring_queue c \<noteq> [] \<and> (\<exists>c'. chans (freeze_then_rewind p snap s) p = Some c' \<and> ring_queue c' = [])"
proof -
  have "ring_queue (chan_rewind (ch_head c) (ch_tail c) c) = []"
    using chan_rewind_full [OF assms(3,7)] by (simp add: ring_queue_def)
  moreover have "ring_queue c \<noteq> []" using assms(3,7) by (auto simp: ring_queue_def chan_wf_def)
  ultimately show ?thesis using freeze_then_rewind_chan [OF assms(1-6)] by auto
qed

theorem chan_rewind_full_loses_witness:
  "ring_queue (demo_chan 2) \<noteq> []
   \<and> (\<exists>c'. chans (freeze_then_rewind 0x1000 9 (demo_one_chan 2)) 0x1000 = Some c' \<and> ring_queue c' = [])"
  using chan_rewind_full_loses [OF demo_one_chan_facts(8,2), of 2 9] demo_one_chan_facts(4-7) [of 2] by simp

end
