(* ===== verification/Cap_Safety.thy ===== *)
theory Cap_Safety
  imports Channel
begin

text \<open>
  Capability safety: the properties of the capability registry under every sequence of its
  operations, with the teardown hooks of the kernel (channels, memory objects, streams) in place.
  The runs are those of \<open>cap_run\<close> from \<open>Cap_Object\<close>, instantiated with \<open>cap_kind_deactivate\<close>.
\<close>

section \<open>Demonstration states\<close>

definition demo_caps :: chan_state where
  "demo_caps = snd (cap_object_create True CAP_KIND_VMO RIGHTS_ALL (Some [1, PID_NONE]) CAP_FLAG_EAGER_REVOKE 7 1
    CAP_OBJECT_IDX_NONE demo_chan_kernel)"

definition demo_derived :: "nat cres \<times> chan_state" where
  "demo_derived = cap_object_derive_inner True 1 1 RIGHT_READ (Some [1, PID_NONE]) 0 False False demo_caps"

lemma demo_chan_kernel_wf: "cap_wf demo_chan_kernel" "cap_object_cache demo_chan_kernel"
proof -
  obtain s1 where i: "cap_object_init True True demo_chan_boot = Some s1"
    by (simp add: cap_object_init_def demo_chan_boot_def)
  have e: "demo_chan_kernel = s1" by (simp add: demo_chan_kernel_def i)
  have "cap_wf s1 \<and> cap_object_cache s1"
    by (rule cap_object_init_wf [OF _ _ _ i]) (simp_all add: demo_chan_boot_def)
  then show "cap_wf demo_chan_kernel" "cap_object_cache demo_chan_kernel" by (simp_all add: e)
qed

lemma demo_caps_wf: "cap_wf demo_caps"
  unfolding demo_caps_def by (rule cap_object_create_wf [OF demo_chan_kernel_wf(1)])

lemma demo_caps_eval:
  "fst demo_derived = Inr 2"
  "map_option (\<lambda>ob. (co_deleted ob, co_kind ob = CAP_KIND_VMO, co_kind_data ob = 7, has_all (co_rights ob) RIGHT_READ,
      cap_token_validate_audience (Some ob) 1)) (g_cap_object_ptrs (snd demo_derived) 2)
    = Some (False, True, True, True, True)"
  by code_simp+

lemma cap_object_destroy_cache [simp]: "cap_object_cache (cap_object_destroy i s) = cap_object_cache s"
  by (auto simp: cap_object_destroy_def cap_object_destroy_with_def split: option.split)

section \<open>Properties\<close>



text \<open>
  C7: attenuation. A successful derivation needs a live parent whose audience contains the caller and
  which carries the derive right; the new object names the same resource with rights that are a
  subset of the parent's, it is public or immortal only if the parent is, everybody in its audience
  is in the parent's, and no other object changes.
\<close>

theorem derive_attenuates:
  assumes "cap_object_derive ok par c r aud fl s = (Inr n, s')" "cap_wf s"
  shows "\<exists>parent child. g_cap_object_ptrs s par = Some parent \<and> \<not> co_deleted parent
    \<and> has_flag (co_rights parent) RIGHT_DERIVE \<and> cap_token_validate_audience (Some parent) c
    \<and> g_cap_object_ptrs s n = None \<and> g_cap_object_ptrs s' n = Some child
    \<and> attenuates parent child \<and> co_rights child = r \<and> co_owner_pid child = c \<and> co_parent_idx child = par
    \<and> (\<forall>i. i = n \<or> core_at s' i = core_at s i)"
proof -
  from assms(1) have "cap_object_derive_inner ok par c r aud fl False False s = (Inr n, s')"
    by (simp add: cap_object_derive_def)
  from cap_object_derive_inner_InrD [OF this assms(2)] show ?thesis by metis
qed

theorem derive_attenuates_witness:
  "\<exists>s' parent child. cap_object_derive True 1 1 RIGHT_READ (Some [1, PID_NONE]) 0 demo_caps = (Inr 2, s')
    \<and> g_cap_object_ptrs demo_caps 1 = Some parent \<and> g_cap_object_ptrs s' 2 = Some child \<and> attenuates parent child"
proof -
  have "cap_object_derive True 1 1 RIGHT_READ (Some [1, PID_NONE]) 0 demo_caps = demo_derived"
    by (simp add: cap_object_derive_def demo_derived_def)
  also have "demo_derived = (Inr 2, snd demo_derived)" using demo_caps_eval(1) by (metis prod.collapse)
  finally have d: "cap_object_derive True 1 1 RIGHT_READ (Some [1, PID_NONE]) 0 demo_caps = (Inr 2, snd demo_derived)" .
  with derive_attenuates [OF d demo_caps_wf] show ?thesis by blast
qed

text \<open>
  C8: once \<open>cap_object_revoke\<close> has succeeded on an object, no token that names it resolves for any
  process, right away and after any later sequence of registry operations that does not destroy the
  object's slot.
\<close>

theorem revoked_token_dead:
  assumes "cap_object_revoke i s = (Inr n, s')" "CapDestroy i \<notin> set ops" "unat (cap_token_idx tok) = i"
  shows "cap_token_resolve (cap_run cap_kind_deactivate ops s') p tok r = None"
proof -
  from cap_object_revoke_spec(2) [OF assms(1)] obtain ob where "g_cap_object_ptrs s' i = Some ob" "co_deleted ob"
    by blast
  from kern.run_no_resolve [OF assms(2) this assms(3)] show ?thesis .
qed

lemma demo_revoked:
  "fst (cap_object_revoke 1 (snd demo_derived)) = Inr 2"
  by code_simp

lemma unat_demo_token: "unat (cap_token_idx (Cap_Token 0x0000000100000100)) = 1"
  by (simp add: cap_token_idx_def)

theorem revoked_token_dead_witness:
  "fst (cap_object_revoke 1 (snd demo_derived)) = Inr 2
   \<and> cap_token_resolve (cap_run cap_kind_deactivate [CapRevoke 2, CapDestroy 2] (snd (cap_object_revoke 1 (snd demo_derived))))
       1 (Cap_Token 0x0000000100000100) 0 = None"
proof -
  have r: "cap_object_revoke 1 (snd demo_derived) = (Inr 2, snd (cap_object_revoke 1 (snd demo_derived)))"
    using demo_revoked by (metis prod.collapse)
  from revoked_token_dead [OF r _ unat_demo_token, of "[CapRevoke 2, CapDestroy 2]"] demo_revoked
  show ?thesis by simp
qed



text \<open>
  C10: when a process exits, \<open>revoke_collect_orphans\<close> leaves no live object it owns, except immortal
  ones, anywhere in a well-formed registry.
\<close>

theorem orphans_all_revoked:
  assumes "cap_wf s" "p \<noteq> PID_KERNEL" "i \<noteq> 0" "g_cap_object_ptrs (snd (revoke_collect_orphans p s)) i = Some ob"
    "co_owner_pid ob = p" "\<not> has_flag (co_flags ob) CAP_FLAG_IMMORTAL"
  shows "co_deleted ob"
proof -
  let ?is = "[1..<min (g_cap_object_count s) CAP_OBJECT_CAPACITY]"
  have l: "g_cap_object_ptrs (snd (collect_orphans_loop p ?is 0 s)) i = Some ob"
    using assms(2,4) by (simp add: revoke_collect_orphans_def)
  have "reg_evolves (g_cap_object_ptrs s) (g_cap_object_ptrs (snd (revoke_collect_orphans p s)))"
    by (rule revoke_collect_orphans_evolves)
  from reg_evolves_SomeD [OF this assms(4)] obtain a where "g_cap_object_ptrs s i = Some a" by blast
  with assms(1,3) have "i \<in> set ?is" by (auto simp: cap_wf_def Suc_le_eq)
  from collect_orphans_loop_spec [OF this l assms(5,6)] show ?thesis .
qed

theorem orphans_all_revoked_witness:
  "\<exists>ob. g_cap_object_ptrs (snd (revoke_collect_orphans 1 demo_caps)) 1 = Some ob \<and> co_deleted ob"
proof -
  have e: "map_option (\<lambda>ob. (co_owner_pid ob, has_flag (co_flags ob) CAP_FLAG_IMMORTAL))
      (g_cap_object_ptrs (snd (revoke_collect_orphans 1 demo_caps)) 1) = Some (1, False)"
    by code_simp
  then obtain ob where ob: "g_cap_object_ptrs (snd (revoke_collect_orphans 1 demo_caps)) 1 = Some ob"
    "co_owner_pid ob = 1" "\<not> has_flag (co_flags ob) CAP_FLAG_IMMORTAL" by auto
  from orphans_all_revoked [OF demo_caps_wf _ _ ob] ob(1) show ?thesis by (simp add: PID_KERNEL_def)
qed

text \<open>
  C9: the registry invariant. From boot on, after any sequence of registry operations, every live
  index is below the high-water mark and the capacity, every audience fits its array, an object with
  the public audience carries the public flag, every child and sibling link is a valid index, and
  the immortal sentinel sits in slot 0.
\<close>

theorem registry_invariant:
  assumes "g_cap_object_ptrs s = (\<lambda>_. None)" "g_cap_object_count s = 0" "\<not> cap_object_cache s"
    and "cap_object_init True True s = Some s0"
  shows "cap_wf (cap_run cap_kind_deactivate ops s0)"
  using cap_object_init_wf [OF assms] kern.run_wf by blast

theorem registry_invariant_witness:
  "cap_wf (cap_run cap_kind_deactivate [CapCreate True CAP_KIND_VMO 1 None 0 7 1 CAP_OBJECT_IDX_NONE, CapRevoke 1] demo_chan_kernel)"
proof -
  obtain s1 where i: "cap_object_init True True demo_chan_boot = Some s1"
    by (simp add: cap_object_init_def demo_chan_boot_def)
  have "demo_chan_kernel = s1" by (simp add: demo_chan_kernel_def i)
  moreover have "g_cap_object_ptrs demo_chan_boot = (\<lambda>_. None)" "g_cap_object_count demo_chan_boot = 0"
    "\<not> cap_object_cache demo_chan_boot" by (simp_all add: demo_chan_boot_def)
  ultimately show ?thesis using registry_invariant [OF _ _ _ i] by simp
qed

text \<open>
  C18: the generation check does not survive a destruction. When an object at the lowest index that
  is free afterwards is destroyed and another object is created, the new one takes the same index
  with generation 1 again, so a token of a never revoked old object resolves to the new object for
  every process of the new audience.
\<close>

theorem stale_token_resolves:
  assumes "cap_object_cache s" "unat (cap_token_idx tok) = i" "cap_token_gen tok = 1" "i \<noteq> 0" "i < CAP_OBJECT_CAPACITY"
    and "cap_token_resolve s p tok r0 = Some old"
    and "\<forall>j. 0 < j \<and> j < i \<longrightarrow> g_cap_object_ptrs s j \<noteq> None"
    and "p \<noteq> PID_NONE" "has_all rt r"
  shows "\<exists>s' ob. cap_object_create True k rt (Some [p, PID_NONE]) 0 kd own CAP_OBJECT_IDX_NONE (cap_object_destroy i s)
      = (Inr i, s')
    \<and> cap_token_resolve s' p tok r = Some ob \<and> co_kind ob = k \<and> co_kind_data ob = kd"
proof -
  let ?s = "cap_object_destroy i s"
  let ?f = "cap_object_fresh k rt (Some [p, PID_NONE]) 0 kd own CAP_OBJECT_IDX_NONE"
  have g: "g_cap_object_ptrs ?s = (g_cap_object_ptrs s)(i := None)"
    using assms(4,5) by (simp add: cap_object_destroy_ptrs)
  have c: "cap_object_cache ?s" using assms(1) by (simp add: cap_object_destroy_cache)
  from destroy_create_reuse [OF assms(4,5) c, of k rt "Some [p, PID_NONE]" 0 kd own] g assms(7)
  obtain s' ob where s': "cap_object_create True k rt (Some [p, PID_NONE]) 0 kd own CAP_OBJECT_IDX_NONE ?s = (Inr i, s')"
    "g_cap_object_ptrs s' i = Some ob" and co: "core ob = core ?f" by auto
  have f: "\<not> co_deleted ?f" "co_generation ?f = 1" "co_rights ?f = rt" "co_kind ?f = k" "co_kind_data ?f = kd"
    by (simp_all add: cap_object_fresh_def Let_def case_prod_beta cap_object_zero_def)
  have "cap_token_validate_audience (Some ob) p"
    using fresh_endpoint_audience [OF assms(8), of k rt 0 kd own] core_eq_sel(6) [OF co]
    by (simp add: cap_token_validate_audience_def)
  with s'(2) f assms(2-5,9) core_eq_sel(1-5) [OF co] have "cap_token_resolve s' p tok r = Some ob"
    unfolding cap_token_resolve_Some_iff by (simp add: Let_def)
  with s'(1) f core_eq_sel(1-5) [OF co] show ?thesis by metis
qed

theorem stale_token_resolves_witness:
  "\<exists>s' ob. cap_object_create True CAP_KIND_STREAM RIGHT_READ (Some [1, PID_NONE]) 0 99 1 CAP_OBJECT_IDX_NONE
       (cap_object_destroy 1 demo_caps) = (Inr 1, s')
    \<and> cap_token_resolve s' 1 (Cap_Token 0x0000000100000100) RIGHT_READ = Some ob \<and> co_kind_data ob = 99"
proof -
  let ?tok = "Cap_Token 0x0000000100000100"
  have g: "cap_token_gen ?tok = 1" by (simp add: cap_token_gen_def)
  have c: "cap_object_cache demo_caps" by (simp add: demo_caps_def demo_chan_kernel_wf(2))
  have "map_option (\<lambda>ob. (co_deleted ob, co_generation ob, cap_token_validate_audience (Some ob) 1))
      (g_cap_object_ptrs demo_caps 1) = Some (False, 1, True)"
    by code_simp
  then obtain ob where "g_cap_object_ptrs demo_caps 1 = Some ob" "\<not> co_deleted ob" "co_generation ob = 1"
    "cap_token_validate_audience (Some ob) 1" by auto
  then have r: "cap_token_resolve demo_caps 1 ?tok 0 = Some ob"
    unfolding cap_token_resolve_Some_iff unat_demo_token by (simp add: g Let_def)
  have a: "\<forall>j. 0 < j \<and> j < 1 \<longrightarrow> g_cap_object_ptrs demo_caps j \<noteq> None" "(1 :: pid) \<noteq> PID_NONE" by (auto simp: PID_NONE_def)
  from stale_token_resolves [OF c unat_demo_token g _ _ r a has_all_refl, of CAP_KIND_STREAM RIGHT_READ 99 1]
  show ?thesis by auto
qed

text \<open>
  \<open>cap_token_describe\<close> writes the full description of a token when the buffer can hold it with its
  terminator, and otherwise exactly the prefix that fits; it never writes past the buffer.
\<close>

theorem describe_truncates:
  assumes "0 < buflen"
  shows "cap_token_describe tok buflen = take (buflen - 1) (cap_token_text tok)
    \<and> length (cap_token_describe tok buflen) < buflen"
  using cap_token_describe_eq [OF assms, of tok] assms by simp

theorem describe_truncates_witness:
  "cap_token_describe (Cap_Token 0) 5 = take 4 (cap_token_text (Cap_Token 0))"
  using describe_truncates [of 5 "Cap_Token 0"] by simp

end
