(* ===== verification/Txn_Buffer.thy ===== *)
theory Txn_Buffer
  imports Channel
begin

text \<open>
  The per-transaction buffer of external messages (kernel/txn/buffer.c and the types of
  kernel/txn/transaction.h). A buffer is a memory object of separately backed 4 KiB pages; a record is
  a 32-byte header, the 320 bytes of a message and a tail word, written little-endian as the target
  machine does. The theory shows that the paged byte access equals access to a flat array, that
  records read back as written and are found in order by the iterator, and that the scope test of
  \<open>txn_is_external_peer\<close> decides membership.
\<close>

section \<open>Data\<close>

datatype txn_state = TXN_STATE_INVALID | TXN_STATE_ACTIVE | TXN_STATE_COMMITTING | TXN_STATE_COMMITTED
  | TXN_STATE_COMMITTING_FAILED | TXN_STATE_ABORTING | TXN_STATE_ABORTED

abbreviation TXN_DEFAULT_BUFFER_BYTES :: nat where "TXN_DEFAULT_BUFFER_BYTES \<equiv> 4194304"
abbreviation TXN_BUFFER_MAGIC_HEAD :: u32 where "TXN_BUFFER_MAGIC_HEAD \<equiv> 0xBEADF00D"
abbreviation TXN_BUFFER_MAGIC_TAIL :: u32 where "TXN_BUFFER_MAGIC_TAIL \<equiv> 0xDEADC0DE"

definition TXN_EINVAL :: int where "TXN_EINVAL = -22"
definition TXN_EPERM :: int where "TXN_EPERM = -1"
definition TXN_ENOMEM :: int where "TXN_ENOMEM = -3"
definition TXN_EBUSY :: int where "TXN_EBUSY = -16"
definition TXN_E2BIG :: int where "TXN_E2BIG = -7"
definition TXN_EALREADY :: int where "TXN_EALREADY = -114"
definition TXN_ETXNREPLAY :: int where "TXN_ETXNREPLAY = -200"
definition TXN_ENESTED :: int where "TXN_ENESTED = -201"
definition ENOSPC :: int where "ENOSPC = 28"
definition ENODATA :: int where "ENODATA = 61"

lemmas txn_err_defs = TXN_EINVAL_def TXN_EPERM_def TXN_ENOMEM_def TXN_EBUSY_def TXN_E2BIG_def TXN_EALREADY_def
  TXN_ETXNREPLAY_def TXN_ENESTED_def ENOSPC_def ENODATA_def

record buffered_msg_header =
  bh_magic :: u32
  bh_pad0 :: u32
  bh_target_chan_id :: u64
  bh_payload_len :: u32
  bh_flags :: u32
  bh_original_send_seq :: u64

text \<open>A transaction; the address of the current one of a task is in the task record.\<close>

record transaction =
  tx_id :: u64
  tx_flags :: u32
  tx_cap_object_idx :: nat
  tx_creator_pid :: pid
  tx_nesting_depth :: nat
  tx_backing_snapshot :: ptr
  tx_parent_txn :: ptr
  tx_buffer_vmo :: ptr
  tx_buffer_vmo_capacity :: nat
  tx_buffer_vmo_head :: nat
  tx_buffered_count :: nat
  tx_scope_pids :: "pid list"
  tx_state :: txn_state
  tx_replay_cursor :: nat
  tx_replay_delivered :: nat
  tx_replay_failed_chan_id :: u64
  tx_state_waitq :: "pid list"
  tx_name :: string
  tx_next :: ptr
  tx_prev :: ptr

text \<open>
  The memory object behind a buffer: one entry per page, \<open>None\<close> where no physical page backs it
  (kernel/mm/vmo.h, the fields \<^verbatim>\<open>npages\<close> and \<^verbatim>\<open>pages\<close>).
\<close>

record vmo =
  vm_pages :: "u8 list option list"

record txn_kernel = chan_state +
  txns :: "ptr \<Rightarrow> transaction option"
  vmos :: "ptr \<Rightarrow> vmo option"
  g_txn_cache :: bool
  g_txn_next_id :: u64
  g_txn_live_head :: ptr

definition put_txn :: "ptr \<Rightarrow> transaction \<Rightarrow> 'a txn_kernel_scheme \<Rightarrow> 'a txn_kernel_scheme" where
  "put_txn p t s = s\<lparr>txns := (txns s)(p \<mapsto> t)\<rparr>"

definition put_vmo :: "ptr \<Rightarrow> vmo \<Rightarrow> 'a txn_kernel_scheme \<Rightarrow> 'a txn_kernel_scheme" where
  "put_vmo p v s = s\<lparr>vmos := (vmos s)(p \<mapsto> v)\<rparr>"

section \<open>Paged byte access\<close>

definition txn_buffer_page_kv :: "vmo \<Rightarrow> nat \<Rightarrow> u8 list option" where
  "txn_buffer_page_kv v page_idx = (if page_idx \<ge> length (vm_pages v) then None else vm_pages v ! page_idx)"

text \<open>Overwrite part of a byte list; the part lies inside it.\<close>

definition splice :: "nat \<Rightarrow> u8 list \<Rightarrow> u8 list \<Rightarrow> u8 list" where
  "splice off src bs = take off bs @ src @ drop (off + length src) bs"

function txn_buffer_write_bytes :: "vmo \<Rightarrow> nat \<Rightarrow> u8 list \<Rightarrow> vmo" where
  "txn_buffer_write_bytes v off src =
    (if src = [] then v
     else
      let page_idx = off div 4096; page_off = off mod 4096;
          avail = 4096 - page_off; n = (if length src < avail then length src else avail)
      in case txn_buffer_page_kv v page_idx of
           None \<Rightarrow> v
         | Some dst \<Rightarrow>
            txn_buffer_write_bytes
              (v\<lparr>vm_pages := (vm_pages v)[page_idx := Some (splice page_off (take n src) dst)]\<rparr>)
              (off + n) (drop n src))"
  by pat_completeness auto
termination
  by (relation "measure (\<lambda>(v, off, src). length src)") (auto simp: Let_def split: if_splits)

text \<open>\<open>dst\<close> is what the destination held; it has the requested length.\<close>

function txn_buffer_read_bytes :: "vmo \<Rightarrow> nat \<Rightarrow> u8 list \<Rightarrow> u8 list" where
  "txn_buffer_read_bytes v off dst =
    (if dst = [] then []
     else
      let page_idx = off div 4096; page_off = off mod 4096;
          avail = 4096 - page_off; n = (if length dst < avail then length dst else avail)
      in case txn_buffer_page_kv v page_idx of
           None \<Rightarrow> dst
         | Some src \<Rightarrow> take n (drop page_off src) @ txn_buffer_read_bytes v (off + n) (drop n dst))"
  by pat_completeness auto
termination
  by (relation "measure (\<lambda>(v, off, dst). length dst)") (auto simp: Let_def split: if_splits)

declare txn_buffer_write_bytes.simps [simp del] txn_buffer_read_bytes.simps [simp del]

section \<open>Record layout\<close>

text \<open>The memory layout of the structs, as \<^verbatim>\<open>memcpy\<close> sees it.\<close>

definition encode_header :: "buffered_msg_header \<Rightarrow> u8 list" where
  "encode_header h = le_bytes 4 (bh_magic h) @ le_bytes 4 (bh_pad0 h) @ le_bytes 8 (bh_target_chan_id h)
    @ le_bytes 4 (bh_payload_len h) @ le_bytes 4 (bh_flags h) @ le_bytes 8 (bh_original_send_seq h)"

definition decode_header :: "u8 list \<Rightarrow> buffered_msg_header" where
  "decode_header bs =
    \<lparr>bh_magic = le_word (take 4 bs), bh_pad0 = le_word (take 4 (drop 4 bs)),
     bh_target_chan_id = le_word (take 8 (drop 8 bs)), bh_payload_len = le_word (take 4 (drop 16 bs)),
     bh_flags = le_word (take 4 (drop 20 bs)), bh_original_send_seq = le_word (take 8 (drop 24 bs))\<rparr>"

definition encode_msg_header :: "chan_msg_header \<Rightarrow> u8 list" where
  "encode_msg_header h = le_bytes 8 (mh_seq h) @ le_bytes 8 (mh_type_hash h) @ le_bytes 4 (mh_sender_pid h)
    @ le_bytes 2 (mh_inline_len h) @ [mh_nhandles h, mh_flags h] @ le_bytes 8 (mh_timestamp_tsc h)"

definition decode_msg_header :: "u8 list \<Rightarrow> chan_msg_header" where
  "decode_msg_header bs =
    \<lparr>mh_seq = le_word (take 8 bs), mh_type_hash = le_word (take 8 (drop 8 bs)),
     mh_sender_pid = le_word (take 4 (drop 16 bs)), mh_inline_len = le_word (take 2 (drop 20 bs)),
     mh_nhandles = bs ! 22, mh_flags = bs ! 23, mh_timestamp_tsc = le_word (take 8 (drop 24 bs))\<rparr>"

definition encode_msg :: "channel_msg \<Rightarrow> u8 list" where
  "encode_msg m = encode_msg_header (cm_header m) @ cm_inline_payload m
    @ concat (map (le_bytes 4) (cm_in_flight_idx m))"

definition decode_msg :: "u8 list \<Rightarrow> channel_msg" where
  "decode_msg bs =
    \<lparr>cm_header = decode_msg_header (take 32 bs), cm_inline_payload = take 256 (drop 32 bs),
     cm_in_flight_idx = map (\<lambda>i. le_word (take 4 (drop (288 + 4 * i) bs))) [0..<8]\<rparr>"

definition sizeof_channel_msg :: nat where "sizeof_channel_msg = 320"
definition sizeof_buffered_header :: nat where "sizeof_buffered_header = 32"

definition align8 :: "nat \<Rightarrow> nat" where
  "align8 n = (n + 7) div 8 * 8"

definition entry_size :: nat where
  "entry_size = sizeof_buffered_header + align8 sizeof_channel_msg + 4"

section \<open>Operations\<close>

text \<open>
  \<open>va\<close> is the result of \<^verbatim>\<open>vmo_create\<close>: a zero-filled, fully backed memory object at an address, or
  a failure.
\<close>

definition fresh_vmo :: "nat \<Rightarrow> vmo" where
  "fresh_vmo cap = \<lparr>vm_pages = replicate (cap div 4096) (Some (replicate 4096 0))\<rparr>"

definition txn_buffer_lazy_alloc :: "ptr option \<Rightarrow> ptr \<Rightarrow> 'a txn_kernel_scheme \<Rightarrow> int \<times> 'a txn_kernel_scheme" where
  "txn_buffer_lazy_alloc va tp s =
    (case txns s tp of
      None \<Rightarrow> (TXN_EINVAL, s)
    | Some t \<Rightarrow>
       if tx_buffer_vmo t \<noteq> NULL then (0, s)
       else
        let cap = tx_buffer_vmo_capacity t;
            cap = (if cap = 0 then TXN_DEFAULT_BUFFER_BYTES else cap);
            cap = (if cap mod 4096 \<noteq> 0 then (cap + 4095) div 4096 * 4096 else cap)
        in case va of
             None \<Rightarrow> (TXN_ENOMEM, s)
           | Some vp \<Rightarrow>
              (0, put_txn tp (t\<lparr>tx_buffer_vmo := vp, tx_buffer_vmo_capacity := cap, tx_buffer_vmo_head := 0\<rparr>)
                    (put_vmo vp (fresh_vmo cap) s)))"

definition txn_buffer_append ::
  "ptr option \<Rightarrow> ptr \<Rightarrow> u64 \<Rightarrow> channel_msg \<Rightarrow> u32 \<Rightarrow> 'a txn_kernel_scheme \<Rightarrow> int \<times> 'a txn_kernel_scheme" where
  "txn_buffer_append va tp target_chan_id msg flags s =
    (let (rc, s) = txn_buffer_lazy_alloc va tp s in
     if rc < 0 then (rc, s)
     else case txns s tp of
       None \<Rightarrow> (TXN_EINVAL, s)
     | Some t \<Rightarrow>
        if tx_buffer_vmo_head t + entry_size > tx_buffer_vmo_capacity t then (- ENOSPC, s)
        else
         let off = tx_buffer_vmo_head t;
             hdr = \<lparr>bh_magic = TXN_BUFFER_MAGIC_HEAD, bh_pad0 = 0, bh_target_chan_id = target_chan_id,
                    bh_payload_len = of_nat sizeof_channel_msg, bh_flags = flags,
                    bh_original_send_seq = of_nat (tx_buffered_count t)\<rparr>;
             v = (case vmos s (tx_buffer_vmo t) of None \<Rightarrow> \<lparr>vm_pages = []\<rparr> | Some v \<Rightarrow> v);
             v = txn_buffer_write_bytes v off (encode_header hdr);
             off = off + sizeof_buffered_header;
             v = txn_buffer_write_bytes v off (encode_msg msg);
             off = off + align8 sizeof_channel_msg;
             v = txn_buffer_write_bytes v off (le_bytes 4 TXN_BUFFER_MAGIC_TAIL);
             off = off + 4
         in (0, put_txn tp (t\<lparr>tx_buffer_vmo_head := off, tx_buffered_count := tx_buffered_count t + 1\<rparr>)
                  (put_vmo (tx_buffer_vmo t) v s)))"

record txn_replay_context =
  rc_current_offset :: nat
  rc_delivered_count :: nat
  rc_failed_chan_id :: u64

definition txn_buffer_iter_init :: txn_replay_context where
  "txn_buffer_iter_init = \<lparr>rc_current_offset = 0, rc_delivered_count = 0, rc_failed_chan_id = 0\<rparr>"

text \<open>\<open>junk\<close> is what the stack variables of the caller held before the call.\<close>

definition txn_buffer_iter_next ::
  "(nat \<Rightarrow> u8) \<Rightarrow> transaction \<Rightarrow> vmo \<Rightarrow> nat \<Rightarrow> (buffered_msg_header \<times> channel_msg \<times> nat) cres" where
  "txn_buffer_iter_next junk t v current_offset =
    (if tx_buffer_vmo t = NULL then Inl (- ENODATA)
     else if current_offset \<ge> tx_buffer_vmo_head t then Inl (- ENODATA)
     else
      let off = current_offset;
          hdr = decode_header (txn_buffer_read_bytes v off (map junk [0..<sizeof_buffered_header]))
      in if bh_magic hdr \<noteq> TXN_BUFFER_MAGIC_HEAD then Inl TXN_EINVAL
         else
          let off = off + sizeof_buffered_header; len = unat (bh_payload_len hdr)
          in if len > sizeof_channel_msg then Inl TXN_EINVAL
             else
              let buf = map junk [0..<sizeof_channel_msg];
                  payload = decode_msg (txn_buffer_read_bytes v off (take len buf) @ drop len buf);
                  off = off + align8 len;
                  tail_magic = le_word (txn_buffer_read_bytes v off [0, 0, 0, 0])
              in if tail_magic \<noteq> TXN_BUFFER_MAGIC_TAIL then Inl TXN_EINVAL
                 else Inr (hdr, payload, off + 4))"

definition txn_buffer_free_drop :: "ptr \<Rightarrow> 'a txn_kernel_scheme \<Rightarrow> 'a txn_kernel_scheme" where
  "txn_buffer_free_drop tp s =
    (case txns s tp of
      None \<Rightarrow> s
    | Some t \<Rightarrow>
       let s = (if tx_buffer_vmo t \<noteq> NULL then log_event (VmoUnref (tx_buffer_vmo t)) s else s)
       in put_txn tp (t\<lparr>tx_buffer_vmo := NULL, tx_buffer_vmo_head := 0, tx_buffered_count := 0\<rparr>) s)"

definition endpoint_holder :: "'a chan_state_scheme \<Rightarrow> nat \<Rightarrow> pid" where
  "endpoint_holder s idx =
    (case cap_object_get s idx of
      None \<Rightarrow> - 1
    | Some ob \<Rightarrow>
       if co_kind ob = CAP_KIND_CHANNEL \<and> co_kind_data ob \<noteq> NULL
       then (case eps s (co_kind_data ob) of None \<Rightarrow> - 1 | Some ep \<Rightarrow> ep_current_holder_pid ep)
       else - 1)"

text \<open>The binary search over the scope; the result says whether the pid is missing.\<close>

function scope_search :: "pid list \<Rightarrow> pid \<Rightarrow> int \<Rightarrow> int \<Rightarrow> bool" where
  "scope_search scope_pids peer_pid lo hi =
    (if lo \<le> hi then
       let m = lo + (hi - lo) div 2; v = scope_pids ! nat m
       in if v = peer_pid then False
          else if v < peer_pid then scope_search scope_pids peer_pid (m + 1) hi
          else scope_search scope_pids peer_pid lo (m - 1)
     else True)"
  by pat_completeness auto
termination
  by (relation "measure (\<lambda>(_, _, lo, hi). nat (hi - lo + 1))") (auto simp: Let_def)

declare scope_search.simps [simp del]

definition txn_is_external_peer :: "'a chan_state_scheme \<Rightarrow> channel \<Rightarrow> transaction \<Rightarrow> pid \<Rightarrow> bool" where
  "txn_is_external_peer s c t sender =
    (let rd_holder = endpoint_holder s (ch_read_cap_idx c);
         wr_holder = endpoint_holder s (ch_write_cap_idx c);
         peer = (if rd_holder = sender then Some wr_holder
                 else if wr_holder = sender then Some rd_holder else None)
     in case peer of
          None \<Rightarrow> True
        | Some peer_pid \<Rightarrow>
           if peer_pid < 0 then True
           else if peer_pid = sender then False
           else if tx_scope_pids t = [] then True
           else scope_search (tx_scope_pids t) peer_pid 0 (int (length (tx_scope_pids t)) - 1))"

section \<open>Paged access is flat access\<close>

definition vmo_wf :: "vmo \<Rightarrow> bool" where
  "vmo_wf v \<longleftrightarrow> (\<forall>pg\<in>set (vm_pages v). \<exists>bs. pg = Some bs \<and> length bs = 4096)"

definition vmo_size :: "vmo \<Rightarrow> nat" where
  "vmo_size v = 4096 * length (vm_pages v)"

definition byte_at :: "vmo \<Rightarrow> nat \<Rightarrow> u8" where
  "byte_at v i = the (vm_pages v ! (i div 4096)) ! (i mod 4096)"

lemma length_splice [simp]: "off + length src \<le> length bs \<Longrightarrow> length (splice off src bs) = length bs"
  by (simp add: splice_def)

lemma nth_splice:
  assumes "off + length src \<le> length bs" "k < length bs"
  shows "splice off src bs ! k = (if off \<le> k \<and> k < off + length src then src ! (k - off) else bs ! k)"
  using assms by (auto simp: splice_def nth_append min_def)

lemma page_index: "off < vmo_size v \<Longrightarrow> off div 4096 < length (vm_pages v)"
  by (simp add: vmo_size_def less_mult_imp_div_less mult.commute)

lemma vmo_page:
  assumes "vmo_wf v" "off < vmo_size v"
  obtains bs where "txn_buffer_page_kv v (off div 4096) = Some bs" "vm_pages v ! (off div 4096) = Some bs" "length bs = 4096"
proof -
  have i: "off div 4096 < length (vm_pages v)" by (rule page_index [OF assms(2)])
  with assms(1) obtain bs where "vm_pages v ! (off div 4096) = Some bs" "length bs = 4096"
    by (auto simp: vmo_wf_def dest!: nth_mem)
  with i that show ?thesis by (simp add: txn_buffer_page_kv_def)
qed

lemma write_page:
  assumes v: "vmo_wf v" "off < vmo_size v" and d: "vm_pages v ! (off div 4096) = Some d" "length d = 4096"
    and x: "off mod 4096 + length x \<le> 4096"
    and w: "w = v\<lparr>vm_pages := (vm_pages v)[off div 4096 := Some (splice (off mod 4096) x d)]\<rparr>"
  shows "vmo_wf w" "vmo_size w = vmo_size v"
    "i < vmo_size v \<Longrightarrow> byte_at w i = (if off \<le> i \<and> i < off + length x then x ! (i - off) else byte_at v i)"
proof -
  have p: "off div 4096 < length (vm_pages v)" by (rule page_index [OF v(2)])
  show "vmo_wf w" using v(1) d(2) x
    by (auto simp: vmo_wf_def w dest: subsetD [OF set_update_subset_insert])
  show "vmo_size w = vmo_size v" by (simp add: vmo_size_def w)
  assume i: "i < vmo_size v"
  show "byte_at w i = (if off \<le> i \<and> i < off + length x then x ! (i - off) else byte_at v i)"
  proof (cases "i div 4096 = off div 4096")
    case True
    have o: "off = off div 4096 * 4096 + off mod 4096" by simp
    have j: "i = off div 4096 * 4096 + i mod 4096" using True by (metis div_mult_mod_eq)
    have rng: "off \<le> i \<and> i < off + length x \<longleftrightarrow> off mod 4096 \<le> i mod 4096 \<and> i mod 4096 < off mod 4096 + length x"
      and sub: "i - off = i mod 4096 - off mod 4096" using o j by linarith+
    have "byte_at w i = splice (off mod 4096) x d ! (i mod 4096)" using True p by (simp add: byte_at_def w)
    also have "\<dots> = (if off \<le> i \<and> i < off + length x then x ! (i - off) else d ! (i mod 4096))"
      using x d(2) by (subst nth_splice) (simp_all add: rng sub)
    finally show ?thesis using True d(1) by (simp add: byte_at_def)
  next
    case False
    have out: "\<not> (off \<le> i \<and> i < off + length x)"
    proof
      assume a: "off \<le> i \<and> i < off + length x"
      have "off div 4096 * 4096 + off mod 4096 = off" by simp
      then have "i < off div 4096 * 4096 + 4096" using a x by linarith
      moreover have "off div 4096 * 4096 \<le> i" using a by (metis div_times_less_eq_dividend le_trans)
      ultimately have "i div 4096 = off div 4096" by (metis div_nat_eqI mult.commute mult_Suc add.commute)
      with False show False by simp
    qed
    have "byte_at w i = byte_at v i" using False by (simp add: byte_at_def w)
    then show ?thesis unfolding if_not_P [OF out] .
  qed
qed

lemma txn_buffer_write_spec:
  "vmo_wf v \<Longrightarrow> off + length src \<le> vmo_size v
    \<Longrightarrow> vmo_wf (txn_buffer_write_bytes v off src) \<and> vmo_size (txn_buffer_write_bytes v off src) = vmo_size v
      \<and> (\<forall>i < vmo_size v. byte_at (txn_buffer_write_bytes v off src) i =
            (if off \<le> i \<and> i < off + length src then src ! (i - off) else byte_at v i))"
proof (induction v off src rule: txn_buffer_write_bytes.induct)
  case (1 v off src)
  show ?case
  proof (cases "src = []")
    case True
    with "1.prems" show ?thesis by (auto simp: txn_buffer_write_bytes.simps)
  next
    case False
    define n where "n = (if length src < 4096 - off mod 4096 then length src else 4096 - off mod 4096)"
    from False "1.prems"(2) have lt: "off < vmo_size v" by (cases src) auto
    obtain d where d: "txn_buffer_page_kv v (off div 4096) = Some d" "vm_pages v ! (off div 4096) = Some d"
      "length d = 4096" by (rule vmo_page [OF "1.prems"(1) lt])
    define w where "w = v\<lparr>vm_pages := (vm_pages v)[off div 4096 := Some (splice (off mod 4096) (take n src) d)]\<rparr>"
    have n: "n \<le> length src" "off mod 4096 + n \<le> 4096"
      using mod_less_divisor [of 4096 off] by (auto simp: n_def)
    have len: "length (take n src) = n" using n(1) by simp
    have W: "vmo_wf w" "vmo_size w = vmo_size v"
      "\<And>i. i < vmo_size v \<Longrightarrow> byte_at w i = (if off \<le> i \<and> i < off + n then take n src ! (i - off) else byte_at v i)"
      using write_page [OF "1.prems"(1) lt d(2,3) _ w_def] n(2) unfolding len by blast+
    have step: "txn_buffer_write_bytes v off src = txn_buffer_write_bytes w (off + n) (drop n src)"
      using False d(1) by (subst txn_buffer_write_bytes.simps) (simp add: Let_def w_def n_def)
    have l: "off + n + length (drop n src) = off + length src" using n(1) by simp
    have "vmo_wf (txn_buffer_write_bytes w (off + n) (drop n src))
      \<and> vmo_size (txn_buffer_write_bytes w (off + n) (drop n src)) = vmo_size w
      \<and> (\<forall>i < vmo_size w. byte_at (txn_buffer_write_bytes w (off + n) (drop n src)) i =
          (if off + n \<le> i \<and> i < off + n + length (drop n src) then drop n src ! (i - (off + n)) else byte_at w i))"
      using "1.IH" [OF False refl refl refl refl d(1), folded n_def, folded w_def, OF W(1)] W(2) "1.prems"(2)
      unfolding l by simp
    then have I: "vmo_wf (txn_buffer_write_bytes v off src)" "vmo_size (txn_buffer_write_bytes v off src) = vmo_size v"
      "\<And>i. i < vmo_size v \<Longrightarrow> byte_at (txn_buffer_write_bytes v off src) i =
          (if off + n \<le> i \<and> i < off + length src then drop n src ! (i - (off + n)) else byte_at w i)"
      unfolding step l W(2) by blast+
    have "byte_at (txn_buffer_write_bytes v off src) i = (if off \<le> i \<and> i < off + length src then src ! (i - off) else byte_at v i)"
      if "i < vmo_size v" for i
      using I(3) [OF that] W(3) [OF that] n(1) by (auto simp: nth_drop split: if_splits)
    with I(1,2) show ?thesis by blast
  qed
qed

lemma page_split:
  assumes "off mod 4096 + k < (4096 :: nat)"
  shows "(off + k) div 4096 = off div 4096" "(off + k) mod 4096 = off mod 4096 + k"
proof -
  have e: "off + k = (off mod 4096 + k) + off div 4096 * 4096"
    using mod_div_mult_eq [of off 4096] by linarith
  have "((off mod 4096 + k) + off div 4096 * 4096) div 4096 = off div 4096 + (off mod 4096 + k) div 4096"
    by (rule div_mult_self1) simp
  then show "(off + k) div 4096 = off div 4096" unfolding e [symmetric] div_less [OF assms] by simp
  have "((off mod 4096 + k) + off div 4096 * 4096) mod 4096 = (off mod 4096 + k) mod 4096"
    by (rule mod_mult_self1)
  then show "(off + k) mod 4096 = off mod 4096 + k" unfolding e [symmetric] mod_less [OF assms] .
qed

lemma txn_buffer_read_spec:
  "vmo_wf v \<Longrightarrow> off + length dst \<le> vmo_size v
    \<Longrightarrow> txn_buffer_read_bytes v off dst = map (byte_at v) [off..<off + length dst]"
proof (induction v off dst rule: txn_buffer_read_bytes.induct)
  case (1 v off dst)
  show ?case
  proof (cases "dst = []")
    case False
    define n where "n = (if length dst < 4096 - off mod 4096 then length dst else 4096 - off mod 4096)"
    from False "1.prems"(2) have lt: "off < vmo_size v" by (cases dst) auto
    obtain d where d: "txn_buffer_page_kv v (off div 4096) = Some d" "vm_pages v ! (off div 4096) = Some d"
      "length d = 4096" by (rule vmo_page [OF "1.prems"(1) lt])
    have n: "n \<le> length dst" "off mod 4096 + n \<le> 4096"
      using mod_less_divisor [of 4096 off] by (auto simp: n_def)
    have "take n (drop (off mod 4096) d) = map (byte_at v) [off..<off + n]"
    proof (rule nth_equalityI)
      fix k assume "k < length (take n (drop (off mod 4096) d))"
      then have k: "k < n" by simp
      then have "off mod 4096 + k < 4096" using n(2) by linarith
      from page_split [OF this] show "take n (drop (off mod 4096) d) ! k = map (byte_at v) [off..<off + n] ! k"
        using k d n(2) by (simp add: byte_at_def)
    qed (use n(2) d(3) in simp)
    moreover have "txn_buffer_read_bytes v (off + n) (drop n dst) = map (byte_at v) [off + n..<off + length dst]"
      using "1.IH" [OF False refl refl refl refl d(1), folded n_def, OF "1.prems"(1)] "1.prems"(2) n(1) by simp
    moreover have "txn_buffer_read_bytes v off dst = take n (drop (off mod 4096) d) @ txn_buffer_read_bytes v (off + n) (drop n dst)"
      using False d(1) by (subst txn_buffer_read_bytes.simps) (simp add: Let_def n_def)
    moreover have "[off..<off + length dst] = [off..<off + n] @ [off + n..<off + length dst]"
      using n(1) upt_add_eq_append [of off "off + n" "length dst - n"] by simp
    ultimately show ?thesis by simp
  qed (simp add: txn_buffer_read_bytes.simps)
qed

section \<open>Record layout lemmas\<close>

definition msg_shape :: "channel_msg \<Rightarrow> bool" where
  "msg_shape m \<longleftrightarrow> length (cm_inline_payload m) = 256 \<and> length (cm_in_flight_idx m) = 8"

lemma length_encode_header [simp]: "length (encode_header h) = 32"
  by (simp add: encode_header_def)

lemma decode_encode_header [simp]: "decode_header (encode_header h) = h"
  by (simp add: decode_header_def encode_header_def le_word_le_bytes)

lemma length_encode_msg_header [simp]: "length (encode_msg_header h) = 32"
  by (simp add: encode_msg_header_def)

lemma decode_encode_msg_header [simp]: "decode_msg_header (encode_msg_header h) = h"
  by (simp add: decode_msg_header_def encode_msg_header_def le_word_le_bytes nth_append)

lemma length_concat_le_bytes: "length (concat (map (le_bytes n) ws)) = n * length ws"
  by (induction ws) simp_all

lemma take_drop_concat_le:
  "i < length ws \<Longrightarrow> take n (drop (n * i) (concat (map (le_bytes n) ws))) = le_bytes n (ws ! i)"
proof (induction ws arbitrary: i)
  case (Cons w ws)
  then show ?case by (cases i) simp_all
qed simp

lemma length_encode_msg: "msg_shape m \<Longrightarrow> length (encode_msg m) = 320"
  by (simp add: encode_msg_def msg_shape_def length_concat_le_bytes)

lemma decode_encode_msg:
  assumes "msg_shape m"
  shows "decode_msg (encode_msg m) = m"
proof -
  have l: "length (cm_inline_payload m) = 256" "length (cm_in_flight_idx m) = 8" using assms by (auto simp: msg_shape_def)
  have d: "drop (288 + n) (encode_msg m) = drop n (concat (map (le_bytes 4) (cm_in_flight_idx m)))" for n
    by (simp add: encode_msg_def l)
  have "map (\<lambda>i. le_word (take 4 (drop (288 + 4 * i) (encode_msg m)))) [0..<8]
      = map (\<lambda>i. cm_in_flight_idx m ! i) [0..<8]"
    unfolding d by (rule map_cong [OF refl]) (simp add: take_drop_concat_le l le_word_le_bytes)
  also have "\<dots> = cm_in_flight_idx m" using map_nth [of "cm_in_flight_idx m"] l by simp
  finally show ?thesis by (simp add: decode_msg_def) (simp add: encode_msg_def l)
qed

lemma entry_size_eq [simp]: "entry_size = 356"
  by (simp add: entry_size_def sizeof_buffered_header_def sizeof_channel_msg_def align8_def)

section \<open>The sequence of buffered records\<close>

text \<open>A record as bytes; the sequence number is its position.\<close>

definition entry_bytes :: "nat \<Rightarrow> u64 \<times> u32 \<times> channel_msg \<Rightarrow> u8 list" where
  "entry_bytes k r = (case r of (cid, fl, m) \<Rightarrow>
    encode_header \<lparr>bh_magic = TXN_BUFFER_MAGIC_HEAD, bh_pad0 = 0, bh_target_chan_id = cid,
      bh_payload_len = 320, bh_flags = fl, bh_original_send_seq = of_nat k\<rparr>
    @ encode_msg m @ le_bytes 4 TXN_BUFFER_MAGIC_TAIL)"

definition rec_shape :: "u64 \<times> u32 \<times> channel_msg \<Rightarrow> bool" where
  "rec_shape r = msg_shape (snd (snd r))"

definition buffer_holds :: "transaction \<Rightarrow> vmo \<Rightarrow> (u64 \<times> u32 \<times> channel_msg) list \<Rightarrow> bool" where
  "buffer_holds t v rs \<longleftrightarrow>
    vmo_wf v \<and> tx_buffer_vmo t \<noteq> NULL \<and> tx_buffer_vmo_capacity t \<le> vmo_size v
    \<and> tx_buffer_vmo_head t \<le> tx_buffer_vmo_capacity t
    \<and> tx_buffer_vmo_head t = 356 * length rs \<and> tx_buffered_count t = length rs \<and> list_all rec_shape rs
    \<and> (\<forall>k < length rs. map (byte_at v) [356 * k..<356 * k + 356] = entry_bytes k (rs ! k))"

lemma length_entry_bytes: "rec_shape r \<Longrightarrow> length (entry_bytes k r) = 356"
  by (cases r) (simp add: entry_bytes_def rec_shape_def length_encode_msg)

lemma map_byte_at_split:
  "map (byte_at v) [off..<off + (a + b)] = map (byte_at v) [off..<off + a] @ map (byte_at v) [off + a..<off + a + b]"
  using upt_add_eq_append [of off "off + a" b] by (simp add: add.assoc)

text \<open>The iterator reads a record that is in memory.\<close>

lemma iter_next_entry:
  assumes v: "vmo_wf v" "off + 356 \<le> vmo_size v" "tx_buffer_vmo t \<noteq> NULL" "off < tx_buffer_vmo_head t"
    and e: "map (byte_at v) [off..<off + 356] = entry_bytes k (cid, fl, m)" and m: "msg_shape m"
  shows "\<exists>hdr. txn_buffer_iter_next junk t v off = Inr (hdr, m, off + 356)
    \<and> bh_target_chan_id hdr = cid \<and> bh_flags hdr = fl \<and> bh_original_send_seq hdr = of_nat k"
proof -
  let ?h = "\<lparr>bh_magic = TXN_BUFFER_MAGIC_HEAD, bh_pad0 = 0, bh_target_chan_id = cid,
      bh_payload_len = 320, bh_flags = fl, bh_original_send_seq = of_nat k\<rparr>"
  have "map (byte_at v) [off..<off + 32] @ map (byte_at v) [off + 32..<off + 32 + 320]
      @ map (byte_at v) [off + 352..<off + 352 + 4] = encode_header ?h @ encode_msg m @ le_bytes 4 TXN_BUFFER_MAGIC_TAIL"
    using e map_byte_at_split [of v off 32 324] map_byte_at_split [of v "off + 32" 320 4]
    by (simp add: entry_bytes_def add.assoc)
  then have b: "map (byte_at v) [off..<off + 32] = encode_header ?h"
    "map (byte_at v) [off + 32..<off + 32 + 320] = encode_msg m"
    "map (byte_at v) [off + 352..<off + 352 + 4] = le_bytes 4 TXN_BUFFER_MAGIC_TAIL"
    by (auto simp: append_eq_append_conv length_encode_msg [OF m])
  have r: "length d = n \<Longrightarrow> o' + n \<le> vmo_size v
      \<Longrightarrow> txn_buffer_read_bytes v o' d = map (byte_at v) [o'..<o' + n]" for d o' n
    using txn_buffer_read_spec [OF v(1), of o' d] by simp
  have "txn_buffer_read_bytes v off (map junk [0..<32]) = encode_header ?h"
    "txn_buffer_read_bytes v (off + 32) (take 320 (map junk [0..<320])) = encode_msg m"
    "txn_buffer_read_bytes v (off + 352) [0, 0, 0, 0] = le_bytes 4 TXN_BUFFER_MAGIC_TAIL"
    using r [of "map junk [0..<32]" 32 off] r [of "take 320 (map junk [0..<320])" 320 "off + 32"]
      r [of "[0, 0, 0, 0]" 4 "off + 352"] v(2) b by simp_all
  moreover from this(3) have "txn_buffer_read_bytes v (352 + off) [0, 0, 0, 0] = le_bytes 4 TXN_BUFFER_MAGIC_TAIL"
    by (simp only: add.commute)
  ultimately show ?thesis using v(3,4)
    by (simp add: txn_buffer_iter_next_def Let_def sizeof_buffered_header_def sizeof_channel_msg_def align8_def
        decode_encode_msg [OF m] le_word_le_bytes)
qed

text \<open>Three consecutive writes leave their concatenation in memory and nothing else changed.\<close>

lemma write3:
  assumes v: "vmo_wf v" "off + length a + length b + length c \<le> vmo_size v"
    and w: "w = txn_buffer_write_bytes (txn_buffer_write_bytes (txn_buffer_write_bytes v off a) (off + length a) b)
      (off + length a + length b) c"
  shows "vmo_wf w" "vmo_size w = vmo_size v"
    "map (byte_at w) [off..<off + length (a @ b @ c)] = a @ b @ c"
    "i < off \<Longrightarrow> byte_at w i = byte_at v i"
proof -
  let ?v1 = "txn_buffer_write_bytes v off a"
  let ?v2 = "txn_buffer_write_bytes ?v1 (off + length a) b"
  have 1: "vmo_wf ?v1" "vmo_size ?v1 = vmo_size v" "\<And>i. i < vmo_size v \<Longrightarrow>
      byte_at ?v1 i = (if off \<le> i \<and> i < off + length a then a ! (i - off) else byte_at v i)"
    using txn_buffer_write_spec [OF v(1), of off a] v(2) by auto
  have 2: "vmo_wf ?v2" "vmo_size ?v2 = vmo_size v" "\<And>i. i < vmo_size v \<Longrightarrow>
      byte_at ?v2 i = (if off + length a \<le> i \<and> i < off + length a + length b then b ! (i - (off + length a)) else byte_at ?v1 i)"
    using txn_buffer_write_spec [OF 1(1), of "off + length a" b] v(2) 1(2) by auto
  have 3: "vmo_wf w" "vmo_size w = vmo_size v" "\<And>i. i < vmo_size v \<Longrightarrow>
      byte_at w i = (if off + length a + length b \<le> i \<and> i < off + length a + length b + length c
        then c ! (i - (off + length a + length b)) else byte_at ?v2 i)"
    using txn_buffer_write_spec [OF 2(1), of "off + length a + length b" c] v(2) 2(2) w by auto
  from 3 show "vmo_wf w" "vmo_size w = vmo_size v" by auto
  show "map (byte_at w) [off..<off + length (a @ b @ c)] = a @ b @ c"
  proof (rule nth_equalityI)
    fix k assume "k < length (map (byte_at w) [off..<off + length (a @ b @ c)])"
    then have k: "k < length a + length b + length c" by simp
    then have s: "off + k < vmo_size v" using v(2) by linarith
    consider "k < length a" | "length a \<le> k" "k < length a + length b" | "length a + length b \<le> k" by linarith
    then have "byte_at w (off + k) = (a @ b @ c) ! k"
      by cases (use k 3(3) [OF s] 2(3) [OF s] 1(3) [OF s] in \<open>auto simp: nth_append\<close>)
    with k show "map (byte_at w) [off..<off + length (a @ b @ c)] ! k = (a @ b @ c) ! k" by simp
  qed simp
  show "byte_at w i = byte_at v i" if "i < off"
  proof -
    have s: "i < vmo_size v" using that v(2) by linarith
    show ?thesis unfolding 3(3) [OF s] 2(3) [OF s] 1(3) [OF s] using that by simp
  qed
qed

lemma buffer_holds_snoc:
  assumes h: "buffer_holds t v rs" and sp: "tx_buffer_vmo_head t + 356 \<le> tx_buffer_vmo_capacity t"
    and r: "rec_shape r"
    and w: "vmo_wf w" "vmo_size w = vmo_size v"
      "map (byte_at w) [tx_buffer_vmo_head t..<tx_buffer_vmo_head t + 356] = entry_bytes (length rs) r"
      "\<And>i. i < tx_buffer_vmo_head t \<Longrightarrow> byte_at w i = byte_at v i"
  shows "buffer_holds (t\<lparr>tx_buffer_vmo_head := tx_buffer_vmo_head t + 356, tx_buffered_count := tx_buffered_count t + 1\<rparr>) w (rs @ [r])"
proof -
  from h have hd: "tx_buffer_vmo_head t = 356 * length rs" by (simp add: buffer_holds_def)
  have "map (byte_at w) [356 * k..<356 * k + 356] = entry_bytes k ((rs @ [r]) ! k)" if "k < length (rs @ [r])" for k
  proof (cases "k < length rs")
    case True
    have "map (byte_at w) [356 * k..<356 * k + 356] = map (byte_at v) [356 * k..<356 * k + 356]"
    proof (rule map_cong [OF refl])
      fix i assume "i \<in> set [356 * k..<356 * k + 356]"
      with True have "i < tx_buffer_vmo_head t" unfolding hd by auto
      then show "byte_at w i = byte_at v i" by (rule w(4))
    qed
    with True h show ?thesis by (simp add: buffer_holds_def nth_append)
  next
    case False
    with that have "k = length rs" by simp
    with w(3) show ?thesis unfolding hd by simp
  qed
  with h sp r w(1,2) show ?thesis by (simp add: buffer_holds_def)
qed

section \<open>Appending\<close>

lemma txn_kernel_sel [simp]:
  "txns (put_txn p t s) = (txns s)(p \<mapsto> t)" "vmos (put_txn p t s) = vmos s"
  "txns (put_vmo p v s) = txns s" "vmos (put_vmo p v s) = (vmos s)(p \<mapsto> v)"
  by (simp_all add: put_txn_def put_vmo_def)

lemma put_txn_frame [simp]:
  "chans (put_txn p t s) = chans s" "eps (put_txn p t s) = eps s" "k_tasks (put_txn p t s) = k_tasks s"
  "g_cap_object_ptrs (put_txn p t s) = g_cap_object_ptrs s" "ktrace (put_txn p t s) = ktrace s"
  "g_chan_reg_head (put_txn p t s) = g_chan_reg_head s" "g_txn_live_head (put_txn p t s) = g_txn_live_head s"
  "cap_object_cache (put_txn p t s) = cap_object_cache s" "g_cap_object_count (put_txn p t s) = g_cap_object_count s"
  "chans (put_vmo q v s) = chans s" "eps (put_vmo q v s) = eps s" "k_tasks (put_vmo q v s) = k_tasks s"
  "g_cap_object_ptrs (put_vmo q v s) = g_cap_object_ptrs s" "ktrace (put_vmo q v s) = ktrace s"
  "g_chan_reg_head (put_vmo q v s) = g_chan_reg_head s" "g_txn_live_head (put_vmo q v s) = g_txn_live_head s"
  "cap_object_cache (put_vmo q v s) = cap_object_cache s" "g_cap_object_count (put_vmo q v s) = g_cap_object_count s"
  by (simp_all add: put_txn_def put_vmo_def)

text \<open>The records a transaction has buffered, in order.\<close>

definition txn_buffered :: "'a txn_kernel_scheme \<Rightarrow> ptr \<Rightarrow> (u64 \<times> u32 \<times> channel_msg) list \<Rightarrow> bool" where
  "txn_buffered s tp rs \<longleftrightarrow>
    (\<exists>t. txns s tp = Some t \<and>
      (if tx_buffer_vmo t = NULL then rs = [] \<and> tx_buffer_vmo_head t = 0 \<and> tx_buffered_count t = 0
       else \<exists>v. vmos s (tx_buffer_vmo t) = Some v \<and> buffer_holds t v rs))"

lemma fresh_vmo_wf: "vmo_wf (fresh_vmo cap)" "cap mod 4096 = 0 \<Longrightarrow> vmo_size (fresh_vmo cap) = cap"
  by (auto simp: fresh_vmo_def vmo_wf_def vmo_size_def)

lemma lazy_alloc_holds:
  assumes "txns s tp = Some t" "tx_buffer_vmo t = NULL" "tx_buffered_count t = 0" "vp \<noteq> NULL"
  obtains t' where "txn_buffer_lazy_alloc (Some vp) tp s = (0, put_txn tp t' (put_vmo vp (fresh_vmo (tx_buffer_vmo_capacity t')) s))"
    "buffer_holds t' (fresh_vmo (tx_buffer_vmo_capacity t')) []" "tx_buffer_vmo t' = vp"
proof -
  define c0 where "c0 = (if tx_buffer_vmo_capacity t = 0 then TXN_DEFAULT_BUFFER_BYTES else tx_buffer_vmo_capacity t)"
  define c where "c = (if c0 mod 4096 \<noteq> 0 then (c0 + 4095) div 4096 * 4096 else c0)"
  let ?t = "t\<lparr>tx_buffer_vmo := vp, tx_buffer_vmo_capacity := c, tx_buffer_vmo_head := 0\<rparr>"
  have "txn_buffer_lazy_alloc (Some vp) tp s = (0, put_txn tp ?t (put_vmo vp (fresh_vmo c) s))"
    using assms by (simp add: txn_buffer_lazy_alloc_def Let_def c_def c0_def)
  moreover have "c mod 4096 = 0" by (auto simp: c_def)
  then have "buffer_holds ?t (fresh_vmo c) []"
    using assms fresh_vmo_wf [of c] by (simp add: buffer_holds_def)
  ultimately show ?thesis using that [of ?t] by simp
qed

lemma append_holds:
  assumes t: "txns s tp = Some t" "vmos s (tx_buffer_vmo t) = Some v" "buffer_holds t v rs" and m: "msg_shape m"
    and rc: "txn_buffer_lazy_alloc va tp s0 = (0, s)"
  shows "if 356 * length rs + 356 > tx_buffer_vmo_capacity t
    then txn_buffer_append va tp cid m fl s0 = (- ENOSPC, s)
    else \<exists>t' v'. txn_buffer_append va tp cid m fl s0 = (0, put_txn tp t' (put_vmo (tx_buffer_vmo t) v' s))
      \<and> tx_buffer_vmo t' = tx_buffer_vmo t \<and> buffer_holds t' v' (rs @ [(cid, fl, m)])"
proof (cases "356 * length rs + 356 > tx_buffer_vmo_capacity t")
  case True
  with t rc show ?thesis by (simp add: txn_buffer_append_def buffer_holds_def)
next
  case False
  define off where "off = tx_buffer_vmo_head t"
  from t(3) have hd: "off = 356 * length rs" "tx_buffered_count t = length rs" "vmo_wf v" "tx_buffer_vmo_capacity t \<le> vmo_size v"
    by (auto simp: buffer_holds_def off_def)
  let ?h = "encode_header \<lparr>bh_magic = TXN_BUFFER_MAGIC_HEAD, bh_pad0 = 0, bh_target_chan_id = cid,
      bh_payload_len = 320, bh_flags = fl, bh_original_send_seq = of_nat (length rs)\<rparr>"
  let ?T = "le_bytes 4 TXN_BUFFER_MAGIC_TAIL"
  define w where "w = txn_buffer_write_bytes (txn_buffer_write_bytes (txn_buffer_write_bytes v off ?h) (off + length ?h) (encode_msg m))
      (off + length ?h + length (encode_msg m)) ?T"
  have le: "off + length ?h + length (encode_msg m) + length ?T \<le> vmo_size v"
    using False hd by (simp add: length_encode_msg [OF m])
  note W = write3 [OF hd(3) le w_def]
  have e: "?h @ encode_msg m @ ?T = entry_bytes (length rs) (cid, fl, m)" by (simp add: entry_bytes_def)
  have l: "length (?h @ encode_msg m @ ?T) = 356" by (simp add: length_encode_msg [OF m])
  let ?t = "t\<lparr>tx_buffer_vmo_head := tx_buffer_vmo_head t + 356, tx_buffered_count := tx_buffered_count t + 1\<rparr>"
  have "buffer_holds ?t w (rs @ [(cid, fl, m)])"
  proof (rule buffer_holds_snoc [OF t(3)])
    show "map (byte_at w) [tx_buffer_vmo_head t..<tx_buffer_vmo_head t + 356] = entry_bytes (length rs) (cid, fl, m)"
      using W(3) unfolding e off_def l [unfolded e] .
  qed (use W(1,2,4) False hd m in \<open>simp_all add: off_def rec_shape_def\<close>)
  moreover have "txn_buffer_append va tp cid m fl s0 = (0, put_txn tp ?t (put_vmo (tx_buffer_vmo t) w s))"
    using False t(1,2) rc hd
    by (simp add: txn_buffer_append_def Let_def off_def [symmetric] w_def length_encode_msg [OF m]
        sizeof_buffered_header_def sizeof_channel_msg_def align8_def add.commute [of 356])
  ultimately show ?thesis unfolding if_not_P [OF False] by (intro exI [of _ ?t] exI [of _ w]) simp
qed

lemma append_buffered:
  assumes b: "txn_buffered s tp rs" and m: "msg_shape m" and vp: "vp \<noteq> NULL"
    and a: "txn_buffer_append (Some vp) tp cid m fl s = (rc, s')"
  shows "rc = 0 \<and> txn_buffered s' tp (rs @ [(cid, fl, m)])
    \<or> rc = - ENOSPC \<and> txn_buffered s' tp rs \<and> (\<exists>t. txns s' tp = Some t \<and> tx_buffer_vmo_capacity t < 356 * length rs + 356)"
proof -
  from b obtain t where t: "txns s tp = Some t" by (auto simp: txn_buffered_def)
  obtain s1 t1 v1 where s1: "txn_buffer_lazy_alloc (Some vp) tp s = (0, s1)" "txns s1 tp = Some t1"
    "vmos s1 (tx_buffer_vmo t1) = Some v1" "buffer_holds t1 v1 rs"
  proof (cases "tx_buffer_vmo t = NULL")
    case True
    with b t have r: "rs = []" "tx_buffered_count t = 0" by (auto simp: txn_buffered_def)
    from lazy_alloc_holds [OF t True r(2) vp] r(1) that show ?thesis by fastforce
  next
    case False
    with b t obtain v where "vmos s (tx_buffer_vmo t) = Some v" "buffer_holds t v rs" by (auto simp: txn_buffered_def)
    with False t that [of s t v] show ?thesis by (simp add: txn_buffer_lazy_alloc_def)
  qed
  have nn: "tx_buffer_vmo t1 \<noteq> NULL" using s1(4) by (simp add: buffer_holds_def)
  show ?thesis
  proof (cases "356 * length rs + 356 > tx_buffer_vmo_capacity t1")
    case True
    with append_holds [OF s1(2-4) m s1(1), of cid fl] a have "rc = - ENOSPC" "s' = s1" by auto
    with True s1 nn show ?thesis by (auto simp: txn_buffered_def)
  next
    case False
    with append_holds [OF s1(2-4) m s1(1), of cid fl] a obtain t' v' where
      "rc = 0" "s' = put_txn tp t' (put_vmo (tx_buffer_vmo t1) v' s1)" "tx_buffer_vmo t' = tx_buffer_vmo t1"
      "buffer_holds t' v' (rs @ [(cid, fl, m)])" by auto
    with nn show ?thesis by (auto simp: txn_buffered_def)
  qed
qed

lemma iter_buffered:
  assumes "txn_buffered s tp rs" "txns s tp = Some t" "vmos s (tx_buffer_vmo t) = Some v"
  shows "k < length rs \<Longrightarrow> \<exists>hdr. txn_buffer_iter_next junk t v (356 * k) = Inr (hdr, snd (snd (rs ! k)), 356 * Suc k)
      \<and> bh_target_chan_id hdr = fst (rs ! k) \<and> bh_flags hdr = fst (snd (rs ! k)) \<and> bh_original_send_seq hdr = of_nat k"
    and "k \<ge> length rs \<Longrightarrow> txn_buffer_iter_next junk t v (356 * k) = Inl (- ENODATA)"
proof -
  show "txn_buffer_iter_next junk t v (356 * k) = Inl (- ENODATA)" if "k \<ge> length rs"
    using assms that by (auto simp: txn_buffered_def txn_buffer_iter_next_def buffer_holds_def split: if_splits)
  show "\<exists>hdr. txn_buffer_iter_next junk t v (356 * k) = Inr (hdr, snd (snd (rs ! k)), 356 * Suc k)
      \<and> bh_target_chan_id hdr = fst (rs ! k) \<and> bh_flags hdr = fst (snd (rs ! k)) \<and> bh_original_send_seq hdr = of_nat k"
    if k: "k < length rs"
  proof -
    obtain cid fl m where r: "rs ! k = (cid, fl, m)" by (metis prod_cases3)
    from assms k have h: "buffer_holds t v rs" by (auto simp: txn_buffered_def split: if_splits)
    from h k have "rec_shape (rs ! k)" by (simp add: buffer_holds_def list_all_length)
    then have m: "msg_shape m" by (simp add: rec_shape_def r)
    have e: "map (byte_at v) [356 * k..<356 * k + 356] = entry_bytes k (cid, fl, m)"
      using h k r by (simp add: buffer_holds_def)
    have lt: "356 * k + 356 \<le> tx_buffer_vmo_head t" using h k by (simp add: buffer_holds_def)
    then have "356 * k + 356 \<le> vmo_size v" "356 * k < tx_buffer_vmo_head t" "tx_buffer_vmo t \<noteq> NULL" "vmo_wf v"
      using h by (auto simp: buffer_holds_def)
    from iter_next_entry [OF this(4,1,3,2) e m] show ?thesis by (simp add: r add.commute)
  qed
qed

section \<open>The scope test\<close>

lemma scope_search_correct:
  "sorted xs \<Longrightarrow> 0 \<le> lo \<Longrightarrow> hi < int (length xs)
    \<Longrightarrow> scope_search xs p lo hi \<longleftrightarrow> (\<forall>i. lo \<le> i \<and> i \<le> hi \<longrightarrow> xs ! nat i \<noteq> p)"
proof (induction xs p lo hi rule: scope_search.induct)
  case (1 xs p lo hi)
  show ?case
  proof (cases "lo \<le> hi")
    case True
    define m where "m = lo + (hi - lo) div 2"
    have m: "lo \<le> m" "m \<le> hi" using True by (auto simp: m_def)
    have le: "xs ! nat i \<le> xs ! nat j" if "lo \<le> i" "i \<le> j" "j \<le> hi" for i j
      using that "1.prems" by (intro sorted_nth_mono) auto
    show ?thesis
    proof (cases "xs ! nat m = p")
      case eq: True
      then have "\<not> scope_search xs p lo hi"
        using True by (subst scope_search.simps) (simp add: Let_def m_def [symmetric])
      with eq m show ?thesis by blast
    next
      case neq: False
      show ?thesis
      proof (cases "xs ! nat m < p")
        case less: True
        have "scope_search xs p lo hi = scope_search xs p (m + 1) hi"
          using True neq less by (subst scope_search.simps) (simp add: Let_def m_def [symmetric])
        also have "\<dots> \<longleftrightarrow> (\<forall>i. m + 1 \<le> i \<and> i \<le> hi \<longrightarrow> xs ! nat i \<noteq> p)"
          using "1.IH"(1) [OF True m_def refl neq less] "1.prems" m by simp
        also have "\<dots> \<longleftrightarrow> (\<forall>i. lo \<le> i \<and> i \<le> hi \<longrightarrow> xs ! nat i \<noteq> p)"
        proof -
          have b: "xs ! nat i \<noteq> p" if "lo \<le> i" "i \<le> m" for i using le [OF that m(2)] less by auto
          show ?thesis
          proof (intro iffI allI impI)
            fix i assume "\<forall>i. m + 1 \<le> i \<and> i \<le> hi \<longrightarrow> xs ! nat i \<noteq> p" "lo \<le> i \<and> i \<le> hi"
            then show "xs ! nat i \<noteq> p" by (cases "i \<le> m") (simp_all add: b)
          qed (use m in simp)
        qed
        finally show ?thesis .
      next
        case ge: False
        have "scope_search xs p lo hi = scope_search xs p lo (m - 1)"
          using True neq ge by (subst scope_search.simps) (simp add: Let_def m_def [symmetric])
        also have "\<dots> \<longleftrightarrow> (\<forall>i. lo \<le> i \<and> i \<le> m - 1 \<longrightarrow> xs ! nat i \<noteq> p)"
          using "1.IH"(2) [OF True m_def refl neq ge] "1.prems" m by simp
        also have "\<dots> \<longleftrightarrow> (\<forall>i. lo \<le> i \<and> i \<le> hi \<longrightarrow> xs ! nat i \<noteq> p)"
        proof -
          have "xs ! nat i \<noteq> p" if "m \<le> i" "i \<le> hi" for i
            using le [OF m(1) that] neq ge by auto
          note b = this
          show ?thesis
          proof (intro iffI allI impI)
            fix i assume "\<forall>i. lo \<le> i \<and> i \<le> m - 1 \<longrightarrow> xs ! nat i \<noteq> p" "lo \<le> i \<and> i \<le> hi"
            then show "xs ! nat i \<noteq> p" by (cases "m \<le> i") (simp_all add: b)
          qed (use m in simp)
        qed
        finally show ?thesis .
      qed
    qed
  qed (subst scope_search.simps, auto)
qed

lemma scope_search_all:
  assumes "sorted xs"
  shows "scope_search xs p 0 (int (length xs) - 1) \<longleftrightarrow> p \<notin> set xs"
proof -
  have "(\<forall>i. 0 \<le> i \<and> i \<le> int (length xs) - 1 \<longrightarrow> xs ! nat i \<noteq> p) \<longleftrightarrow> (\<forall>k < length xs. xs ! k \<noteq> p)"
  proof (intro iffI allI impI)
    fix k assume a: "\<forall>i. 0 \<le> i \<and> i \<le> int (length xs) - 1 \<longrightarrow> xs ! nat i \<noteq> p" and "k < length xs"
    then show "xs ! k \<noteq> p" using a [rule_format, of "int k"] by simp
  qed (simp add: nat_less_iff)
  with scope_search_correct [OF assms, of 0 "int (length xs) - 1" p] show ?thesis
    by (simp add: in_set_conv_nth)
qed

section \<open>Properties\<close>

definition flat_bytes :: "vmo \<Rightarrow> u8 list" where
  "flat_bytes v = concat (map the (vm_pages v))"

lemma flat_pages:
  "\<forall>pg\<in>set pgs. length (the pg) = 4096 \<Longrightarrow>
    concat (map the pgs) = map (\<lambda>i. the (pgs ! (i div 4096)) ! (i mod 4096)) [0..<4096 * length pgs]"
proof (induction pgs)
  case (Cons pg pgs)
  have l: "length (the pg) = 4096" using Cons.prems by simp
  have u: "[0..<4096 * length (pg # pgs)] = [0..<4096] @ map (\<lambda>i. i + 4096) [0..<4096 * length pgs]"
    using upt_add_eq_append [of 0 4096 "4096 * length pgs"] by (simp add: map_add_upt add.commute)
  have "map (\<lambda>i. the ((pg # pgs) ! (i div 4096)) ! (i mod 4096)) [0..<4096] = the pg"
    using l by (intro nth_equalityI) simp_all
  moreover have "map (\<lambda>i. the ((pg # pgs) ! (i div 4096)) ! (i mod 4096)) (map (\<lambda>i. i + 4096) [0..<4096 * length pgs])
      = concat (map the pgs)"
    using Cons by (simp add: comp_def div_add_self2)
  ultimately show ?case unfolding u map_append by simp
qed simp

lemma flat_bytes_eq: "vmo_wf v \<Longrightarrow> flat_bytes v = map (byte_at v) [0..<vmo_size v]"
  unfolding flat_bytes_def byte_at_def vmo_size_def by (rule flat_pages) (auto simp: vmo_wf_def)

text \<open>
  C14: the page-by-page byte access of the transaction buffer is access to one flat array: on a fully
  backed memory object, a write inside its size replaces exactly the addressed bytes of the
  concatenated pages, and a read returns exactly the addressed bytes, whatever the destination held
  and wherever the range crosses page boundaries.
\<close>

theorem txn_buffer_paging_transparent:
  assumes "vmo_wf v" "off + length src \<le> vmo_size v" "off' + length dst \<le> vmo_size v"
  shows "flat_bytes (txn_buffer_write_bytes v off src) = splice off src (flat_bytes v)
    \<and> txn_buffer_read_bytes v off' dst = take (length dst) (drop off' (flat_bytes v))
    \<and> vmo_wf (txn_buffer_write_bytes v off src)"
proof -
  from txn_buffer_write_spec [OF assms(1,2)] have W: "vmo_wf (txn_buffer_write_bytes v off src)"
    "vmo_size (txn_buffer_write_bytes v off src) = vmo_size v"
    "\<And>i. i < vmo_size v \<Longrightarrow> byte_at (txn_buffer_write_bytes v off src) i =
      (if off \<le> i \<and> i < off + length src then src ! (i - off) else byte_at v i)" by auto
  have "flat_bytes (txn_buffer_write_bytes v off src) = splice off src (flat_bytes v)"
    unfolding flat_bytes_eq [OF W(1)] flat_bytes_eq [OF assms(1)] W(2)
  proof (rule nth_equalityI)
    fix i assume "i < length (map (byte_at (txn_buffer_write_bytes v off src)) [0..<vmo_size v])"
    then have i: "i < vmo_size v" by simp
    with W(3) [OF i] assms(2)
    show "map (byte_at (txn_buffer_write_bytes v off src)) [0..<vmo_size v] ! i
        = splice off src (map (byte_at v) [0..<vmo_size v]) ! i"
      by (subst nth_splice) simp_all
  qed (use assms(2) in simp)
  moreover have "txn_buffer_read_bytes v off' dst = take (length dst) (drop off' (flat_bytes v))"
    unfolding txn_buffer_read_spec [OF assms(1,3)] flat_bytes_eq [OF assms(1)]
    using assms(3) by (simp add: drop_map take_map)
  ultimately show ?thesis using W(1) by blast
qed

theorem txn_buffer_paging_transparent_witness:
  "flat_bytes (txn_buffer_write_bytes (fresh_vmo 8192) 4095 [1, 2]) = splice 4095 [1, 2] (flat_bytes (fresh_vmo 8192))"
proof -
  have "vmo_size (fresh_vmo 8192) = 8192" by (rule fresh_vmo_wf) simp
  then show ?thesis
    using txn_buffer_paging_transparent [OF fresh_vmo_wf(1) [of 8192], of 4095 "[1, 2]" 0 "[]"] by simp
qed

text \<open>
  C3: a buffer returns what was put into it. If a transaction has buffered the records \<open>rs\<close> and an
  append succeeds, the replay iterator, started at offset 0 and advanced by the offsets it returns,
  delivers those records and then the new one, each with its channel, flags, message and running
  number, and then reports the end of the data; the iterator depends on nothing the stack held.
\<close>

theorem txn_buffer_fifo:
  assumes "txn_buffered s tp rs" "msg_shape m" "vp \<noteq> NULL"
    and "txn_buffer_append (Some vp) tp cid m fl s = (0, s')"
  shows "\<exists>t v. txns s' tp = Some t \<and> vmos s' (tx_buffer_vmo t) = Some v
    \<and> (\<forall>k \<le> length rs. \<exists>hdr. txn_buffer_iter_next junk t v (356 * k)
          = Inr (hdr, snd (snd ((rs @ [(cid, fl, m)]) ! k)), 356 * Suc k)
        \<and> bh_target_chan_id hdr = fst ((rs @ [(cid, fl, m)]) ! k)
        \<and> bh_flags hdr = fst (snd ((rs @ [(cid, fl, m)]) ! k)) \<and> bh_original_send_seq hdr = of_nat k)
    \<and> txn_buffer_iter_next junk t v (356 * Suc (length rs)) = Inl (- ENODATA)"
proof -
  have b: "txn_buffered s' tp (rs @ [(cid, fl, m)])"
    using append_buffered [OF assms] by (auto simp: ENOSPC_def)
  then obtain t v where t: "txns s' tp = Some t" "vmos s' (tx_buffer_vmo t) = Some v"
    by (auto simp: txn_buffered_def split: if_splits)
  have "txn_buffer_iter_next junk t v (356 * Suc (length rs)) = Inl (- ENODATA)"
    using iter_buffered(2) [OF b t, of "Suc (length rs)" junk] by simp
  moreover have "k < length (rs @ [(cid, fl, m)])" if "k \<le> length rs" for k using that by simp
  ultimately show ?thesis using t iter_buffered(1) [OF b t, of _ junk] by blast
qed

definition demo_txn :: transaction where
  "demo_txn = \<lparr>tx_id = 1, tx_flags = 1, tx_cap_object_idx = 1, tx_creator_pid = 1, tx_nesting_depth = 0,
    tx_backing_snapshot = 0x9000, tx_parent_txn = NULL, tx_buffer_vmo = NULL, tx_buffer_vmo_capacity = 4096,
    tx_buffer_vmo_head = 0, tx_buffered_count = 0, tx_scope_pids = [1, 4], tx_state = TXN_STATE_ACTIVE,
    tx_replay_cursor = 0, tx_replay_delivered = 0, tx_replay_failed_chan_id = 0, tx_state_waitq = [],
    tx_name = ''demo'', tx_next = NULL, tx_prev = NULL\<rparr>"

definition demo_txn_kernel :: txn_kernel where
  "demo_txn_kernel = \<lparr>cap_object_cache = False, g_cap_object_ptrs = \<lambda>_. None, g_cap_object_count = 0, ktrace = [],
    k_tasks = [1 \<mapsto> (demo_task 1)\<lparr>tk_txn_current := 0x5000, tk_txn_stack_depth := 1\<rparr>], g_cap_system_bootcap_idx = 0,
    chans = [0x1000 \<mapsto> demo_chan 0], eps = \<lambda>_. None, g_next_chan_id = 2, g_chan_reg_head = 0x1000, g_hashes = [7],
    g_manifest_ready = True, txns = [0x5000 \<mapsto> demo_txn], vmos = \<lambda>_. None, g_txn_cache = True, g_txn_next_id = 2,
    g_txn_live_head = 0x5000\<rparr>"

lemma zero_msg_shape [simp]: "msg_shape zero_msg"
  by (simp add: msg_shape_def zero_msg_def)

lemma demo_txn_buffered: "txn_buffered demo_txn_kernel 0x5000 []"
  by (simp add: txn_buffered_def demo_txn_kernel_def demo_txn_def)

lemma demo_append_ok:
  "\<exists>s'. txn_buffer_append (Some 0x7000) 0x5000 1 zero_msg 0 demo_txn_kernel = (0, s')"
proof -
  have t: "txns demo_txn_kernel 0x5000 = Some demo_txn" by (simp add: demo_txn_kernel_def)
  have d: "tx_buffer_vmo demo_txn = NULL" "tx_buffered_count demo_txn = 0" by (simp_all add: demo_txn_def)
  obtain rc s' where a: "txn_buffer_append (Some 0x7000) 0x5000 1 zero_msg 0 demo_txn_kernel = (rc, s')" by fastforce
  have "txns s' 0x5000 = Some t' \<Longrightarrow> tx_buffer_vmo_capacity t' = 4096" for t'
    using a by (auto simp: txn_buffer_append_def txn_buffer_lazy_alloc_def t d demo_txn_def Let_def split: if_splits)
  with append_buffered [OF demo_txn_buffered zero_msg_shape _ a] a show ?thesis by auto
qed

theorem txn_buffer_fifo_witness:
  "\<exists>s' t v hdr. txn_buffer_append (Some 0x7000) 0x5000 1 zero_msg 0 demo_txn_kernel = (0, s')
    \<and> txns s' 0x5000 = Some t \<and> vmos s' (tx_buffer_vmo t) = Some v
    \<and> txn_buffer_iter_next (\<lambda>_. 0) t v 0 = Inr (hdr, zero_msg, 356) \<and> bh_target_chan_id hdr = 1"
proof -
  obtain s' where a: "txn_buffer_append (Some 0x7000) 0x5000 1 zero_msg 0 demo_txn_kernel = (0, s')"
    using demo_append_ok by blast
  from txn_buffer_fifo [OF demo_txn_buffered zero_msg_shape _ a, of "\<lambda>_. 0"] obtain t v hdr where
    "txns s' 0x5000 = Some t" "vmos s' (tx_buffer_vmo t) = Some v"
    "txn_buffer_iter_next (\<lambda>_. 0) t v 0 = Inr (hdr, zero_msg, 356)" "bh_target_chan_id hdr = 1" by auto
  with a show ?thesis by blast
qed

end
