(* ===== verification/Channel_Io.thy ===== *)
theory Channel_Io
  imports Txn_Buffer
begin

text \<open>
  Sending and receiving (\<open>chan_send\<close> and \<open>chan_recv\<close> of kernel/ipc/channel.c, and
  \<open>sched_block_on_channel\<close> of arch/x86_64/cpu/sched/sched.c). A send of a task inside a transaction is
  routed into the buffers of the transactions whose scope excludes the peer. A blocking call is
  driven by a list of episodes: what the rest of the system did while the task slept, with the wait
  result it was given; a call that is still asleep after the last episode has no result.
\<close>

section \<open>Blocking\<close>

datatype chan_dir = CHAN_WAIT_READ | CHAN_WAIT_WRITE

definition waiters :: "chan_dir \<Rightarrow> channel \<Rightarrow> pid list" where
  "waiters d c = (case d of CHAN_WAIT_READ \<Rightarrow> ch_read_waiters c | CHAN_WAIT_WRITE \<Rightarrow> ch_write_waiters c)"

definition set_waiters :: "chan_dir \<Rightarrow> pid list \<Rightarrow> channel \<Rightarrow> channel" where
  "set_waiters d ws c =
    (case d of CHAN_WAIT_READ \<Rightarrow> c\<lparr>ch_read_waiters := ws\<rparr> | CHAN_WAIT_WRITE \<Rightarrow> c\<lparr>ch_write_waiters := ws\<rparr>)"

text \<open>The unlinking walk, which cuts the list off when it has passed \<open>n\<close> other waiters.\<close>

fun unlink_waiter :: "nat \<Rightarrow> pid \<Rightarrow> pid list \<Rightarrow> pid list" where
  "unlink_waiter n p [] = []"
| "unlink_waiter n p (w # ws) =
    (if w = p then ws else case n of 0 \<Rightarrow> [] | Suc m \<Rightarrow> w # unlink_waiter m p ws)"

type_synonym 's episode = "'s \<Rightarrow> int \<times> 's"

definition sched_block_on_channel ::
  "'a chan_state_scheme episode \<Rightarrow> ptr \<Rightarrow> chan_dir \<Rightarrow> pid \<Rightarrow> 'a chan_state_scheme \<Rightarrow> int \<times> 'a chan_state_scheme" where
  "sched_block_on_channel e p d cur s =
    (let s = upd_chan p (\<lambda>c. set_waiters d (cur # waiters d c) c) s;
         (result, s) = e s
     in (result, upd_chan p (\<lambda>c. set_waiters d (unlink_waiter 256 cur (waiters d c)) c) s))"

section \<open>Sending\<close>

text \<open>The transaction walk of \<^verbatim>\<open>chan_send\<close>; \<open>va\<close> gives each transaction the memory object it may allocate.\<close>

partial_function (option) txn_route ::
  "(ptr \<Rightarrow> ptr option) \<Rightarrow> channel \<Rightarrow> channel_msg \<Rightarrow> pid \<Rightarrow> ptr \<Rightarrow> bool \<Rightarrow> 'a txn_kernel_scheme
    \<Rightarrow> (bool cres \<times> 'a txn_kernel_scheme) option" where
  "txn_route va c msg sender tcur any_external s =
    (if tcur = NULL then Some (Inr any_external, s)
     else case txns s tcur of
       None \<Rightarrow> None
     | Some t \<Rightarrow>
        if txn_is_external_peer s c t sender then
          (if fst (txn_buffer_append (va tcur) tcur (ch_id c) msg 0 s) < 0
           then Some (Inl (fst (txn_buffer_append (va tcur) tcur (ch_id c) msg 0 s)),
                      snd (txn_buffer_append (va tcur) tcur (ch_id c) msg 0 s))
           else txn_route va c msg sender (tx_parent_txn t) True
                  (snd (txn_buffer_append (va tcur) tcur (ch_id c) msg 0 s)))
        else txn_route va c msg sender (tx_parent_txn t) any_external s)"

declare txn_route.simps [code]

text \<open>One round of the insertion loop; \<open>None\<close> means the sender has to sleep.\<close>

definition chan_send_try ::
  "ptr \<Rightarrow> pid \<Rightarrow> channel_msg \<Rightarrow> u64 \<Rightarrow> 'a chan_state_scheme \<Rightarrow> (int \<times> 'a chan_state_scheme) option" where
  "chan_send_try p sender msg timeout_ns s =
    (case chans s p of
      None \<Rightarrow> None
    | Some c \<Rightarrow>
       if ch_frozen_at_snap c \<noteq> 0 then Some (CAP_V2_EFROZEN, s)
       else if ch_msgcount c < ch_capacity c then
         (let c = chan_ring_put c sender msg;
              (ws, ev) = sched_wake_one_on_channel (ch_read_waiters c) 0
          in Some (0, log_events ev (put_chan p (c\<lparr>ch_read_waiters := ws\<rparr>) s)))
       else if ch_mode c = CHAN_MODE_NONBLOCKING \<or> timeout_ns = 0 then Some (CAP_V2_EAGAIN, s)
       else None)"

fun chan_send_loop ::
  "'a chan_state_scheme episode list \<Rightarrow> ptr \<Rightarrow> pid \<Rightarrow> channel_msg \<Rightarrow> u64 \<Rightarrow> 'a chan_state_scheme
    \<Rightarrow> (int \<times> 'a chan_state_scheme) option" where
  "chan_send_loop [] p sender msg timeout_ns s = chan_send_try p sender msg timeout_ns s"
| "chan_send_loop (e # env) p sender msg timeout_ns s =
    (case chan_send_try p sender msg timeout_ns s of
      Some r \<Rightarrow> Some r
    | None \<Rightarrow>
       let (rc, s) = sched_block_on_channel e p CHAN_WAIT_WRITE sender s
       in if rc \<noteq> 0 then Some (rc, s) else chan_send_loop env p sender msg timeout_ns s)"

text \<open>\<open>inject\<close> says whether the fault injection of the debug build fires.\<close>

definition chan_send ::
  "bool \<Rightarrow> (ptr \<Rightarrow> ptr option) \<Rightarrow> 'a txn_kernel_scheme episode list \<Rightarrow> ptr \<Rightarrow> pid \<Rightarrow> channel_msg \<Rightarrow> u64
    \<Rightarrow> 'a txn_kernel_scheme \<Rightarrow> (int \<times> 'a txn_kernel_scheme) option" where
  "chan_send inject va env p sender msg timeout_ns s =
    (if \<not> chan_check s p then Some (CAP_V2_EINVAL, s)
     else case (chans s p, k_tasks s sender) of
       (Some c, Some t) \<Rightarrow>
        if inject then Some (CAP_V2_EAGAIN, s)
        else if mh_type_hash (cm_header msg) \<noteq> ch_type_hash c then
          Some (CAP_V2_EPROTOTYPE,
            log_event (AuditChanTypeMismatch sender (ch_write_cap_idx c) (ch_type_hash c) (mh_type_hash (cm_header msg)))
              (put_chan p (c\<lparr>ch_rejected_messages := ch_rejected_messages c + 1\<rparr>) s))
        else if tk_txn_current t \<noteq> NULL \<and> \<not> tk_replay_in_progress t then
          (case txn_route va c msg sender (tk_txn_current t) False s of
             None \<Rightarrow> None
           | Some (Inl rc, s) \<Rightarrow> Some (rc, s)
           | Some (Inr any_external, s) \<Rightarrow>
              if any_external then Some (0, s) else chan_send_loop env p sender msg timeout_ns s)
        else chan_send_loop env p sender msg timeout_ns s
     | _ \<Rightarrow> Some (CAP_V2_EINVAL, s))"

section \<open>Receiving\<close>

definition chan_recv_try ::
  "ptr \<Rightarrow> u64 \<Rightarrow> 'a chan_state_scheme \<Rightarrow> (channel_msg cres \<times> 'a chan_state_scheme) option" where
  "chan_recv_try p timeout_ns s =
    (case chans s p of
      None \<Rightarrow> None
    | Some c \<Rightarrow>
       if ch_frozen_at_snap c \<noteq> 0 then Some (Inl CAP_V2_EFROZEN, s)
       else if ch_msgcount c > 0 then
         (let (msg, c) = chan_ring_get c;
              (ws, ev) = sched_wake_one_on_channel (ch_write_waiters c) 0
          in Some (Inr msg, log_events ev (put_chan p (c\<lparr>ch_write_waiters := ws\<rparr>) s)))
       else if ch_refcount c < 2 then Some (Inl CAP_V2_EPIPE, s)
       else if ch_mode c = CHAN_MODE_NONBLOCKING \<or> timeout_ns = 0 then Some (Inl CAP_V2_EAGAIN, s)
       else None)"

fun chan_recv_loop ::
  "'a chan_state_scheme episode list \<Rightarrow> ptr \<Rightarrow> pid \<Rightarrow> u64 \<Rightarrow> 'a chan_state_scheme
    \<Rightarrow> (channel_msg cres \<times> 'a chan_state_scheme) option" where
  "chan_recv_loop [] p receiver timeout_ns s = chan_recv_try p timeout_ns s"
| "chan_recv_loop (e # env) p receiver timeout_ns s =
    (case chan_recv_try p timeout_ns s of
      Some r \<Rightarrow> Some r
    | None \<Rightarrow>
       let (rc, s) = sched_block_on_channel e p CHAN_WAIT_READ receiver s
       in if rc \<noteq> 0 then Some (Inl rc, s) else chan_recv_loop env p receiver timeout_ns s)"

text \<open>On success the C function returns the inline length, which is in the header of the message.\<close>

definition chan_recv ::
  "'a chan_state_scheme episode list \<Rightarrow> ptr \<Rightarrow> pid \<Rightarrow> u64 \<Rightarrow> 'a chan_state_scheme
    \<Rightarrow> (channel_msg cres \<times> 'a chan_state_scheme) option" where
  "chan_recv env p receiver timeout_ns s =
    (if \<not> chan_check s p \<or> k_tasks s receiver = None then Some (Inl CAP_V2_EINVAL, s)
     else chan_recv_loop env p receiver timeout_ns s)"

section \<open>Routing lemmas\<close>

text \<open>A transaction without its buffer.\<close>

definition tx_core :: "transaction \<Rightarrow> transaction" where
  "tx_core t = t\<lparr>tx_buffer_vmo := NULL, tx_buffer_vmo_capacity := 0, tx_buffer_vmo_head := 0, tx_buffered_count := 0\<rparr>"

definition same_txns :: "'a txn_kernel_scheme \<Rightarrow> 'a txn_kernel_scheme \<Rightarrow> bool" where
  "same_txns s s' \<longleftrightarrow>
    (\<forall>p. map_option tx_core (txns s' p) = map_option tx_core (txns s p))
    \<and> chans s' = chans s \<and> eps s' = eps s \<and> k_tasks s' = k_tasks s \<and> g_cap_object_ptrs s' = g_cap_object_ptrs s
    \<and> g_chan_reg_head s' = g_chan_reg_head s \<and> ktrace s' = ktrace s"

lemma same_txns_refl [simp]: "same_txns s s"
  by (simp add: same_txns_def)

lemma same_txns_trans: "same_txns s s' \<Longrightarrow> same_txns s' s'' \<Longrightarrow> same_txns s s''"
  by (simp add: same_txns_def)

lemma tx_core_upd [simp]:
  "tx_core (t\<lparr>tx_buffer_vmo := a\<rparr>) = tx_core t" "tx_core (t\<lparr>tx_buffer_vmo_capacity := n\<rparr>) = tx_core t"
  "tx_core (t\<lparr>tx_buffer_vmo_head := n\<rparr>) = tx_core t" "tx_core (t\<lparr>tx_buffered_count := n\<rparr>) = tx_core t"
  by (simp_all add: tx_core_def)

lemma tx_core_sel:
  assumes "tx_core a = tx_core b"
  shows "tx_parent_txn a = tx_parent_txn b" "tx_scope_pids a = tx_scope_pids b" "tx_state a = tx_state b"
  using assms by (cases a; cases b; simp add: tx_core_def)+

lemma same_txns_at:
  assumes "same_txns s s'" "txns s p = Some t"
  obtains t' where "txns s' p = Some t'" "tx_core t' = tx_core t"
proof -
  from assms(1) have "map_option tx_core (txns s' p) = map_option tx_core (txns s p)" by (simp add: same_txns_def)
  with assms(2) that show ?thesis by (cases "txns s' p") auto
qed

lemma put_txn_same:
  "txns s p = Some t \<Longrightarrow> tx_core t' = tx_core t \<Longrightarrow> same_txns s (put_txn p t' (put_vmo q v s))"
  by (simp add: same_txns_def)

lemma append_same_txns:
  "same_txns s (snd (txn_buffer_append va tp cid msg fl s))"
proof -
  obtain rc s1 where l: "txn_buffer_lazy_alloc va tp s = (rc, s1)" by fastforce
  have s1: "same_txns s s1"
    using l by (auto simp: txn_buffer_lazy_alloc_def Let_def split: option.splits if_splits intro: put_txn_same)
  have "same_txns s1 (snd (txn_buffer_append va tp cid msg fl s))"
  proof (cases "txns s1 tp")
    case (Some t)
    then show ?thesis by (simp add: txn_buffer_append_def l Let_def put_txn_same)
  qed (simp add: txn_buffer_append_def l)
  with s1 show ?thesis by (rule same_txns_trans)
qed

lemma external_cong:
  assumes "same_txns s s'" "tx_scope_pids t' = tx_scope_pids t"
  shows "txn_is_external_peer s' c t' sender = txn_is_external_peer s c t sender"
proof -
  have e: "endpoint_holder s' i = endpoint_holder s i" for i
  proof -
    from assms(1) have q: "eps s' = eps s" "g_cap_object_ptrs s' = g_cap_object_ptrs s" by (simp_all add: same_txns_def)
    show ?thesis unfolding endpoint_holder_def cap_object_get_def q ..
  qed
  show ?thesis by (simp add: txn_is_external_peer_def e assms(2))
qed

text \<open>The stack of active transactions of a task, innermost first.\<close>

definition txn_parent :: "'a txn_kernel_scheme \<Rightarrow> ptr \<Rightarrow> ptr" where
  "txn_parent s p = (case txns s p of None \<Rightarrow> NULL | Some t \<Rightarrow> tx_parent_txn t)"

definition txn_stack :: "'a txn_kernel_scheme \<Rightarrow> ptr list \<Rightarrow> bool" where
  "txn_stack s ps \<longleftrightarrow> sseg (txn_parent s) ps NULL \<and> (\<forall>p\<in>set ps. txns s p \<noteq> None)"

lemma txn_stack_Nil [simp]: "txn_stack s []"
  by (simp add: txn_stack_def)

lemma txn_stack_Cons:
  "txn_stack s (p # ps) \<longleftrightarrow> p \<noteq> NULL \<and> (\<exists>t. txns s p = Some t \<and> tx_parent_txn t = hd0 ps NULL) \<and> txn_stack s ps"
  by (auto simp: txn_stack_def txn_parent_def split: option.splits)

lemma txn_stack_cong:
  assumes "txn_stack s ps" "same_txns s s'"
  shows "txn_stack s' ps"
  using assms(1)
proof (induction ps)
  case (Cons p ps)
  then obtain t where t: "p \<noteq> NULL" "txns s p = Some t" "tx_parent_txn t = hd0 ps NULL" "txn_stack s ps"
    by (auto simp: txn_stack_Cons)
  from same_txns_at [OF assms(2) t(2)] obtain t' where t': "txns s' p = Some t'" "tx_core t' = tx_core t" .
  from t Cons.IH [OF t(4)] t'(1) tx_core_sel(1) [OF t'(2)] show ?case by (simp add: txn_stack_Cons)
qed simp

definition external_at :: "'a txn_kernel_scheme \<Rightarrow> channel \<Rightarrow> pid \<Rightarrow> ptr \<Rightarrow> bool" where
  "external_at s c sender p = (case txns s p of None \<Rightarrow> False | Some t \<Rightarrow> txn_is_external_peer s c t sender)"

lemma external_at_cong:
  assumes "same_txns s s'"
  shows "external_at s' c sender p = external_at s c sender p"
proof (cases "txns s p")
  case None
  from assms have "map_option tx_core (txns s' p) = map_option tx_core (txns s p)" by (simp add: same_txns_def)
  with None show ?thesis by (simp add: external_at_def)
next
  case (Some t)
  from same_txns_at [OF assms Some] obtain t' where t': "txns s' p = Some t'" "tx_core t' = tx_core t" .
  with Some external_cong [OF assms tx_core_sel(2) [OF t'(2)]] show ?thesis by (simp add: external_at_def)
qed

text \<open>The walk ends on a proper stack, touches only buffers, and reports whether a layer was external.\<close>

lemma txn_route_result:
  assumes "txn_stack s ps"
  shows "\<exists>r s'. txn_route va c msg sender (hd0 ps NULL) any s = Some (r, s') \<and> same_txns s s'
    \<and> (case r of Inl rc \<Rightarrow> rc < 0 | Inr b \<Rightarrow> b \<longleftrightarrow> any \<or> (\<exists>p\<in>set ps. external_at s c sender p))"
  using assms
proof (induction ps arbitrary: any s)
  case Nil
  then show ?case by (simp add: txn_route.simps)
next
  case (Cons p ps)
  then obtain t where t: "p \<noteq> NULL" "txns s p = Some t" "tx_parent_txn t = hd0 ps NULL" "txn_stack s ps"
    by (auto simp: txn_stack_Cons)
  show ?case
  proof (cases "txn_is_external_peer s c t sender")
    case True
    obtain rc s1 where a: "txn_buffer_append (va p) p (ch_id c) msg 0 s = (rc, s1)" by fastforce
    have s1: "same_txns s s1" using append_same_txns [of s "va p" p "ch_id c" msg 0] a by simp
    show ?thesis
    proof (cases "rc < 0")
      case True
      with a t s1 \<open>txn_is_external_peer s c t sender\<close> show ?thesis
        by (subst txn_route.simps) (simp add: txn_route.simps)
    next
      case False
      from Cons.IH [OF txn_stack_cong [OF t(4) s1], of True] obtain r s2 where
        r: "txn_route va c msg sender (hd0 ps NULL) True s1 = Some (r, s2)" "same_txns s1 s2"
          "case r of Inl rc \<Rightarrow> rc < 0 | Inr b \<Rightarrow> b \<longleftrightarrow> True \<or> (\<exists>p\<in>set ps. external_at s1 c sender p)" by blast
      have "txn_route va c msg sender (hd0 (p # ps) NULL) any s = Some (r, s2)"
        using t True a False r(1) by (subst txn_route.simps) simp
      moreover have "external_at s c sender p" using t True by (simp add: external_at_def)
      ultimately show ?thesis using r(3) same_txns_trans [OF s1 r(2)] by (auto split: sum.splits)
    qed
  next
    case False
    from Cons.IH [OF t(4), of any] obtain r s2 where
      r: "txn_route va c msg sender (hd0 ps NULL) any s = Some (r, s2)" "same_txns s s2"
        "case r of Inl rc \<Rightarrow> rc < 0 | Inr b \<Rightarrow> b \<longleftrightarrow> any \<or> (\<exists>p\<in>set ps. external_at s c sender p)" by blast
    have "txn_route va c msg sender (hd0 (p # ps) NULL) any s = Some (r, s2)"
      using t False r(1) by (subst txn_route.simps) simp
    moreover have "\<not> external_at s c sender p" using t False by (simp add: external_at_def)
    ultimately show ?thesis using r(2,3) by (auto split: sum.splits)
  qed
qed

text \<open>The memory object a transaction uses or would allocate; those of a stack are different.\<close>

definition buf_slot :: "'a txn_kernel_scheme \<Rightarrow> (ptr \<Rightarrow> ptr option) \<Rightarrow> ptr \<Rightarrow> ptr" where
  "buf_slot s va p =
    (case txns s p of
      None \<Rightarrow> NULL
    | Some t \<Rightarrow> if tx_buffer_vmo t \<noteq> NULL then tx_buffer_vmo t else the (va p))"

definition bufs_ok :: "'a txn_kernel_scheme \<Rightarrow> (ptr \<Rightarrow> ptr option) \<Rightarrow> ptr list \<Rightarrow> bool" where
  "bufs_ok s va ps \<longleftrightarrow>
    distinct ps \<and> inj_on (buf_slot s va) (set ps) \<and> (\<forall>p\<in>set ps. \<exists>vp. va p = Some vp \<and> vp \<noteq> NULL)"

lemma append_frame:
  assumes "txn_buffer_append (Some vp) p cid msg fl s = (rc, s')" "txns s p = Some t" "va p = Some vp" "vp \<noteq> NULL"
  shows "q \<noteq> p \<Longrightarrow> txns s' q = txns s q" "x \<noteq> buf_slot s va p \<Longrightarrow> vmos s' x = vmos s x"
    "buf_slot s' va q = buf_slot s va q"
proof -
  obtain rc1 s1 where l: "txn_buffer_lazy_alloc (Some vp) p s = (rc1, s1)" by fastforce
  have 1: "q \<noteq> p \<Longrightarrow> txns s1 q = txns s q" "x \<noteq> buf_slot s va p \<Longrightarrow> vmos s1 x = vmos s x"
    "\<exists>t1. txns s1 p = Some t1 \<and> tx_buffer_vmo t1 = buf_slot s va p"
    using l assms(2-4) by (auto simp: txn_buffer_lazy_alloc_def Let_def buf_slot_def split: if_splits)
  then obtain t1 where t1: "txns s1 p = Some t1" "tx_buffer_vmo t1 = buf_slot s va p" by blast
  have 2: "s' = s1 \<or> (\<exists>t' v'. s' = put_txn p t' (put_vmo (tx_buffer_vmo t1) v' s1) \<and> tx_buffer_vmo t' = tx_buffer_vmo t1)"
    using assms(1) l t1(1) by (auto simp: txn_buffer_append_def Let_def split: if_splits)
  from 2 1(1) show "q \<noteq> p \<Longrightarrow> txns s' q = txns s q" by auto
  from 2 1(2) t1(2) show "x \<noteq> buf_slot s va p \<Longrightarrow> vmos s' x = vmos s x" by auto
  have nn: "buf_slot s va p \<noteq> NULL" using assms(2-4) by (auto simp: buf_slot_def)
  show "buf_slot s' va q = buf_slot s va q"
  proof (cases "q = p")
    case True
    from 2 t1 obtain t2 where "txns s' p = Some t2" "tx_buffer_vmo t2 = buf_slot s va p" by auto
    with True nn show ?thesis by (simp add: buf_slot_def [of s'])
  next
    case False
    from 2 1(1) False have "txns s' q = txns s q" by auto
    then show ?thesis by (simp add: buf_slot_def)
  qed
qed

lemma buffered_frame:
  assumes "txn_buffered s q rs" "txns s' q = txns s q" "\<And>t. txns s q = Some t \<Longrightarrow> tx_buffer_vmo t \<noteq> NULL
      \<Longrightarrow> vmos s' (tx_buffer_vmo t) = vmos s (tx_buffer_vmo t)"
  shows "txn_buffered s' q rs"
proof -
  from assms(1) obtain t where t: "txns s q = Some t" by (auto simp: txn_buffered_def)
  with assms show ?thesis by (cases "tx_buffer_vmo t = NULL") (auto simp: txn_buffered_def)
qed

text \<open>What the walk leaves in the buffers when it does not fail.\<close>

lemma txn_route_records:
  assumes "txn_stack s ps" "bufs_ok s va ps" "msg_shape msg" "\<forall>p\<in>set ps. txn_buffered s p (R p)"
    and "txn_route va c msg sender (hd0 ps NULL) any s = Some (Inr b, s')"
  shows "(\<forall>p\<in>set ps. txn_buffered s' p (if external_at s c sender p then R p @ [(ch_id c, 0, msg)] else R p))
    \<and> (\<forall>q. q \<notin> set ps \<longrightarrow> txns s' q = txns s q)
    \<and> (\<forall>x. x \<notin> buf_slot s va ` set ps \<longrightarrow> vmos s' x = vmos s x) \<and> (\<forall>q. buf_slot s' va q = buf_slot s va q)"
  using assms
proof (induction ps arbitrary: any s)
  case Nil
  then show ?case by (simp add: txn_route.simps)
next
  case (Cons p ps)
  from Cons.prems(1) obtain t where t: "p \<noteq> NULL" "txns s p = Some t" "tx_parent_txn t = hd0 ps NULL" "txn_stack s ps"
    by (auto simp: txn_stack_Cons)
  from Cons.prems(2) obtain vp where vp: "va p = Some vp" "vp \<noteq> NULL" and pn: "p \<notin> set ps" and ok: "bufs_ok s va ps"
    and sl: "buf_slot s va p \<notin> buf_slot s va ` set ps"
    by (auto simp: bufs_ok_def)
  show ?case
  proof (cases "txn_is_external_peer s c t sender")
    case True
    obtain rc s1 where a: "txn_buffer_append (Some vp) p (ch_id c) msg 0 s = (rc, s1)" by fastforce
    have nrc: "\<not> rc < 0" and r: "txn_route va c msg sender (hd0 ps NULL) True s1 = Some (Inr b, s')"
      using Cons.prems(5) t True a vp(1) by (auto simp: txn_route.simps [of va c msg sender p] split: if_splits)
    note F = append_frame [where va = va, OF a t(2) vp]
    have same: "same_txns s s1" using append_same_txns [of s "Some vp" p "ch_id c" msg 0] a by simp
    have bp: "txn_buffered s1 p (R p @ [(ch_id c, 0, msg)])"
      using append_buffered [OF _ Cons.prems(3) vp(2) a] Cons.prems(4) nrc by (auto simp: ENOSPC_def)
    have bq: "txn_buffered s1 q (R q)" if "q \<in> set ps" for q
    proof (rule buffered_frame)
      show "txn_buffered s q (R q)" using Cons.prems(4) that by simp
      show "txns s1 q = txns s q" using F(1) that pn by metis
      fix u assume u: "txns s q = Some u" "tx_buffer_vmo u \<noteq> NULL"
      then have "tx_buffer_vmo u = buf_slot s va q" by (simp add: buf_slot_def)
      then have "tx_buffer_vmo u \<noteq> buf_slot s va p" using sl imageI [OF that, of "buf_slot s va"] by metis
      then show "vmos s1 (tx_buffer_vmo u) = vmos s (tx_buffer_vmo u)" by (rule F(2))
    qed
    have ok1: "bufs_ok s1 va ps" using ok F(3) by (simp add: bufs_ok_def inj_on_def)
    note I = Cons.IH [OF txn_stack_cong [OF t(4) same] ok1 Cons.prems(3) _ r]
    have I': "\<forall>q\<in>set ps. txn_buffered s' q (if external_at s c sender q then R q @ [(ch_id c, 0, msg)] else R q)"
      "\<forall>q. q \<notin> set ps \<longrightarrow> txns s' q = txns s1 q" "\<forall>x. x \<notin> buf_slot s va ` set ps \<longrightarrow> vmos s' x = vmos s1 x"
      "\<forall>q. buf_slot s' va q = buf_slot s va q"
      using I bq F(3) unfolding external_at_cong [OF same] by (auto simp: image_def)
    have "txn_buffered s' p (R p @ [(ch_id c, 0, msg)])"
    proof (rule buffered_frame [OF bp])
      show "txns s' p = txns s1 p" using I'(2) pn by blast
      fix u assume "txns s1 p = Some u" "tx_buffer_vmo u \<noteq> NULL"
      then have "tx_buffer_vmo u = buf_slot s va p" using F(3) [of p] by (simp add: buf_slot_def [of s1])
      with sl I'(3) show "vmos s' (tx_buffer_vmo u) = vmos s1 (tx_buffer_vmo u)" by auto
    qed
    moreover have "external_at s c sender p" using t True by (simp add: external_at_def)
    ultimately show ?thesis using I' F by auto
  next
    case False
    have r: "txn_route va c msg sender (hd0 ps NULL) any s = Some (Inr b, s')"
      using Cons.prems(5) t False by (simp add: txn_route.simps [of va c msg sender p])
    have bq: "\<forall>q\<in>set ps. txn_buffered s q (R q)" using Cons.prems(4) by simp
    note I = Cons.IH [OF t(4) ok Cons.prems(3) bq r]
    have "txn_buffered s' p (R p)"
    proof (rule buffered_frame)
      show "txn_buffered s p (R p)" using Cons.prems(4) by simp
      show "txns s' p = txns s p" using I pn by blast
      fix u assume "txns s p = Some u" "tx_buffer_vmo u \<noteq> NULL"
      then have "tx_buffer_vmo u = buf_slot s va p" by (simp add: buf_slot_def)
      with sl I show "vmos s' (tx_buffer_vmo u) = vmos s (tx_buffer_vmo u)" by auto
    qed
    moreover have "\<not> external_at s c sender p" using t False by (simp add: external_at_def)
    ultimately show ?thesis using I by auto
  qed
qed

section \<open>Properties\<close>

lemma ring_queue_set_read [simp]: "ring_queue (set_waiters d ws c) = ring_queue c" "chan_wf (set_waiters d ws c) = chan_wf c"
  by (auto simp: set_waiters_def ring_queue_def chan_wf_def split: chan_dir.split)

lemma chan_wf_waiters [simp]:
  "chan_wf (c\<lparr>ch_read_waiters := ws\<rparr>) = chan_wf c" "chan_wf (c\<lparr>ch_write_waiters := ws\<rparr>) = chan_wf c"
  by (simp_all add: chan_wf_def)

lemma send_loop_done: "chan_send_try p sender msg tmo s = Some r \<Longrightarrow> chan_send_loop env p sender msg tmo s = Some r"
  by (cases env) simp_all

lemma recv_loop_done: "chan_recv_try p tmo s = Some r \<Longrightarrow> chan_recv_loop env p receiver tmo s = Some r"
  by (cases env) simp_all

lemma chan_send_plain:
  assumes "chan_check s p" "chans s p = Some c" "k_tasks s sender = Some t"
    and "tk_txn_current t = NULL \<or> tk_replay_in_progress t" "mh_type_hash (cm_header msg) = ch_type_hash c"
  shows "chan_send False va env p sender msg tmo s = chan_send_loop env p sender msg tmo s"
  using assms by (auto simp: chan_send_def)

lemma chan_send_space:
  assumes "chans s p = Some c" "chan_wf c" "ch_frozen_at_snap c = 0" "ch_msgcount c < ch_capacity c"
  shows "\<exists>s' c'. chan_send_loop env p sender msg tmo s = Some (0, s') \<and> chans s' = (chans s)(p \<mapsto> c')
    \<and> ring_queue c' = ring_queue c @ [stamp_msg c sender msg] \<and> chan_wf c' \<and> ch_read_waiters c' = tl (ch_read_waiters c)
    \<and> ch_capacity c' = ch_capacity c \<and> ch_type_hash c' = ch_type_hash c \<and> ch_id c' = ch_id c \<and> ch_frozen_at_snap c' = 0
    \<and> ch_magic c' = ch_magic c \<and> ch_reg_next c' = ch_reg_next c \<and> ch_reg_prev c' = ch_reg_prev c
    \<and> k_tasks s' = k_tasks s \<and> g_chan_reg_head s' = g_chan_reg_head s \<and> ch_mode c' = ch_mode c
    \<and> chan_state.more s' = chan_state.more s"
proof -
  let ?c = "(chan_ring_put c sender msg)\<lparr>ch_read_waiters := tl (ch_read_waiters c)\<rparr>"
  let ?s = "log_events (snd (sched_wake_one_on_channel (ch_read_waiters c) 0)) (put_chan p ?c s)"
  have w: "ch_read_waiters (chan_ring_put c sender msg) = ch_read_waiters c" by (simp add: chan_ring_put_def)
  have "chan_send_try p sender msg tmo s = Some (0, ?s)"
    using assms by (simp add: chan_send_try_def Let_def w) (simp add: sched_wake_one_on_channel_def split: list.split)
  then have l: "chan_send_loop env p sender msg tmo s = Some (0, ?s)" by (rule send_loop_done)
  have q: "chan_wf (chan_ring_put c sender msg)" "ring_queue (chan_ring_put c sender msg) = ring_queue c @ [stamp_msg c sender msg]"
    using ring.enq_law [OF assms(2,4), of "(sender, msg)"] by simp_all
  have m: "chan_state.more ?s = chan_state.more s" by (simp add: log_events_def put_chan_def)
  show ?thesis
    by (rule exI [of _ ?s], rule exI [of _ ?c]) (use l q m assms(3) in \<open>simp add: chan_ring_put_def\<close>)
qed

lemma chan_recv_ready:
  assumes "chans s p = Some c" "chan_wf c" "ch_frozen_at_snap c = 0" "ring_queue c = m # ms"
  shows "\<exists>s' c'. chan_recv_loop env p receiver tmo s = Some (Inr m, s') \<and> chans s' = (chans s)(p \<mapsto> c')
    \<and> ring_queue c' = ms \<and> chan_wf c' \<and> ch_write_waiters c' = tl (ch_write_waiters c)"
proof -
  have n: "ch_msgcount c > 0" using assms(4) ring_queue_length [of c] by simp
  obtain m' c1 where g: "chan_ring_get c = (m', c1)" by fastforce
  from ring.deq_law [OF assms(2) n] g assms(4) have q: "m' = m" "ring_queue c1 = ms" "chan_wf c1" by auto
  have w: "ch_write_waiters c1 = ch_write_waiters c" using g by (auto simp: chan_ring_get_def Let_def)
  let ?c = "c1\<lparr>ch_write_waiters := tl (ch_write_waiters c)\<rparr>"
  let ?s = "log_events (snd (sched_wake_one_on_channel (ch_write_waiters c) 0)) (put_chan p ?c s)"
  have "chan_recv_try p tmo s = Some (Inr m, ?s)"
    using assms(1,3) n g w q(1) by (simp add: chan_recv_try_def Let_def) (simp add: sched_wake_one_on_channel_def split: list.split)
  then have "chan_recv_loop env p receiver tmo s = Some (Inr m, ?s)" by (rule recv_loop_done)
  then show ?thesis using q by (intro exI [of _ ?s] exI [of _ ?c]) (simp add: ring_queue_def)
qed





text \<open>
  C2: transactional isolation. When a task inside a stack of transactions sends to a peer that at least
  one of them excludes from its scope, no channel changes: no message reaches any ring. If the send
  reports success, every excluding transaction of the stack has the message at the end of its buffer
  and the buffers of the others are unchanged.
\<close>

theorem txn_send_isolated:
  assumes "chan_check s p" "chans s p = Some c" "k_tasks s sender = Some t"
    and "mh_type_hash (cm_header msg) = ch_type_hash c" "msg_shape msg"
    and "tk_txn_current t = hd0 ps NULL" "\<not> tk_replay_in_progress t" "txn_stack s ps" "bufs_ok s va ps"
    and "\<forall>q\<in>set ps. txn_buffered s q (R q)" "\<exists>q\<in>set ps. external_at s c sender q"
  shows "\<exists>rc s'. chan_send False va env p sender msg tmo s = Some (rc, s') \<and> chans s' = chans s \<and> rc \<le> 0
    \<and> (rc = 0 \<longrightarrow> (\<forall>q\<in>set ps. txn_buffered s' q
          (if external_at s c sender q then R q @ [(ch_id c, 0, msg)] else R q)))"
proof -
  from assms(11) have "ps \<noteq> []" by auto
  with assms(8) have cur: "tk_txn_current t \<noteq> NULL" using assms(6) by (cases ps) (auto simp: txn_stack_Cons)
  from txn_route_result [OF assms(8), of va c msg sender False] obtain r s' where
    r: "txn_route va c msg sender (hd0 ps NULL) False s = Some (r, s')" and same: "same_txns s s'"
    and res: "case r of Inl rc \<Rightarrow> rc < 0 | Inr b \<Rightarrow> b \<longleftrightarrow> False \<or> (\<exists>p\<in>set ps. external_at s c sender p)" by blast
  have ch: "chans s' = chans s" using same by (simp add: same_txns_def)
  show ?thesis
  proof (cases r)
    case (Inl rc)
    then have "chan_send False va env p sender msg tmo s = Some (rc, s')"
      using assms(1-4,6,7) cur r by (simp add: chan_send_def)
    with Inl res ch show ?thesis by auto
  next
    case (Inr b)
    with res assms(11) have b: "b" by simp
    then have "chan_send False va env p sender msg tmo s = Some (0, s')"
      using assms(1-4,6,7) cur r Inr by (simp add: chan_send_def)
    with ch txn_route_records [OF assms(8,9,5,10) r [unfolded Inr]] show ?thesis by auto
  qed
qed

theorem txn_send_isolated_witness:
  "\<exists>rc s'. chan_send False (\<lambda>_. Some 0x7000) [] 0x1000 1 (zero_msg\<lparr>cm_header := zero_header\<lparr>mh_type_hash := 7\<rparr>\<rparr>) 0
      demo_txn_kernel = Some (rc, s') \<and> chans s' = chans demo_txn_kernel"
proof -
  let ?m = "zero_msg\<lparr>cm_header := zero_header\<lparr>mh_type_hash := 7\<rparr>\<rparr>"
  let ?t = "(demo_task 1)\<lparr>tk_txn_current := 0x5000, tk_txn_stack_depth := 1\<rparr>"
  have f: "chan_check demo_txn_kernel 0x1000" "chans demo_txn_kernel 0x1000 = Some (demo_chan 0)"
    "k_tasks demo_txn_kernel 1 = Some ?t" "mh_type_hash (cm_header ?m) = ch_type_hash (demo_chan 0)" "msg_shape ?m"
    "tk_txn_current ?t = hd0 [0x5000] NULL" "\<not> tk_replay_in_progress ?t" "txn_stack demo_txn_kernel [0x5000]"
    using demo_one_chan_facts(3) [of 0]
    by (simp_all add: demo_txn_kernel_def chan_check_def demo_chan_def fresh_channel_def msg_shape_def zero_msg_def
        demo_task_def txn_stack_Cons demo_txn_def)
  have b: "bufs_ok demo_txn_kernel (\<lambda>_. Some 0x7000) [0x5000]" by (simp add: bufs_ok_def)
  have R: "\<forall>q\<in>set [0x5000]. txn_buffered demo_txn_kernel q []" using demo_txn_buffered by simp
  have e: "\<exists>q\<in>set [0x5000]. external_at demo_txn_kernel (demo_chan 0) 1 q"
    by (simp add: external_at_def demo_txn_kernel_def txn_is_external_peer_def endpoint_holder_def cap_object_get_def)
  from txn_send_isolated [OF f b R e, of "[]" 0] show ?thesis by blast
qed


end
