(* ===== verification/Pmm.thy ===== *)
theory Pmm
  imports Prelude
begin

text \<open>
  The physical page allocator (arch/x86_64/mm/pmm.c): a bitmap with one bit per 4 KiB page, a byte of
  reference count per page, a next-fit cursor and the counters behind the memory statistics. The
  theory shows that the bitmap code implements a pool of counted frames, that a frame in use is never
  handed out again, that the multi-page search is complete, and that the statistics count the free
  pages.
\<close>

section \<open>State\<close>

abbreviation PAGE_SIZE :: nat where "PAGE_SIZE \<equiv> 4096"

record pmm_state =
  bitmap :: "u8 list"
  pp_refcounts :: "u8 list"
  total_pages :: nat
  used_pages :: u64
  usable_memory :: u64
  last_used_index :: nat
  g_debug_pmm_fail_nth :: int

definition bitmap_set_bit :: "nat \<Rightarrow> 'a pmm_state_scheme \<Rightarrow> 'a pmm_state_scheme" where
  "bitmap_set_bit page s =
    (let byte = page div 8; b = page mod 8
     in s\<lparr>bitmap := (bitmap s)[byte := (bitmap s ! byte) OR push_bit b 1]\<rparr>)"

definition bitmap_clear_bit :: "nat \<Rightarrow> 'a pmm_state_scheme \<Rightarrow> 'a pmm_state_scheme" where
  "bitmap_clear_bit page s =
    (let byte = page div 8; b = page mod 8
     in s\<lparr>bitmap := (bitmap s)[byte := (bitmap s ! byte) AND NOT (push_bit b 1)]\<rparr>)"

definition bitmap_test_bit :: "'a pmm_state_scheme \<Rightarrow> nat \<Rightarrow> bool" where
  "bitmap_test_bit s page =
    (let byte = page div 8; b = page mod 8
     in (bitmap s ! byte) AND push_bit b 1 \<noteq> 0)"

definition set_refcount :: "nat \<Rightarrow> u8 \<Rightarrow> 'a pmm_state_scheme \<Rightarrow> 'a pmm_state_scheme" where
  "set_refcount i r s = s\<lparr>pp_refcounts := (pp_refcounts s)[i := r]\<rparr>"

section \<open>Operations\<close>

text \<open>The fault injection counter shared by both allocation functions.\<close>

definition pmm_inject :: "'a pmm_state_scheme \<Rightarrow> bool \<times> 'a pmm_state_scheme" where
  "pmm_inject s =
    (if g_debug_pmm_fail_nth s > 0
     then (g_debug_pmm_fail_nth s - 1 = 0, s\<lparr>g_debug_pmm_fail_nth := g_debug_pmm_fail_nth s - 1\<rparr>)
     else (False, s))"

definition page_addr :: "nat \<Rightarrow> ptr" where
  "page_addr i = of_nat (i * PAGE_SIZE)"

definition take_page :: "nat \<Rightarrow> 'a pmm_state_scheme \<Rightarrow> ptr \<times> 'a pmm_state_scheme" where
  "take_page i s =
    (let s = set_refcount i 1 (bitmap_set_bit i s)
     in (page_addr i, s\<lparr>used_pages := used_pages s + 1, last_used_index := i + 1\<rparr>))"

definition pmm_alloc_page :: "'a pmm_state_scheme \<Rightarrow> ptr \<times> 'a pmm_state_scheme" where
  "pmm_alloc_page s =
    (let (fail, s) = pmm_inject s in
     if fail then (NULL, s)
     else case first_from (\<lambda>i. \<not> bitmap_test_bit s i) (last_used_index s) (total_pages s) of
       Some i \<Rightarrow> take_page i s
     | None \<Rightarrow>
        (case first_from (\<lambda>i. \<not> bitmap_test_bit s i) 0 (last_used_index s) of
           Some i \<Rightarrow> take_page i s
         | None \<Rightarrow> (NULL, s)))"

text \<open>The search loop of \<^verbatim>\<open>pmm_alloc_pages\<close>: the first page of a run of \<open>n\<close> free pages.\<close>

function run_search :: "(nat \<Rightarrow> bool) \<Rightarrow> nat \<Rightarrow> nat \<Rightarrow> nat \<Rightarrow> nat \<Rightarrow> nat option" where
  "run_search used n consecutive i pages =
    (if i < pages then
       let consecutive = (if \<not> used i then consecutive + 1 else 0)
       in if consecutive = n then Some (i + 1 - n) else run_search used n consecutive (Suc i) pages
     else None)"
  by pat_completeness auto
termination
  by (relation "measure (\<lambda>(used, n, c, i, pages). pages - i)") auto

declare run_search.simps [simp del]

fun take_run :: "nat \<Rightarrow> nat \<Rightarrow> 'a pmm_state_scheme \<Rightarrow> 'a pmm_state_scheme" where
  "take_run start 0 s = s"
| "take_run start (Suc n) s = take_run (Suc start) n (set_refcount start 1 (bitmap_set_bit start s))"

definition pmm_alloc_pages :: "nat \<Rightarrow> 'a pmm_state_scheme \<Rightarrow> ptr \<times> 'a pmm_state_scheme" where
  "pmm_alloc_pages num_pages s =
    (if num_pages = 0 then (NULL, s)
     else if num_pages = 1 then pmm_alloc_page s
     else
      let (fail, s) = pmm_inject s in
      if fail then (NULL, s)
      else case run_search (bitmap_test_bit s) num_pages 0 0 (total_pages s) of
        Some start_page \<Rightarrow>
          let s = take_run start_page num_pages s
          in (page_addr start_page, s\<lparr>used_pages := used_pages s + of_nat num_pages\<rparr>)
      | None \<Rightarrow> (NULL, s))"

text \<open>Dropping one reference, the common part of the two release functions.\<close>

definition drop_ref :: "nat \<Rightarrow> 'a pmm_state_scheme \<Rightarrow> bool \<times> 'a pmm_state_scheme" where
  "drop_ref i s =
    (if i < total_pages s \<and> bitmap_test_bit s i then
       let s = (if pp_refcounts s ! i > 0 then set_refcount i (pp_refcounts s ! i - 1) s else s)
       in if pp_refcounts s ! i = 0
          then (True, (bitmap_clear_bit i s)\<lparr>used_pages := used_pages s - 1\<rparr>)
          else (False, s)
     else (False, s))"

definition pmm_free_page :: "ptr \<Rightarrow> 'a pmm_state_scheme \<Rightarrow> 'a pmm_state_scheme" where
  "pmm_free_page page s =
    (if page = NULL then s
     else
      let page_index = unat page div PAGE_SIZE;
          (freed, s) = drop_ref page_index s
      in if freed \<and> page_index < last_used_index s then s\<lparr>last_used_index := page_index\<rparr> else s)"

fun drop_run :: "nat \<Rightarrow> nat \<Rightarrow> 'a pmm_state_scheme \<Rightarrow> 'a pmm_state_scheme" where
  "drop_run start 0 s = s"
| "drop_run start (Suc n) s = drop_run (Suc start) n (snd (drop_ref start s))"

definition pmm_free_pages :: "ptr \<Rightarrow> nat \<Rightarrow> 'a pmm_state_scheme \<Rightarrow> 'a pmm_state_scheme" where
  "pmm_free_pages pages num_pages s =
    (if pages = NULL \<or> num_pages = 0 then s
     else
      let start_page_index = unat pages div PAGE_SIZE;
          s = drop_run start_page_index num_pages s
      in if start_page_index < last_used_index s then s\<lparr>last_used_index := start_page_index\<rparr> else s)"

definition pmm_get_total_memory :: "'a pmm_state_scheme \<Rightarrow> u64" where
  "pmm_get_total_memory s = usable_memory s"

definition pmm_get_free_memory :: "'a pmm_state_scheme \<Rightarrow> u64" where
  "pmm_get_free_memory s = usable_memory s - used_pages s * of_nat PAGE_SIZE"

definition pmm_page_ref :: "ptr \<Rightarrow> 'a pmm_state_scheme \<Rightarrow> 'a pmm_state_scheme" where
  "pmm_page_ref page s =
    (if page = NULL then s
     else
      let idx = unat page div PAGE_SIZE in
      if idx < total_pages s \<and> bitmap_test_bit s idx \<and> pp_refcounts s ! idx < 255
      then set_refcount idx (pp_refcounts s ! idx + 1) s else s)"

definition pmm_page_unref :: "ptr \<Rightarrow> 'a pmm_state_scheme \<Rightarrow> 'a pmm_state_scheme" where
  "pmm_page_unref page s = pmm_free_page page s"

definition pmm_page_get_refcount :: "'a pmm_state_scheme \<Rightarrow> ptr \<Rightarrow> u8" where
  "pmm_page_get_refcount s page =
    (if page = NULL then 0
     else
      let idx = unat page div PAGE_SIZE in
      if idx \<ge> total_pages s then 0 else pp_refcounts s ! idx)"

section \<open>Boot\<close>

record memmap_entry =
  me_usable :: bool
  me_base :: u64
  me_length :: u64

fun clear_range :: "nat \<Rightarrow> nat \<Rightarrow> 'a pmm_state_scheme \<Rightarrow> 'a pmm_state_scheme" where
  "clear_range start 0 s = s"
| "clear_range start (Suc n) s = clear_range (Suc start) n (bitmap_clear_bit start s)"

fun reserve_range :: "nat \<Rightarrow> nat \<Rightarrow> 'a pmm_state_scheme \<Rightarrow> 'a pmm_state_scheme" where
  "reserve_range start 0 s = s"
| "reserve_range start (Suc n) s =
    reserve_range (Suc start) n ((bitmap_set_bit start s)\<lparr>used_pages := used_pages s + 1\<rparr>)"

fun free_usable :: "memmap_entry list \<Rightarrow> 'a pmm_state_scheme \<Rightarrow> 'a pmm_state_scheme" where
  "free_usable [] s = s"
| "free_usable (e # es) s =
    free_usable es
      (if me_usable e
       then clear_range (unat (me_base e) div PAGE_SIZE) (unat (me_length e) div PAGE_SIZE) s else s)"

fun highest_addr :: "memmap_entry list \<Rightarrow> u64 \<Rightarrow> u64" where
  "highest_addr [] h = h"
| "highest_addr (e # es) h =
    highest_addr es (if me_usable e \<and> me_base e + me_length e > h then me_base e + me_length e else h)"

definition meta_size :: "nat \<Rightarrow> nat" where
  "meta_size pages = (pages + 7) div 8 + pages"

text \<open>
  \<open>None\<close> is a memory map without room for the bitmap: the C function then writes through a pointer
  derived from \<^verbatim>\<open>NULL\<close>. The metadata lies at the start of the chosen entry, which is what the pointer
  arithmetic on \<^verbatim>\<open>bitmap\<close> recovers.
\<close>

definition pmm_init :: "memmap_entry list \<Rightarrow> pmm_state option" where
  "pmm_init entries =
    (let usable = sum_list (map (\<lambda>e. if me_usable e then me_length e else 0) entries);
         pages = unat (highest_addr entries 0) div PAGE_SIZE;
         bitmap_size = (pages + 7) div 8
     in case find (\<lambda>e. me_usable e \<and> unat (me_length e) \<ge> meta_size pages) entries of
          None \<Rightarrow> None
        | Some e \<Rightarrow>
           let s = \<lparr>bitmap = replicate bitmap_size 0xFF, pp_refcounts = replicate pages 0,
                    total_pages = pages, used_pages = 0, usable_memory = usable, last_used_index = 0,
                    g_debug_pmm_fail_nth = 0\<rparr>;
               s = free_usable entries s;
               meta_pages = (meta_size pages + PAGE_SIZE - 1) div PAGE_SIZE
           in Some (reserve_range (unat (me_base e) div PAGE_SIZE) meta_pages s))"

section \<open>The bitmap as a set of used pages\<close>

definition pmm_sized :: "'a pmm_state_scheme \<Rightarrow> bool" where
  "pmm_sized s \<longleftrightarrow> length (bitmap s) = (total_pages s + 7) div 8 \<and> length (pp_refcounts s) = total_pages s
    \<and> last_used_index s \<le> total_pages s \<and> total_pages s * PAGE_SIZE < 2 ^ 64"

lemma in_bitmap: "pmm_sized s \<Longrightarrow> i < total_pages s \<Longrightarrow> i div 8 < length (bitmap s)"
  by (simp add: pmm_sized_def)

lemma byte_bit_or: "b < 8 \<Longrightarrow> c < 8 \<Longrightarrow> (w OR push_bit b 1) AND push_bit c 1 \<noteq> (0 :: u8) \<longleftrightarrow> b = c \<or> w AND push_bit c 1 \<noteq> 0"
proof -
  assume "b < 8" "c < 8"
  have nz: "x AND push_bit c 1 \<noteq> 0 \<longleftrightarrow> bit x c" for x :: u8
    using and_exp_eq_0_iff_not_bit [of x c] by (simp add: push_bit_eq_mult)
  from \<open>b < 8\<close> \<open>c < 8\<close> show ?thesis
    unfolding nz by (simp add: bit_or_iff bit_exp_iff) auto
qed

lemma byte_bit_andnot: "b < 8 \<Longrightarrow> c < 8 \<Longrightarrow> (w AND NOT (push_bit b 1)) AND push_bit c 1 \<noteq> (0 :: u8) \<longleftrightarrow> b \<noteq> c \<and> w AND push_bit c 1 \<noteq> 0"
proof -
  assume "b < 8" "c < 8"
  have nz: "x AND push_bit c 1 \<noteq> 0 \<longleftrightarrow> bit x c" for x :: u8
    using and_exp_eq_0_iff_not_bit [of x c] by (simp add: push_bit_eq_mult)
  from \<open>b < 8\<close> \<open>c < 8\<close> show ?thesis
    unfolding nz by (simp add: bit_and_iff bit_not_iff bit_exp_iff) auto
qed

lemma same_byte_bit: "i div 8 = j div (8 :: nat) \<Longrightarrow> i mod 8 = j mod 8 \<longleftrightarrow> i = j"
  by (metis div_mult_mod_eq)

lemma test_set_bit:
  assumes "i div 8 < length (bitmap s)"
  shows "bitmap_test_bit (bitmap_set_bit i s) j \<longleftrightarrow> i = j \<or> bitmap_test_bit s j"
proof (cases "i div 8 = j div 8")
  case True
  with assms show ?thesis
    using byte_bit_or [of "i mod 8" "j mod 8" "bitmap s ! (j div 8)"] same_byte_bit [OF True]
    by (simp add: bitmap_test_bit_def bitmap_set_bit_def Let_def)
next
  case False
  then show ?thesis by (auto simp: bitmap_test_bit_def bitmap_set_bit_def Let_def)
qed

lemma test_clear_bit:
  assumes "i div 8 < length (bitmap s)"
  shows "bitmap_test_bit (bitmap_clear_bit i s) j \<longleftrightarrow> i \<noteq> j \<and> bitmap_test_bit s j"
proof (cases "i div 8 = j div 8")
  case True
  with assms show ?thesis
    using byte_bit_andnot [of "i mod 8" "j mod 8" "bitmap s ! (j div 8)"] same_byte_bit [OF True]
    by (simp add: bitmap_test_bit_def bitmap_clear_bit_def Let_def)
next
  case False
  then show ?thesis by (auto simp: bitmap_test_bit_def bitmap_clear_bit_def Let_def)
qed

section \<open>Counted frames\<close>

text \<open>
  What a page of the machine looks like from outside: absent when the allocator may hand it out,
  otherwise the references held on it. Pages the firmware reserved are in use with no reference.
\<close>

definition page_refs :: "'a pmm_state_scheme \<Rightarrow> nat \<Rightarrow> nat option" where
  "page_refs s i = (if i < total_pages s \<and> bitmap_test_bit s i then Some (unat (pp_refcounts s ! i)) else None)"

lemma test_frames [simp]:
  "bitmap_test_bit (s\<lparr>used_pages := u\<rparr>) = bitmap_test_bit s"
  "bitmap_test_bit (s\<lparr>last_used_index := l\<rparr>) = bitmap_test_bit s"
  "bitmap_test_bit (s\<lparr>g_debug_pmm_fail_nth := n\<rparr>) = bitmap_test_bit s"
  "bitmap_test_bit (set_refcount i r s) = bitmap_test_bit s"
  by (auto simp: bitmap_test_bit_def set_refcount_def fun_eq_iff)

lemma page_refs_frames [simp]:
  "page_refs (s\<lparr>used_pages := u\<rparr>) = page_refs s"
  "page_refs (s\<lparr>last_used_index := l\<rparr>) = page_refs s"
  "page_refs (s\<lparr>g_debug_pmm_fail_nth := n\<rparr>) = page_refs s"
  by (auto simp: page_refs_def fun_eq_iff)

lemma bit_fields [simp]:
  "total_pages (bitmap_set_bit i s) = total_pages s" "total_pages (bitmap_clear_bit i s) = total_pages s"
  "pp_refcounts (bitmap_set_bit i s) = pp_refcounts s" "pp_refcounts (bitmap_clear_bit i s) = pp_refcounts s"
  "used_pages (bitmap_set_bit i s) = used_pages s" "used_pages (bitmap_clear_bit i s) = used_pages s"
  "last_used_index (bitmap_set_bit i s) = last_used_index s" "last_used_index (bitmap_clear_bit i s) = last_used_index s"
  "usable_memory (bitmap_set_bit i s) = usable_memory s" "usable_memory (bitmap_clear_bit i s) = usable_memory s"
  "length (bitmap (bitmap_set_bit i s)) = length (bitmap s)" "length (bitmap (bitmap_clear_bit i s)) = length (bitmap s)"
  "pmm_state.more (bitmap_set_bit i s) = pmm_state.more s" "pmm_state.more (bitmap_clear_bit i s) = pmm_state.more s"
  by (simp_all add: bitmap_set_bit_def bitmap_clear_bit_def Let_def)

lemma refcount_fields [simp]:
  "total_pages (set_refcount i r s) = total_pages s" "bitmap (set_refcount i r s) = bitmap s"
  "pp_refcounts (set_refcount i r s) = (pp_refcounts s)[i := r]"
  "used_pages (set_refcount i r s) = used_pages s" "last_used_index (set_refcount i r s) = last_used_index s"
  "usable_memory (set_refcount i r s) = usable_memory s" "pmm_state.more (set_refcount i r s) = pmm_state.more s"
  by (simp_all add: set_refcount_def)

lemma sized_frames [simp]:
  "pmm_sized (bitmap_set_bit i s) = pmm_sized s" "pmm_sized (bitmap_clear_bit i s) = pmm_sized s"
  "pmm_sized (set_refcount i r s) = pmm_sized s"
  "pmm_sized (s\<lparr>used_pages := u\<rparr>) = pmm_sized s" "pmm_sized (s\<lparr>g_debug_pmm_fail_nth := n\<rparr>) = pmm_sized s"
  by (simp_all add: pmm_sized_def)

lemma sized_last: "pmm_sized s \<Longrightarrow> l \<le> total_pages s \<Longrightarrow> pmm_sized (s\<lparr>last_used_index := l\<rparr>)"
  by (simp add: pmm_sized_def)

lemma page_addr_index: "pmm_sized s \<Longrightarrow> i < total_pages s \<Longrightarrow> unat (page_addr i) = i * PAGE_SIZE"
  by (simp add: pmm_sized_def page_addr_def unat_of_nat take_bit_nat_eq_self del: of_nat_mult)

lemma page_addr_zero: "pmm_sized s \<Longrightarrow> i < total_pages s \<Longrightarrow> page_addr i = NULL \<longleftrightarrow> i = 0"
  using page_addr_index [of s i] by (auto simp: unat_eq_0 page_addr_def)

lemma page_refs_None: "i < total_pages s \<Longrightarrow> page_refs s i = None \<longleftrightarrow> \<not> bitmap_test_bit s i"
  by (simp add: page_refs_def)

lemma page_refs_set:
  assumes "pmm_sized s" "i < total_pages s"
  shows "page_refs (set_refcount i r (bitmap_set_bit i s)) = (page_refs s)(i \<mapsto> unat r)"
proof
  fix j
  show "page_refs (set_refcount i r (bitmap_set_bit i s)) j = ((page_refs s)(i \<mapsto> unat r)) j"
    using assms test_set_bit [OF in_bitmap [OF assms], of j]
    by (simp add: page_refs_def pmm_sized_def)
qed

lemma page_refs_clear:
  assumes "pmm_sized s" "i < total_pages s"
  shows "page_refs (bitmap_clear_bit i s) = (page_refs s)(i := None)"
proof
  fix j
  show "page_refs (bitmap_clear_bit i s) j = ((page_refs s)(i := None)) j"
    using assms test_clear_bit [OF in_bitmap [OF assms], of j] by (simp add: page_refs_def)
qed

lemma page_refs_count:
  assumes "pmm_sized s" "i < total_pages s" "bitmap_test_bit s i"
  shows "page_refs (set_refcount i r s) = (page_refs s)(i \<mapsto> unat r)"
  using assms by (auto simp: page_refs_def pmm_sized_def fun_eq_iff)

subsection \<open>Single pages\<close>

lemma inject_frames:
  "pmm_inject s = (f, s') \<Longrightarrow> page_refs s' = page_refs s \<and> pmm_sized s' = pmm_sized s \<and> total_pages s' = total_pages s
    \<and> last_used_index s' = last_used_index s \<and> used_pages s' = used_pages s \<and> usable_memory s' = usable_memory s
    \<and> bitmap_test_bit s' = bitmap_test_bit s \<and> pmm_state.more s' = pmm_state.more s"
  by (auto simp: pmm_inject_def split: if_splits)

lemma take_page_spec:
  assumes "pmm_sized s" "i < total_pages s" "take_page i s = (p, s')"
  shows "p = page_addr i \<and> pmm_sized s' \<and> page_refs s' = (page_refs s)(i \<mapsto> 1) \<and> total_pages s' = total_pages s
    \<and> used_pages s' = used_pages s + 1 \<and> usable_memory s' = usable_memory s \<and> pmm_state.more s' = pmm_state.more s"
  using assms page_refs_set [OF assms(1,2), of 1]
  by (auto simp: take_page_def Let_def intro!: sized_last)

text \<open>
  An allocation takes a free page and gives it one reference; it returns \<open>NULL\<close> without taking one
  only when the fault injection fires or no page is free.
\<close>

lemma alloc_page_cases:
  assumes wf: "pmm_sized s" and call: "pmm_alloc_page s = (p, s')"
  obtains (page) i where "i < total_pages s" "page_refs s i = None" "p = page_addr i" "pmm_sized s'"
      "page_refs s' = (page_refs s)(i \<mapsto> 1)" "total_pages s' = total_pages s" "used_pages s' = used_pages s + 1"
      "usable_memory s' = usable_memory s" "pmm_state.more s' = pmm_state.more s"
  | (none) "p = NULL" "pmm_sized s'" "page_refs s' = page_refs s" "total_pages s' = total_pages s"
      "used_pages s' = used_pages s" "usable_memory s' = usable_memory s" "pmm_state.more s' = pmm_state.more s"
      "g_debug_pmm_fail_nth s = 1 \<or> (\<forall>i < total_pages s. page_refs s i \<noteq> None)"
proof -
  obtain f t where inj: "pmm_inject s = (f, t)" by fastforce
  note fr = inject_frames [OF inj]
  have sz: "pmm_sized t" using wf fr by simp
  have hit: thesis if "i < total_pages t" "\<not> bitmap_test_bit t i" "take_page i t = (p, s')" for i
    using page [of i] take_page_spec [OF sz that(1,3)] that fr page_refs_None [of i t] by metis
  show thesis
  proof (cases f)
    case True
    then have "g_debug_pmm_fail_nth s = 1" using inj by (auto simp: pmm_inject_def split: if_splits)
    then show thesis using none True inj call fr wf by (simp add: pmm_alloc_page_def)
  next
    case False
    show thesis
    proof (cases "first_from (\<lambda>i. \<not> bitmap_test_bit t i) (last_used_index t) (total_pages t)")
      case (Some i)
      then show thesis using hit [of i] first_from_SomeD [OF Some] False inj call by (simp add: pmm_alloc_page_def)
    next
      case None
      show thesis
      proof (cases "first_from (\<lambda>i. \<not> bitmap_test_bit t i) 0 (last_used_index t)")
        case (Some i)
        moreover have "i < total_pages t" using first_from_SomeD [OF Some] sz by (simp add: pmm_sized_def)
        ultimately show thesis
          using hit [of i] first_from_SomeD [OF Some] None False inj call by (simp add: pmm_alloc_page_def)
      next
        case none2: None
        have "page_refs s i \<noteq> None" if "i < total_pages s" for i
          using that fr first_from_NoneD [OF None, of i] first_from_NoneD [OF none2, of i]
          by (cases "i < last_used_index t") (auto simp: page_refs_def)
        then show thesis using none None none2 False inj call fr wf by (simp add: pmm_alloc_page_def)
      qed
    qed
  qed
qed

lemma drop_ref_spec:
  assumes wf: "pmm_sized s"
  shows "pmm_sized (snd (drop_ref i s)) \<and> total_pages (snd (drop_ref i s)) = total_pages s
    \<and> last_used_index (snd (drop_ref i s)) = last_used_index s
    \<and> usable_memory (snd (drop_ref i s)) = usable_memory s
    \<and> pmm_state.more (snd (drop_ref i s)) = pmm_state.more s
    \<and> page_refs (snd (drop_ref i s)) =
        (case page_refs s i of None \<Rightarrow> page_refs s
         | Some n \<Rightarrow> (page_refs s)(i := (if n \<le> 1 then None else Some (n - 1))))
    \<and> used_pages (snd (drop_ref i s)) =
        (case page_refs s i of None \<Rightarrow> used_pages s | Some n \<Rightarrow> if n \<le> 1 then used_pages s - 1 else used_pages s)
    \<and> fst (drop_ref i s) = (case page_refs s i of None \<Rightarrow> False | Some n \<Rightarrow> n \<le> 1)"
proof (cases "i < total_pages s \<and> bitmap_test_bit s i")
  case False
  have "page_refs s i = None" using False unfolding page_refs_def by (rule if_not_P)
  moreover have "drop_ref i s = (False, s)" using False unfolding drop_ref_def by (rule if_not_P)
  ultimately show ?thesis using wf by simp
next
  case True
  then have lt: "i < total_pages s" and bit: "bitmap_test_bit s i" and len: "i < length (pp_refcounts s)"
    using wf by (auto simp: pmm_sized_def)
  define r where "r = pp_refcounts s ! i"
  have refs: "page_refs s i = Some (unat r)" using True by (simp add: page_refs_def r_def)
  show ?thesis
  proof (cases "unat r \<le> 1")
    case True
    then consider "r = 0" | "r = 1" by (metis le_neq_implies_less less_one unat_1 unat_eq_zero word_unat_eq_iff)
    then show ?thesis
    proof cases
      case 1
      then have "drop_ref i s = (True, (bitmap_clear_bit i s)\<lparr>used_pages := used_pages s - 1\<rparr>)"
        using lt bit len by (simp add: drop_ref_def r_def Let_def)
      with 1 show ?thesis using refs wf page_refs_clear [OF wf lt] by simp
    next
      case 2
      have "page_refs (bitmap_clear_bit i (set_refcount i 0 s)) = (page_refs s)(i := None)"
        using page_refs_clear [of "set_refcount i 0 s" i] page_refs_count [OF wf lt bit, of 0] wf lt by simp
      moreover have "drop_ref i s = (True, (bitmap_clear_bit i (set_refcount i 0 s))\<lparr>used_pages := used_pages s - 1\<rparr>)"
        using 2 lt bit len by (simp add: drop_ref_def r_def Let_def)
      ultimately show ?thesis using 2 refs wf by simp
    qed
  next
    case False
    then have "r \<noteq> 0" by auto
    then have "r > 0" "unat (r - 1) = unat r - 1" by (simp_all add: unat_minus_one word_gt_0)
    moreover from this have "r - 1 \<noteq> 0" using False by (metis unat_0 diff_is_0_eq)
    moreover from calculation have "drop_ref i s = (False, set_refcount i (r - 1) s)"
      using lt bit len by (simp add: drop_ref_def r_def Let_def)
    ultimately show ?thesis using False refs wf page_refs_count [OF wf lt bit, of "r - 1"] by simp
  qed
qed

lemma free_page_spec:
  assumes wf: "pmm_sized s" and nz: "p \<noteq> NULL" and ix: "unat p div PAGE_SIZE = i"
  shows "pmm_sized (pmm_free_page p s) \<and> total_pages (pmm_free_page p s) = total_pages s
    \<and> usable_memory (pmm_free_page p s) = usable_memory s
    \<and> pmm_state.more (pmm_free_page p s) = pmm_state.more s
    \<and> page_refs (pmm_free_page p s) =
        (case page_refs s i of None \<Rightarrow> page_refs s
         | Some n \<Rightarrow> (page_refs s)(i := (if n \<le> 1 then None else Some (n - 1))))
    \<and> used_pages (pmm_free_page p s) =
        (case page_refs s i of None \<Rightarrow> used_pages s | Some n \<Rightarrow> if n \<le> 1 then used_pages s - 1 else used_pages s)"
proof -
  obtain b t where d: "drop_ref i s = (b, t)" by fastforce
  note spec = drop_ref_spec [OF wf, of i, unfolded d fst_conv snd_conv]
  have e: "pmm_free_page p s = (if b \<and> i < last_used_index t then t\<lparr>last_used_index := i\<rparr> else t)"
    using nz ix d by (simp add: pmm_free_page_def)
  have "pmm_sized (if b \<and> i < last_used_index t then t\<lparr>last_used_index := i\<rparr> else t)"
    using spec sized_last [of t i] by (simp add: pmm_sized_def)
  then show ?thesis
    unfolding e using spec by simp
qed

lemma page_ref_spec:
  assumes wf: "pmm_sized s" and nz: "p \<noteq> NULL" and ix: "unat p div PAGE_SIZE = i"
  shows "pmm_sized (pmm_page_ref p s) \<and> total_pages (pmm_page_ref p s) = total_pages s
    \<and> used_pages (pmm_page_ref p s) = used_pages s
    \<and> usable_memory (pmm_page_ref p s) = usable_memory s
    \<and> pmm_state.more (pmm_page_ref p s) = pmm_state.more s
    \<and> page_refs (pmm_page_ref p s) =
        (case page_refs s i of None \<Rightarrow> page_refs s | Some n \<Rightarrow> (page_refs s)(i \<mapsto> min 255 (n + 1)))"
proof -
  define r where "r = pp_refcounts s ! i"
  have le: "unat r \<le> 255" using unsigned_less [where 'a = nat and w = r] by simp
  have lt: "r < 255 \<longleftrightarrow> unat r < 255" by (simp add: word_less_nat_alt)
  have e: "pmm_page_ref p s =
      (if i < total_pages s \<and> bitmap_test_bit s i \<and> r < 255 then set_refcount i (r + 1) s else s)"
    using nz ix by (simp add: pmm_page_ref_def r_def)
  show ?thesis
  proof (cases "i < total_pages s \<and> bitmap_test_bit s i")
    case False
    have "page_refs s i = None" using False unfolding page_refs_def by (rule if_not_P)
    moreover have "pmm_page_ref p s = s" unfolding e using False by auto
    ultimately show ?thesis using wf by simp
  next
    case True
    then have refs: "page_refs s i = Some (unat r)" by (simp add: page_refs_def r_def)
    show ?thesis
    proof (cases "r < 255")
      case False
      then have "unat r = 255" using le lt by simp
      then have "(page_refs s)(i \<mapsto> 255) = page_refs s" using refs by (simp add: fun_upd_idem)
      then show ?thesis unfolding e using False refs wf \<open>unat r = 255\<close> by simp
    next
      case below: True
      then have "unat (r + 1) = unat r + 1" using lt by (simp add: unat_word_ariths)
      then show ?thesis
        unfolding e using below True refs wf page_refs_count [OF wf, of i "r + 1"] lt by simp
    qed
  qed
qed

lemma page_addr_ok:
  "pmm_sized s \<Longrightarrow> i < total_pages s \<Longrightarrow> i \<noteq> 0 \<Longrightarrow> page_addr i \<noteq> NULL \<and> unat (page_addr i) div PAGE_SIZE = i"
  using page_addr_zero [of s i] page_addr_index [of s i] by simp

section \<open>The interface of a frame pool\<close>

datatype frame_op = FAlloc | FShare nat | FRelease nat

fun pool_run ::
  "('s \<Rightarrow> nat option \<times> 's) \<Rightarrow> (nat \<Rightarrow> 's \<Rightarrow> 's) \<Rightarrow> (nat \<Rightarrow> 's \<Rightarrow> 's) \<Rightarrow> frame_op list \<Rightarrow> 's \<Rightarrow> nat option list \<times> 's" where
  "pool_run alloc share release [] s = ([], s)"
| "pool_run alloc share release (FAlloc # ops) s =
    (let (r, s) = alloc s; (rs, s) = pool_run alloc share release ops s in (r # rs, s))"
| "pool_run alloc share release (FShare i # ops) s = pool_run alloc share release ops (share i s)"
| "pool_run alloc share release (FRelease i # ops) s = pool_run alloc share release ops (release i s)"

text \<open>
  The references on a frame after a sequence of operations by holders who never drop the last one
  and never take more than the counter can hold; \<open>None\<close> when they break that rule.
\<close>

fun held :: "nat \<Rightarrow> nat \<Rightarrow> nat \<Rightarrow> frame_op list \<Rightarrow> nat option" where
  "held cap f n [] = Some n"
| "held cap f n (FAlloc # ops) = held cap f n ops"
| "held cap f n (FShare i # ops) =
    (if i = f then if n < cap then held cap f (n + 1) ops else None else held cap f n ops)"
| "held cap f n (FRelease i # ops) =
    (if i = f then if n \<le> 1 then None else held cap f (n - 1) ops else held cap f n ops)"

locale frame_pool =
  fixes wf :: "'s \<Rightarrow> bool"
    and refs :: "'s \<Rightarrow> nat \<Rightarrow> nat option"
    and alloc :: "'s \<Rightarrow> nat option \<times> 's"
    and share :: "nat \<Rightarrow> 's \<Rightarrow> 's"
    and release :: "nat \<Rightarrow> 's \<Rightarrow> 's"
    and cap :: nat
  assumes alloc_none: "wf s \<Longrightarrow> alloc s = (None, s') \<Longrightarrow> wf s' \<and> refs s' = refs s"
    and alloc_some: "wf s \<Longrightarrow> alloc s = (Some i, s') \<Longrightarrow> wf s' \<and> refs s i = None \<and> refs s' = (refs s)(i \<mapsto> 1)"
    and share_law: "wf s \<Longrightarrow> wf (share i s) \<and> refs (share i s) =
      (case refs s i of None \<Rightarrow> refs s | Some n \<Rightarrow> (refs s)(i \<mapsto> min cap (n + 1)))"
    and release_law: "wf s \<Longrightarrow> wf (release i s) \<and> refs (release i s) =
      (case refs s i of None \<Rightarrow> refs s | Some n \<Rightarrow> (refs s)(i := (if n \<le> 1 then None else Some (n - 1))))"
begin

lemma share_other: "wf s \<Longrightarrow> i \<noteq> f \<Longrightarrow> refs (share i s) f = refs s f"
  using share_law [of s i] by (simp split: option.splits)

lemma release_other: "wf s \<Longrightarrow> i \<noteq> f \<Longrightarrow> refs (release i s) f = refs s f"
  using release_law [of s i] by (simp split: option.splits)

lemma held_frame_kept:
  assumes "wf s" "refs s f = Some n" "held cap f n ops = Some m"
    and "pool_run alloc share release ops s = (rs, s')"
  shows "Some f \<notin> set rs \<and> refs s' f = Some m \<and> wf s'"
  using assms
proof (induction ops arbitrary: s n rs)
  case Nil
  then show ?case by simp
next
  case (Cons op ops)
  show ?case
  proof (cases op)
    case FAlloc
    obtain r t where a: "alloc s = (r, t)" by fastforce
    obtain rs' where rs: "rs = r # rs'" and run: "pool_run alloc share release ops t = (rs', s')"
      using Cons.prems(4) a FAlloc by (auto split: prod.splits)
    have t: "wf t \<and> refs t f = Some n \<and> r \<noteq> Some f"
    proof (cases r)
      case None
      then show ?thesis using alloc_none [OF Cons.prems(1), of t] a Cons.prems(2) by simp
    next
      case (Some i)
      then have "wf t" "refs s i = None" "refs t = (refs s)(i \<mapsto> 1)"
        using alloc_some [OF Cons.prems(1), of i t] a by simp_all
      then show ?thesis using Cons.prems(2) Some by (cases "i = f") simp_all
    qed
    have "held cap f n ops = Some m" using Cons.prems(3) FAlloc by simp
    from Cons.IH [OF conjunct1 [OF t] _ this run] t rs show ?thesis by (simp, blast)
  next
    case (FShare i)
    show ?thesis
    proof (cases "i = f")
      case True
      then have "n < cap" and h: "held cap f (n + 1) ops = Some m"
        using Cons.prems(3) FShare by (auto split: if_splits)
      then have "refs (share i s) f = Some (n + 1)"
        using share_law [OF Cons.prems(1), of i] Cons.prems(2) True by simp
      then show ?thesis
        using Cons.IH [of "share i s" "n + 1" rs] h share_law [OF Cons.prems(1), of i] Cons.prems(4) FShare by simp
    next
      case False
      then show ?thesis
        using Cons.IH [of "share i s" n rs] share_other [OF Cons.prems(1) False] share_law [OF Cons.prems(1), of i]
          Cons.prems(2-4) FShare by simp
    qed
  next
    case (FRelease i)
    show ?thesis
    proof (cases "i = f")
      case True
      then have "\<not> n \<le> 1" and h: "held cap f (n - 1) ops = Some m"
        using Cons.prems(3) FRelease by (auto split: if_splits)
      then have "refs (release i s) f = Some (n - 1)"
        using release_law [OF Cons.prems(1), of i] Cons.prems(2) True by simp
      then show ?thesis
        using Cons.IH [of "release i s" "n - 1" rs] h release_law [OF Cons.prems(1), of i] Cons.prems(4) FRelease by simp
    next
      case False
      then show ?thesis
        using Cons.IH [of "release i s" n rs] release_other [OF Cons.prems(1) False] release_law [OF Cons.prems(1), of i]
          Cons.prems(2-4) FRelease by simp
    qed
  qed
qed

end

text \<open>
  The allocator as such a pool. Page 0 is never handed out as such: its address is \<open>NULL\<close>, so a
  caller takes it for a failure.
\<close>

definition frame_refs :: "'a pmm_state_scheme \<Rightarrow> nat \<Rightarrow> nat option" where
  "frame_refs s i = (if i = 0 then None else page_refs s i)"

definition frame_alloc :: "'a pmm_state_scheme \<Rightarrow> nat option \<times> 'a pmm_state_scheme" where
  "frame_alloc s =
    (let (p, s) = pmm_alloc_page s in (if p = NULL then None else Some (unat p div PAGE_SIZE), s))"

definition frame_share :: "nat \<Rightarrow> 'a pmm_state_scheme \<Rightarrow> 'a pmm_state_scheme" where
  "frame_share i s = (if i < total_pages s then pmm_page_ref (page_addr i) s else s)"

definition frame_release :: "nat \<Rightarrow> 'a pmm_state_scheme \<Rightarrow> 'a pmm_state_scheme" where
  "frame_release i s = (if i < total_pages s then pmm_page_unref (page_addr i) s else s)"

lemma frame_alloc_None:
  "pmm_sized s \<Longrightarrow> frame_alloc s = (None, s') \<Longrightarrow> pmm_sized s' \<and> frame_refs s' = frame_refs s"
proof -
  assume wf: "pmm_sized s" and a: "frame_alloc s = (None, s')"
  then have c: "pmm_alloc_page s = (NULL, s')" by (auto simp: frame_alloc_def split: prod.splits if_splits)
  show ?thesis
    using wf c
  proof (cases rule: alloc_page_cases)
    case (page i)
    then have "i = 0" using page_addr_zero [OF wf] by simp
    with page show ?thesis by (auto simp: frame_refs_def fun_eq_iff)
  qed (auto simp: frame_refs_def fun_eq_iff)
qed

lemma frame_alloc_Some:
  "pmm_sized s \<Longrightarrow> frame_alloc s = (Some i, s') \<Longrightarrow>
    pmm_sized s' \<and> frame_refs s i = None \<and> frame_refs s' = (frame_refs s)(i \<mapsto> 1) \<and> i < total_pages s \<and> i \<noteq> 0
    \<and> pmm_alloc_page s = (page_addr i, s')"
proof -
  assume wf: "pmm_sized s" and a: "frame_alloc s = (Some i, s')"
  then obtain p where c: "pmm_alloc_page s = (p, s')" and p: "p \<noteq> NULL" "i = unat p div PAGE_SIZE"
    by (auto simp: frame_alloc_def split: prod.splits if_splits)
  show ?thesis
    using wf c
  proof (cases rule: alloc_page_cases)
    case (page j)
    then have "i = j" "j \<noteq> 0" using p page_addr_index [OF wf] page_addr_zero [OF wf] by auto
    with page c show ?thesis by (auto simp: frame_refs_def fun_eq_iff)
  qed (use p in simp)
qed

interpretation pmm: frame_pool pmm_sized frame_refs frame_alloc frame_share frame_release 255
proof unfold_locales
  fix s s' :: "'a pmm_state_scheme" and i :: nat
  assume wf: "pmm_sized s"
  show "pmm_sized (frame_share i s) \<and> frame_refs (frame_share i s) =
      (case frame_refs s i of None \<Rightarrow> frame_refs s | Some n \<Rightarrow> (frame_refs s)(i \<mapsto> min 255 (n + 1)))"
  proof (cases "i < total_pages s \<and> i \<noteq> 0")
    case True
    then show ?thesis
      using page_ref_spec [OF wf, of "page_addr i" i] page_addr_ok [OF wf, of i] by (auto simp: frame_share_def frame_refs_def fun_eq_iff split: option.splits)
  next
    case False
    then show ?thesis
      using wf by (auto simp: frame_share_def frame_refs_def page_refs_def pmm_page_ref_def page_addr_def)
  qed
  show "pmm_sized (frame_release i s) \<and> frame_refs (frame_release i s) =
      (case frame_refs s i of None \<Rightarrow> frame_refs s | Some n \<Rightarrow> (frame_refs s)(i := (if n \<le> 1 then None else Some (n - 1))))"
  proof (cases "i < total_pages s \<and> i \<noteq> 0")
    case True
    then show ?thesis
      using free_page_spec [OF wf, of "page_addr i" i] page_addr_ok [OF wf, of i]
      by (auto simp: frame_release_def pmm_page_unref_def frame_refs_def fun_eq_iff split: option.splits)
  next
    case False
    then show ?thesis
      using wf by (auto simp: frame_release_def pmm_page_unref_def frame_refs_def page_refs_def pmm_free_page_def page_addr_def)
  qed
qed (auto dest: frame_alloc_None frame_alloc_Some)

section \<open>Runs of pages\<close>

definition free_run :: "(nat \<Rightarrow> bool) \<Rightarrow> nat \<Rightarrow> nat \<Rightarrow> bool" where
  "free_run used n start \<longleftrightarrow> (\<forall>j. start \<le> j \<and> j < start + n \<longrightarrow> \<not> used j)"

text \<open>What the search knows at index \<open>i\<close>: the length of the free run that ends there.\<close>

definition run_inv :: "(nat \<Rightarrow> bool) \<Rightarrow> nat \<Rightarrow> nat \<Rightarrow> nat \<Rightarrow> bool" where
  "run_inv used n c i \<longleftrightarrow> c < n \<and> c \<le> i \<and> free_run used c (i - c) \<and> (c = i \<or> used (i - c - 1))"

lemma run_inv_free:
  assumes "run_inv used n c i" "\<not> used i" "c + 1 < n"
  shows "run_inv used n (c + 1) (Suc i)"
proof -
  have "\<not> used j" if "i - c \<le> j" "j < i - c + (c + 1)" for j
    using assms that by (cases "j = i") (auto simp: run_inv_def free_run_def)
  with assms show ?thesis by (auto simp: run_inv_def free_run_def)
qed

lemma run_inv_used: "0 < n \<Longrightarrow> used i \<Longrightarrow> run_inv used n 0 (Suc i)"
  by (auto simp: run_inv_def free_run_def)

lemma no_run_ends:
  assumes "run_inv used n c i" "start + n \<le> i" "i < start + n + 1"
  shows "\<not> free_run used n start"
proof -
  have "i = start + n" using assms by simp
  then have "c \<noteq> i" "i - c - 1 < i" "start \<le> i - c - 1" using assms(1) by (auto simp: run_inv_def)
  moreover have "used (i - c - 1)" using assms(1) \<open>c \<noteq> i\<close> by (simp add: run_inv_def)
  ultimately show ?thesis using \<open>i = start + n\<close> by (auto simp: free_run_def)
qed

lemma run_search_sound:
  assumes "run_inv used n c i" "\<And>start. start + n \<le> i \<Longrightarrow> \<not> free_run used n start"
  shows "case run_search used n c i pages of
      Some start \<Rightarrow> start + n \<le> pages \<and> free_run used n start \<and> (\<forall>b < start. \<not> free_run used n b)
    | None \<Rightarrow> (\<forall>start. start + n \<le> pages \<longrightarrow> \<not> free_run used n start)"
  using assms
proof (induction used n c i pages rule: run_search.induct)
  case (1 used n c i pages)
  define c' where "c' = (if \<not> used i then c + 1 else 0)"
  have n0: "0 < n" using "1.prems"(1) by (simp add: run_inv_def)
  show ?case
  proof (cases "i < pages")
    case False
    then show ?thesis using "1.prems"(2) by (auto simp: run_search.simps [of used n c i pages])
  next
    case lt: True
    show ?thesis
    proof (cases "c' = n")
      case True
      then have free: "\<not> used i" and cn: "c + 1 = n" using n0 by (auto simp: c'_def split: if_splits)
      have le: "c \<le> i" using "1.prems"(1) by (simp add: run_inv_def)
      have "\<not> used j" if "i + 1 - n \<le> j" "j < i + 1 - n + n" for j
        using "1.prems"(1) that free cn le by (cases "j = i") (auto simp: run_inv_def free_run_def)
      then have "free_run used n (i + 1 - n)" by (simp add: free_run_def)
      moreover have "\<not> free_run used n b" if "b < i + 1 - n" for b
        using "1.prems"(2) [of b] that by simp
      moreover have "run_search used n c i pages = Some (i + 1 - n)"
        using lt True by (simp add: run_search.simps [of used n c i pages] c'_def Let_def)
      ultimately show ?thesis using lt cn le by simp
    next
      case False
      have step: "run_search used n c i pages = run_search used n c' (Suc i) pages"
        using lt False by (simp add: run_search.simps [of used n c i pages] c'_def Let_def)
      have inv: "run_inv used n c' (Suc i)"
      proof (cases "used i")
        case True
        then show ?thesis using run_inv_used [OF n0] by (simp add: c'_def)
      next
        case free: False
        then show ?thesis
          using run_inv_free [OF "1.prems"(1)] False "1.prems"(1) by (simp add: c'_def run_inv_def)
      qed
      have "\<not> free_run used n start" if "start + n \<le> Suc i" for start
        using "1.prems"(2) [of start] no_run_ends [OF inv, of start] that by (cases "start + n \<le> i") simp_all
      with "1.IH" [OF lt c'_def False inv] show ?thesis unfolding step by blast
    qed
  qed
qed

lemma run_search_spec:
  assumes "0 < n"
  shows "case run_search used n 0 0 pages of
      Some start \<Rightarrow> start + n \<le> pages \<and> free_run used n start \<and> (\<forall>b < start. \<not> free_run used n b)
    | None \<Rightarrow> (\<forall>start. start + n \<le> pages \<longrightarrow> \<not> free_run used n start)"
  using run_search_sound [of used n 0 0 pages] assms by (simp add: run_inv_def free_run_def)

lemma take_run_spec:
  "pmm_sized s \<Longrightarrow> start + n \<le> total_pages s \<Longrightarrow>
    pmm_sized (take_run start n s) \<and> total_pages (take_run start n s) = total_pages s
    \<and> used_pages (take_run start n s) = used_pages s \<and> usable_memory (take_run start n s) = usable_memory s
    \<and> pmm_state.more (take_run start n s) = pmm_state.more s
    \<and> page_refs (take_run start n s) = (\<lambda>j. if start \<le> j \<and> j < start + n then Some 1 else page_refs s j)"
proof (induction start n s rule: take_run.induct)
  case (1 start s)
  then show ?case by (auto simp: fun_eq_iff)
next
  case (2 start n s)
  define t where "t = set_refcount start 1 (bitmap_set_bit start s)"
  have t: "pmm_sized t" "total_pages t = total_pages s" "used_pages t = used_pages s" "usable_memory t = usable_memory s"
      "pmm_state.more t = pmm_state.more s" "page_refs t = (page_refs s)(start \<mapsto> 1)"
    using "2.prems" page_refs_set [of s start 1] by (simp_all add: t_def)
  note ih = "2.IH" [folded t_def, OF t(1)]
  have "page_refs (take_run start (Suc n) s) = (\<lambda>j. if start \<le> j \<and> j < start + Suc n then Some 1 else page_refs s j)"
    using ih t "2.prems" by (auto simp: t_def [symmetric] fun_eq_iff)
  with ih t "2.prems" show ?case by (simp add: t_def [symmetric])
qed

lemma drop_run_spec:
  "pmm_sized s \<Longrightarrow>
    pmm_sized (drop_run start n s) \<and> total_pages (drop_run start n s) = total_pages s
    \<and> last_used_index (drop_run start n s) = last_used_index s
    \<and> usable_memory (drop_run start n s) = usable_memory s \<and> pmm_state.more (drop_run start n s) = pmm_state.more s
    \<and> page_refs (drop_run start n s) =
       (\<lambda>j. if start \<le> j \<and> j < start + n
            then (case page_refs s j of None \<Rightarrow> None | Some m \<Rightarrow> if m \<le> 1 then None else Some (m - 1))
            else page_refs s j)"
proof (induction start n s rule: drop_run.induct)
  case (1 start s)
  then show ?case by (auto simp: fun_eq_iff)
next
  case (2 start n s)
  define t where "t = snd (drop_ref start s)"
  note d = drop_ref_spec [OF "2.prems", of start, folded t_def]
  note ih = "2.IH" [folded t_def]
  have sz: "pmm_sized t" using d by blast
  have refs: "page_refs t j = (if j = start then (case page_refs s j of None \<Rightarrow> None | Some m \<Rightarrow> if m \<le> 1 then None else Some (m - 1))
      else page_refs s j)" for j
    using d by (auto split: option.splits)
  have "page_refs (drop_run start (Suc n) s) = (\<lambda>j. if start \<le> j \<and> j < start + Suc n
            then (case page_refs s j of None \<Rightarrow> None | Some m \<Rightarrow> if m \<le> 1 then None else Some (m - 1))
            else page_refs s j)"
    using ih [OF sz] by (auto simp: t_def [symmetric] fun_eq_iff refs)
  with ih [OF sz] d show ?case by (simp add: t_def [symmetric])
qed

section \<open>Statistics\<close>

definition free_set :: "'a pmm_state_scheme \<Rightarrow> nat set" where
  "free_set s = {i. i < total_pages s \<and> page_refs s i = None}"

definition free_count :: "'a pmm_state_scheme \<Rightarrow> nat" where
  "free_count s = length (filter (\<lambda>i. page_refs s i = None) [0..<total_pages s])"

lemma free_count_card: "free_count s = card (free_set s)"
proof -
  have "free_set s = set (filter (\<lambda>i. page_refs s i = None) [0..<total_pages s])"
    by (auto simp: free_set_def)
  then show ?thesis by (simp only: free_count_def distinct_card distinct_filter distinct_upt)
qed

definition balance :: "'a pmm_state_scheme \<Rightarrow> u64" where
  "balance s = used_pages s + of_nat (free_count s)"

lemma finite_free_set [simp]: "finite (free_set s)"
  by (simp add: free_set_def)

lemma balance_take:
  assumes "A \<subseteq> free_set s" "free_set s' = free_set s - A" "used_pages s' = used_pages s + of_nat (card A)"
  shows "balance s' = balance s"
proof -
  have fin: "finite A" using assms(1) by (rule finite_subset) simp
  have "card A \<le> card (free_set s)" using assms(1) by (simp add: card_mono)
  moreover have "card (free_set s') = card (free_set s) - card A" using assms fin by (simp add: card_Diff_subset)
  ultimately have "card (free_set s) = card A + card (free_set s')" by simp
  with assms(3) show ?thesis by (simp add: balance_def free_count_card)
qed

lemma balance_give:
  assumes "i \<notin> free_set s" "free_set s' = insert i (free_set s)" "used_pages s' = used_pages s - 1"
  shows "balance s' = balance s"
  using assms by (simp add: balance_def free_count_card)

lemma balance_same:
  "free_set s' = free_set s \<Longrightarrow> used_pages s' = used_pages s \<Longrightarrow> balance s' = balance s"
  by (simp add: balance_def free_count_card)

lemma drop_ref_balance:
  assumes wf: "pmm_sized s"
  shows "balance (snd (drop_ref i s)) = balance s"
proof -
  define t where "t = snd (drop_ref i s)"
  note d = drop_ref_spec [OF wf, of i, folded t_def]
  show ?thesis
  proof (cases "page_refs s i")
    case None
    with d have "balance t = balance s" by (intro balance_same) (simp_all add: free_set_def)
    then show ?thesis by (simp add: t_def)
  next
    case (Some n)
    have lt: "i < total_pages s" using Some by (simp add: page_refs_def split: if_splits)
    show ?thesis
    proof (cases "n \<le> 1")
      case True
      with d Some lt have "balance t = balance s" by (intro balance_give [of i]) (auto simp: free_set_def)
      then show ?thesis by (simp add: t_def)
    next
      case False
      with d Some have "balance t = balance s" by (intro balance_same) (auto simp: free_set_def)
      then show ?thesis by (simp add: t_def)
    qed
  qed
qed

lemma drop_run_balance: "pmm_sized s \<Longrightarrow> balance (drop_run start n s) = balance s"
proof (induction start n s rule: drop_run.induct)
  case (2 start n s)
  then show ?case using drop_ref_spec [of s start] drop_ref_balance [of s start] by simp
qed simp

lemma balance_last [simp]: "balance (s\<lparr>last_used_index := l\<rparr>) = balance s"
  by (simp add: balance_def free_count_def)

lemma free_page_balance: "pmm_sized s \<Longrightarrow> balance (pmm_free_page p s) = balance s"
  using drop_ref_balance [of s "unat p div PAGE_SIZE"]
  by (auto simp: pmm_free_page_def Let_def split: prod.splits)

lemma page_ref_balance: "pmm_sized s \<Longrightarrow> balance (pmm_page_ref p s) = balance s"
proof (cases "p = NULL")
  case False
  assume wf: "pmm_sized s"
  note r = page_ref_spec [OF wf False refl]
  show ?thesis
    by (rule balance_same) (use r in \<open>auto simp: free_set_def split: option.splits if_splits\<close>)
qed (simp add: pmm_page_ref_def)

lemma alloc_page_balance:
  assumes wf: "pmm_sized s" and c: "pmm_alloc_page s = (p, s')"
  shows "balance s' = balance s \<and> pmm_sized s' \<and> usable_memory s' = usable_memory s"
  using wf c
proof (cases rule: alloc_page_cases)
  case (page i)
  have "balance s' = balance s"
    by (rule balance_take [of "{i}"]) (use page in \<open>auto simp: free_set_def\<close>)
  with page show ?thesis by simp
next
  case none
  have "balance s' = balance s" by (rule balance_same) (use none in \<open>simp_all add: free_set_def\<close>)
  with none show ?thesis by simp
qed

text \<open>The whole behaviour of a request for several pages.\<close>

lemma alloc_pages_cases:
  assumes wf: "pmm_sized s" and n: "2 \<le> n" and call: "pmm_alloc_pages n s = (p, s')"
  obtains (run) start where "start + n \<le> total_pages s" "g_debug_pmm_fail_nth s \<noteq> 1" "free_run (\<lambda>i. page_refs s i \<noteq> None) n start"
      "\<forall>b < start. \<not> free_run (\<lambda>i. page_refs s i \<noteq> None) n b" "p = page_addr start" "pmm_sized s'"
      "page_refs s' = (\<lambda>j. if start \<le> j \<and> j < start + n then Some 1 else page_refs s j)"
      "used_pages s' = used_pages s + of_nat n" "total_pages s' = total_pages s" "usable_memory s' = usable_memory s"
  | (none) "p = NULL" "pmm_sized s'" "page_refs s' = page_refs s" "used_pages s' = used_pages s"
      "total_pages s' = total_pages s" "usable_memory s' = usable_memory s"
      "g_debug_pmm_fail_nth s = 1 \<or> (\<forall>start. start + n \<le> total_pages s \<longrightarrow> \<not> free_run (\<lambda>i. page_refs s i \<noteq> None) n start)"
proof -
  obtain f t where inj: "pmm_inject s = (f, t)" by fastforce
  note fr = inject_frames [OF inj]
  have sz: "pmm_sized t" using wf fr by simp
  have used: "free_run (bitmap_test_bit t) n st = free_run (\<lambda>i. page_refs s i \<noteq> None) n st"
    if "st + n \<le> total_pages s" for st
    using that fr by (auto simp: free_run_def page_refs_def)
  have call': "(if f then (NULL, t)
      else case run_search (bitmap_test_bit t) n 0 0 (total_pages t) of
        Some st \<Rightarrow> (page_addr st, (take_run st n t)\<lparr>used_pages := used_pages (take_run st n t) + of_nat n\<rparr>)
      | None \<Rightarrow> (NULL, t)) = (p, s')"
    using call n inj unfolding pmm_alloc_pages_def Let_def by simp
  show thesis
  proof (cases f)
    case True
    then have "g_debug_pmm_fail_nth s = 1" using inj by (auto simp: pmm_inject_def split: if_splits)
    then show thesis using none True call' fr wf by simp
  next
    case nf: False
    show thesis
    proof (cases "run_search (bitmap_test_bit t) n 0 0 (total_pages t)")
      case None
      then have "\<forall>start. start + n \<le> total_pages s \<longrightarrow> \<not> free_run (\<lambda>i. page_refs s i \<noteq> None) n start"
        using run_search_spec [where n = n and used = "bitmap_test_bit t" and pages = "total_pages t"] n used fr by simp
      then show thesis using none None nf call' fr wf by simp
    next
      case (Some st)
      have sp: "st + n \<le> total_pages t" "free_run (bitmap_test_bit t) n st" "\<forall>b < st. \<not> free_run (bitmap_test_bit t) n b"
        using run_search_spec [where n = n and used = "bitmap_test_bit t" and pages = "total_pages t"] n Some by simp_all
      note tk = take_run_spec [OF sz sp(1), unfolded conjunct1 [OF fr]]
      have first: "\<forall>b < st. \<not> free_run (\<lambda>i. page_refs s i \<noteq> None) n b"
        and here: "free_run (\<lambda>i. page_refs s i \<noteq> None) n st" using sp used fr by simp_all
      have s': "p = page_addr st" "s' = (take_run st n t)\<lparr>used_pages := used_pages t + of_nat n\<rparr>"
        using call' nf Some tk by simp_all
      have "g_debug_pmm_fail_nth s \<noteq> 1" using inj nf by (auto simp: pmm_inject_def split: if_splits)
      then show thesis by (intro run [of st, OF _ _ here first s'(1)]) (use tk fr sp(1) s'(2) in simp_all)
    qed
  qed
qed

lemma alloc_pages_balance:
  assumes wf: "pmm_sized s" and c: "pmm_alloc_pages n s = (p, s')"
  shows "balance s' = balance s \<and> pmm_sized s' \<and> usable_memory s' = usable_memory s"
proof -
  consider "n = 0" | "n = 1" | "2 \<le> n" by linarith
  then show ?thesis
  proof cases
    case 1
    then show ?thesis using c wf by (simp add: pmm_alloc_pages_def)
  next
    case 2
    then show ?thesis using c alloc_page_balance [OF wf] by (simp add: pmm_alloc_pages_def)
  next
    case 3
    from wf 3 c show ?thesis
    proof (cases rule: alloc_pages_cases)
      case (run start)
      have "balance s' = balance s"
        by (rule balance_take [of "{start..<start + n}"])
          (use run in \<open>auto simp: free_set_def free_run_def\<close>)
      with run show ?thesis by simp
    next
      case none
      have "balance s' = balance s" by (rule balance_same) (use none in \<open>simp_all add: free_set_def\<close>)
      with none show ?thesis by simp
    qed
  qed
qed

datatype pmm_op = PAllocPage | PAllocPages nat | PFreePage ptr | PFreePages ptr nat | PRef ptr | PUnref ptr

fun pmm_exec :: "pmm_op \<Rightarrow> 'a pmm_state_scheme \<Rightarrow> 'a pmm_state_scheme" where
  "pmm_exec PAllocPage s = snd (pmm_alloc_page s)"
| "pmm_exec (PAllocPages n) s = snd (pmm_alloc_pages n s)"
| "pmm_exec (PFreePage p) s = pmm_free_page p s"
| "pmm_exec (PFreePages p n) s = pmm_free_pages p n s"
| "pmm_exec (PRef p) s = pmm_page_ref p s"
| "pmm_exec (PUnref p) s = pmm_page_unref p s"

lemma free_page_sized:
  "pmm_sized s \<Longrightarrow> pmm_sized (pmm_free_page p s) \<and> usable_memory (pmm_free_page p s) = usable_memory s"
proof (cases "p = NULL")
  case True
  assume "pmm_sized s"
  then show ?thesis using True by (simp add: pmm_free_page_def)
next
  case False
  assume "pmm_sized s"
  from free_page_spec [OF this False refl] show ?thesis by blast
qed

lemma pmm_exec_keeps:
  assumes "pmm_sized s"
  shows "pmm_sized (pmm_exec op s) \<and> balance (pmm_exec op s) = balance s \<and> usable_memory (pmm_exec op s) = usable_memory s"
proof (cases op)
  case PAllocPage
  then show ?thesis using alloc_page_balance [OF assms] by (metis pmm_exec.simps(1) prod.collapse)
next
  case (PAllocPages n)
  then show ?thesis using alloc_pages_balance [OF assms] by (metis pmm_exec.simps(2) prod.collapse)
next
  case (PFreePage p)
  then show ?thesis using free_page_sized [OF assms] free_page_balance [OF assms] by simp
next
  case (PUnref p)
  then show ?thesis using free_page_sized [OF assms] free_page_balance [OF assms] by (simp add: pmm_page_unref_def)
next
  case (PFreePages p n)
  define t where "t = drop_run (unat p div PAGE_SIZE) n s"
  note d = drop_run_spec [OF assms, of "unat p div PAGE_SIZE" n, folded t_def]
  have "pmm_sized t \<Longrightarrow> unat p div PAGE_SIZE < last_used_index t \<Longrightarrow> pmm_sized (t\<lparr>last_used_index := unat p div PAGE_SIZE\<rparr>)"
    by (rule sized_last) (simp_all add: pmm_sized_def)
  then show ?thesis
    using assms d drop_run_balance [OF assms, of "unat p div PAGE_SIZE" n, folded t_def] PFreePages
    by (auto simp: pmm_free_pages_def Let_def t_def [symmetric])
next
  case (PRef p)
  have "pmm_sized (pmm_page_ref p s) \<and> usable_memory (pmm_page_ref p s) = usable_memory s"
  proof (cases "p = NULL")
    case True
    then show ?thesis using assms by (simp add: pmm_page_ref_def)
  next
    case False
    from page_ref_spec [OF assms False refl] show ?thesis by blast
  qed
  then show ?thesis using PRef page_ref_balance [OF assms] by simp
qed

lemma pmm_run_keeps:
  "pmm_sized s \<Longrightarrow> pmm_sized (fold pmm_exec ops s) \<and> balance (fold pmm_exec ops s) = balance s
    \<and> usable_memory (fold pmm_exec ops s) = usable_memory s"
  by (induction ops arbitrary: s) (simp_all add: pmm_exec_keeps)

section \<open>Boot\<close>

lemma clear_range_spec:
  "pmm_sized s \<Longrightarrow> start + n \<le> total_pages s \<Longrightarrow>
    pmm_sized (clear_range start n s) \<and> total_pages (clear_range start n s) = total_pages s
    \<and> used_pages (clear_range start n s) = used_pages s \<and> usable_memory (clear_range start n s) = usable_memory s
    \<and> pp_refcounts (clear_range start n s) = pp_refcounts s
    \<and> page_refs (clear_range start n s) = (\<lambda>j. if start \<le> j \<and> j < start + n then None else page_refs s j)"
proof (induction start n s rule: clear_range.induct)
  case (1 start s)
  then show ?case by (auto simp: fun_eq_iff)
next
  case (2 start n s)
  have lt: "start < total_pages s" using "2.prems" by simp
  note ih = "2.IH" [simplified, OF "2.prems"(1)]
  have "page_refs (clear_range start (Suc n) s) = (\<lambda>j. if start \<le> j \<and> j < start + Suc n then None else page_refs s j)"
    using ih "2.prems" page_refs_clear [OF "2.prems"(1) lt] by (auto simp: fun_eq_iff)
  with ih "2.prems" show ?case by simp
qed

lemma page_refs_mark:
  assumes "pmm_sized s" "i < total_pages s"
  shows "page_refs (bitmap_set_bit i s) = (page_refs s)(i \<mapsto> unat (pp_refcounts s ! i))"
proof
  fix j
  show "page_refs (bitmap_set_bit i s) j = ((page_refs s)(i \<mapsto> unat (pp_refcounts s ! i))) j"
    using assms test_set_bit [OF in_bitmap [OF assms], of j] by (simp add: page_refs_def)
qed

lemma reserve_range_spec:
  "pmm_sized s \<Longrightarrow> start + n \<le> total_pages s \<Longrightarrow> (\<And>j. start \<le> j \<Longrightarrow> j < start + n \<Longrightarrow> page_refs s j = None) \<Longrightarrow>
    pmm_sized (reserve_range start n s) \<and> total_pages (reserve_range start n s) = total_pages s
    \<and> usable_memory (reserve_range start n s) = usable_memory s \<and> balance (reserve_range start n s) = balance s
    \<and> page_refs (reserve_range start n s) =
       (\<lambda>j. if start \<le> j \<and> j < start + n then Some (unat (pp_refcounts s ! j)) else page_refs s j)"
proof (induction start n s rule: reserve_range.induct)
  case (1 start s)
  then show ?case by (auto simp: fun_eq_iff)
next
  case (2 start n s)
  define t where "t = (bitmap_set_bit start s)\<lparr>used_pages := used_pages s + 1\<rparr>"
  have lt: "start < total_pages s" using "2.prems" by simp
  have refs: "page_refs t = (page_refs s)(start \<mapsto> unat (pp_refcounts s ! start))"
    using page_refs_mark [OF "2.prems"(1) lt] by (simp add: t_def)
  have t: "pmm_sized t" "total_pages t = total_pages s" "usable_memory t = usable_memory s" "pp_refcounts t = pp_refcounts s"
    using "2.prems"(1) by (simp_all add: t_def)
  have bal: "balance t = balance s"
  proof (rule balance_take [of "{start}"])
    show "{start} \<subseteq> free_set s" using lt "2.prems"(3) by (simp add: free_set_def)
    show "free_set t = free_set s - {start}" by (auto simp: free_set_def refs t)
  qed (simp add: t_def)
  have "page_refs t j = None" if "Suc start \<le> j" "j < Suc start + n" for j
    using that "2.prems"(3) by (simp add: refs)
  then have ih: "pmm_sized (reserve_range (Suc start) n t) \<and> total_pages (reserve_range (Suc start) n t) = total_pages t
    \<and> usable_memory (reserve_range (Suc start) n t) = usable_memory t \<and> balance (reserve_range (Suc start) n t) = balance t
    \<and> page_refs (reserve_range (Suc start) n t) =
       (\<lambda>j. if Suc start \<le> j \<and> j < Suc start + n then Some (unat (pp_refcounts t ! j)) else page_refs t j)"
    using "2.IH" [folded t_def, OF t(1)] t(2) "2.prems"(2) by simp
  have "page_refs (reserve_range start (Suc n) s) =
       (\<lambda>j. if start \<le> j \<and> j < start + Suc n then Some (unat (pp_refcounts s ! j)) else page_refs s j)"
    using ih t refs by (auto simp: t_def [symmetric] fun_eq_iff)
  with ih t bal show ?case by (simp add: t_def [symmetric])
qed

text \<open>The memory map of the boot loader: whole pages, no address overflow, no overlap.\<close>

definition entry_pages :: "memmap_entry \<Rightarrow> nat set" where
  "entry_pages e =
    (if me_usable e then {unat (me_base e) div PAGE_SIZE ..< unat (me_base e) div PAGE_SIZE + unat (me_length e) div PAGE_SIZE} else {})"

definition entry_ok :: "memmap_entry \<Rightarrow> bool" where
  "entry_ok e \<longleftrightarrow> unat (me_base e) mod PAGE_SIZE = 0 \<and> unat (me_length e) mod PAGE_SIZE = 0
    \<and> unat (me_base e) + unat (me_length e) < 2 ^ 64"

definition memmap_ok :: "memmap_entry list \<Rightarrow> bool" where
  "memmap_ok es \<longleftrightarrow> (\<forall>e \<in> set es. entry_ok e) \<and> sorted_wrt (\<lambda>a b. entry_pages a \<inter> entry_pages b = {}) es"

lemma highest_addr_ge: "h \<le> highest_addr es h \<and> (\<forall>e \<in> set es. me_usable e \<longrightarrow> me_base e + me_length e \<le> highest_addr es h)"
proof (induction es arbitrary: h)
  case (Cons e es)
  define h' where "h' = (if me_usable e \<and> me_base e + me_length e > h then me_base e + me_length e else h)"
  have "h \<le> h'" "me_usable e \<Longrightarrow> me_base e + me_length e \<le> h'" by (auto simp: h'_def)
  with Cons.IH [of h'] show ?case by (auto simp: h'_def [symmetric] intro: order_trans)
qed simp

lemma entry_in_range:
  assumes "entry_ok e" "me_usable e" "e \<in> set es" "pages = unat (highest_addr es 0) div PAGE_SIZE"
  shows "unat (me_base e) div PAGE_SIZE + unat (me_length e) div PAGE_SIZE \<le> pages"
proof -
  have "me_base e + me_length e \<le> highest_addr es 0" using assms highest_addr_ge [of 0 es] by blast
  moreover have "unat (me_base e + me_length e) = unat (me_base e) + unat (me_length e)"
    using assms(1) by (simp add: entry_ok_def unat_word_ariths)
  ultimately have "unat (me_base e) + unat (me_length e) \<le> unat (highest_addr es 0)"
    by (simp add: word_le_nat_alt)
  then have "(unat (me_base e) + unat (me_length e)) div PAGE_SIZE \<le> pages"
    using assms(4) by (simp add: div_le_mono)
  moreover have "(unat (me_base e) + unat (me_length e)) div PAGE_SIZE
      = unat (me_base e) div PAGE_SIZE + unat (me_length e) div PAGE_SIZE"
    using assms(1) by (simp add: entry_ok_def div_add mod_0_imp_dvd)
  ultimately show ?thesis by simp
qed

lemma free_usable_spec:
  "pmm_sized s \<Longrightarrow> (\<And>e. e \<in> set es \<Longrightarrow> me_usable e \<Longrightarrow>
      unat (me_base e) div PAGE_SIZE + unat (me_length e) div PAGE_SIZE \<le> total_pages s) \<Longrightarrow>
    pmm_sized (free_usable es s) \<and> total_pages (free_usable es s) = total_pages s
    \<and> used_pages (free_usable es s) = used_pages s \<and> usable_memory (free_usable es s) = usable_memory s
    \<and> pp_refcounts (free_usable es s) = pp_refcounts s
    \<and> page_refs (free_usable es s) = (\<lambda>j. if j \<in> (\<Union>e \<in> set es. entry_pages e) then None else page_refs s j)"
proof (induction es arbitrary: s)
  case Nil
  then show ?case by simp
next
  case (Cons e es)
  define t where "t = (if me_usable e
       then clear_range (unat (me_base e) div PAGE_SIZE) (unat (me_length e) div PAGE_SIZE) s else s)"
  have t: "pmm_sized t \<and> total_pages t = total_pages s \<and> used_pages t = used_pages s \<and> usable_memory t = usable_memory s
    \<and> pp_refcounts t = pp_refcounts s \<and> page_refs t = (\<lambda>j. if j \<in> entry_pages e then None else page_refs s j)"
  proof (cases "me_usable e")
    case True
    then show ?thesis
      using clear_range_spec [OF Cons.prems(1) Cons.prems(2) [of e]] by (simp add: t_def entry_pages_def)
  qed (use Cons.prems in \<open>simp add: t_def entry_pages_def\<close>)
  have ih: "pmm_sized (free_usable es t) \<and> total_pages (free_usable es t) = total_pages t
    \<and> used_pages (free_usable es t) = used_pages t \<and> usable_memory (free_usable es t) = usable_memory t
    \<and> pp_refcounts (free_usable es t) = pp_refcounts t
    \<and> page_refs (free_usable es t) = (\<lambda>j. if j \<in> (\<Union>e \<in> set es. entry_pages e) then None else page_refs t j)"
    by (rule Cons.IH) (use t Cons.prems in auto)
  have e: "free_usable (e # es) s = free_usable es t" by (simp add: t_def)
  have "page_refs (free_usable es t) = (\<lambda>j. if j \<in> (\<Union>e \<in> set (e # es). entry_pages e) then None else page_refs s j)"
    using ih t by (auto simp: fun_eq_iff)
  with ih t show ?case unfolding e by simp
qed

lemma card_entry_pages: "card (entry_pages e) = (if me_usable e then unat (me_length e) div PAGE_SIZE else 0)"
  by (simp add: entry_pages_def)

lemma card_all_pages:
  "sorted_wrt (\<lambda>a b. entry_pages a \<inter> entry_pages b = {}) es \<Longrightarrow>
    card (\<Union>e \<in> set es. entry_pages e) = sum_list (map (\<lambda>e. card (entry_pages e)) es)"
proof (induction es)
  case (Cons e es)
  have fin: "finite (entry_pages a)" for a by (simp add: entry_pages_def)
  have "entry_pages e \<inter> (\<Union>a \<in> set es. entry_pages a) = {}" using Cons.prems by auto
  then have "card (entry_pages e \<union> (\<Union>a \<in> set es. entry_pages a)) = card (entry_pages e) + card (\<Union>a \<in> set es. entry_pages a)"
    using fin by (intro card_Un_disjoint) auto
  with Cons show ?case by simp
qed simp

lemma usable_sum:
  "(\<forall>e \<in> set es. entry_ok e) \<Longrightarrow>
    sum_list (map (\<lambda>e. if me_usable e then me_length e else 0) es)
    = of_nat PAGE_SIZE * (of_nat (sum_list (map (\<lambda>e. card (entry_pages e)) es)) :: u64)"
proof (induction es)
  case (Cons e es)
  have "unat (me_length e) = PAGE_SIZE * (unat (me_length e) div PAGE_SIZE)"
    using Cons.prems by (auto simp: entry_ok_def)
  then have "(of_nat (unat (me_length e)) :: u64) = of_nat (PAGE_SIZE * (unat (me_length e) div PAGE_SIZE))"
    by (rule arg_cong)
  then have "me_length e = of_nat PAGE_SIZE * of_nat (unat (me_length e) div PAGE_SIZE)" by simp
  with Cons show ?case by (simp add: card_entry_pages distrib_left)
qed simp

definition boot_meta :: "memmap_entry list \<Rightarrow> nat set" where
  "boot_meta es =
    (let pages = unat (highest_addr es 0) div PAGE_SIZE
     in case find (\<lambda>e. me_usable e \<and> unat (me_length e) \<ge> meta_size pages) es of
          None \<Rightarrow> {}
        | Some e \<Rightarrow> {unat (me_base e) div PAGE_SIZE ..< unat (me_base e) div PAGE_SIZE + (meta_size pages + PAGE_SIZE - 1) div PAGE_SIZE})"

lemma replicate_FF_bit: "i < 8 * n \<Longrightarrow> (replicate n (0xFF :: u8) ! (i div 8)) AND push_bit (i mod 8) 1 \<noteq> 0"
proof -
  assume "i < 8 * n"
  then have "i div 8 < n" by linarith
  moreover have "(0xFF :: u8) AND push_bit (i mod 8) 1 \<noteq> 0"
  proof -
    have "(0xFF :: u8) = - 1" by simp
    then have "bit (0xFF :: u8) (i mod 8)" by (simp only: bit_minus_1_iff) simp
    then show ?thesis using and_exp_eq_0_iff_not_bit [of "0xFF :: u8" "i mod 8"] by (simp add: push_bit_eq_mult)
  qed
  ultimately show ?thesis by simp
qed

lemma pmm_init_spec:
  assumes ok: "memmap_ok es" and init: "pmm_init es = Some s"
  shows "pmm_sized s \<and> usable_memory s = of_nat PAGE_SIZE * balance s
    \<and> free_set s = (\<Union>e \<in> set es. entry_pages e) - boot_meta es"
proof -
  define pages where "pages = unat (highest_addr es 0) div PAGE_SIZE"
  define s0 :: pmm_state where "s0 = \<lparr>bitmap = replicate ((pages + 7) div 8) 0xFF, pp_refcounts = replicate pages 0,
      total_pages = pages, used_pages = 0,
      usable_memory = sum_list (map (\<lambda>e. if me_usable e then me_length e else 0) es), last_used_index = 0,
      g_debug_pmm_fail_nth = 0\<rparr>"
  define meta_pages where "meta_pages = (meta_size pages + PAGE_SIZE - 1) div PAGE_SIZE"
  obtain e where e: "find (\<lambda>e. me_usable e \<and> unat (me_length e) \<ge> meta_size pages) es = Some e"
    and s: "s = reserve_range (unat (me_base e) div PAGE_SIZE) meta_pages (free_usable es s0)"
    using init unfolding pmm_init_def Let_def pages_def [symmetric] s0_def [symmetric] meta_pages_def [symmetric]
    by (auto split: option.splits)
  have ein: "e \<in> set es" "me_usable e" "meta_size pages \<le> unat (me_length e)"
    using e by (auto simp: find_Some_iff)
  have ok_e: "entry_ok a" if "a \<in> set es" for a using ok that by (simp add: memmap_ok_def)
  have rng: "unat (me_base a) div PAGE_SIZE + unat (me_length a) div PAGE_SIZE \<le> pages"
    if "a \<in> set es" "me_usable a" for a
    using entry_in_range [OF ok_e [OF that(1)] that(2,1) pages_def] .
  have "pages * PAGE_SIZE \<le> unat (highest_addr es 0)" by (simp add: pages_def)
  then have sz0: "pmm_sized s0"
    using unsigned_less [where 'a = nat and w = "highest_addr es 0"] by (simp add: pmm_sized_def s0_def)
  have bits: "page_refs s0 j = (if j < pages then Some 0 else None)" for j
    using replicate_FF_bit [of j "(pages + 7) div 8"]
    by (simp add: page_refs_def bitmap_test_bit_def s0_def Let_def)
  define t where "t = free_usable es s0"
  have t: "pmm_sized t \<and> total_pages t = pages \<and> used_pages t = 0 \<and> usable_memory t = usable_memory s0
    \<and> page_refs t = (\<lambda>j. if j \<in> (\<Union>e \<in> set es. entry_pages e) then None else page_refs s0 j)"
    using free_usable_spec [OF sz0, of es] rng by (simp add: t_def s0_def)
  have sub: "(\<Union>e \<in> set es. entry_pages e) \<subseteq> {..<pages}"
    using rng by (auto simp: entry_pages_def split: if_splits) (meson order_less_le_trans)
  have free_t: "free_set t = (\<Union>e \<in> set es. entry_pages e)"
    using t sub by (auto simp: free_set_def bits)
  have bal_t: "usable_memory t = of_nat PAGE_SIZE * balance t"
    using t usable_sum [of es] card_all_pages [of es] ok
    by (simp add: balance_def free_count_card free_t memmap_ok_def s0_def)
  have meta_le: "meta_pages \<le> unat (me_length e) div PAGE_SIZE"
    using ein(3) ok_e [OF ein(1)] by (auto simp: meta_pages_def entry_ok_def)
  have meta_in: "{unat (me_base e) div PAGE_SIZE ..< unat (me_base e) div PAGE_SIZE + meta_pages} \<subseteq> entry_pages e"
    using meta_le ein(2) by (auto simp: entry_pages_def)
  have none: "page_refs t j = None"
    if "unat (me_base e) div PAGE_SIZE \<le> j" "j < unat (me_base e) div PAGE_SIZE + meta_pages" for j
  proof -
    have "j \<in> (\<Union>e \<in> set es. entry_pages e)" using that meta_in ein(1) by auto
    then show ?thesis using t by simp
  qed
  have le: "unat (me_base e) div PAGE_SIZE + meta_pages \<le> total_pages t"
    using rng [OF ein(1,2)] meta_le t by simp
  note r = reserve_range_spec [OF conjunct1 [OF t] le none]
  have meta: "boot_meta es = {unat (me_base e) div PAGE_SIZE ..< unat (me_base e) div PAGE_SIZE + meta_pages}"
    using e by (simp add: boot_meta_def pages_def [symmetric] meta_pages_def)
  have s': "s = reserve_range (unat (me_base e) div PAGE_SIZE) meta_pages t" using s by (simp add: t_def)
  have "free_set s = free_set t - boot_meta es" using r by (auto simp: s' free_set_def meta)
  then show ?thesis using r bal_t t free_t by (simp add: s')
qed


definition demo_memmap :: "memmap_entry list" where
  "demo_memmap = [\<lparr>me_usable = False, me_base = 0, me_length = 0x1000\<rparr>,
    \<lparr>me_usable = True, me_base = 0x1000, me_length = 0x8000\<rparr>, \<lparr>me_usable = True, me_base = 0xA000, me_length = 0x2000\<rparr>]"

definition demo_pmm :: pmm_state where
  "demo_pmm = \<lparr>bitmap = [0x03, 0xF2], pp_refcounts = replicate 12 0, total_pages = 12, used_pages = 1,
    usable_memory = 0xA000, last_used_index = 0, g_debug_pmm_fail_nth = 0\<rparr>"

lemma demo_memmap_ok: "memmap_ok demo_memmap"
  by (simp add: memmap_ok_def demo_memmap_def entry_ok_def entry_pages_def)

lemma demo_pmm_init: "pmm_init demo_memmap = Some demo_pmm"
  by code_simp


text \<open>
  C23: a page that \<open>pmm_alloc_page\<close> handed out is not handed out again by any later sequence of
  allocations, references and releases in which its holders keep at least one reference (and no
  more than the 255 the counter can hold), and its counter is the number of references they hold.
\<close>

theorem pmm_page_exclusive:
  assumes "pmm_sized s" "frame_alloc s = (Some f, s1)" "held 255 f 1 ops = Some m"
    and "pool_run frame_alloc frame_share frame_release ops s1 = (rs, s2)"
  shows "Some f \<notin> set rs \<and> unat (pmm_page_get_refcount s2 (page_addr f)) = m"
proof -
  note a = frame_alloc_Some [OF assms(1,2)]
  have "frame_refs s1 f = Some 1" using a by simp
  with pmm.held_frame_kept [OF _ this assms(3,4)] a
  have k: "Some f \<notin> set rs" "frame_refs s2 f = Some m" "pmm_sized s2" by auto
  then have "f < total_pages s2" "f \<noteq> 0" "unat (pp_refcounts s2 ! f) = m"
    by (auto simp: frame_refs_def page_refs_def split: if_splits)
  then show ?thesis
    using k page_addr_ok [OF k(3), of f] by (simp add: pmm_page_get_refcount_def)
qed

definition demo_frame_ops :: "frame_op list" where
  "demo_frame_ops = [FAlloc, FShare 2, FAlloc, FRelease 2, FAlloc]"

lemma pmm_page_exclusive_witness:
  "frame_alloc demo_pmm = (Some 2, snd (frame_alloc demo_pmm)) \<and> held 255 2 1 demo_frame_ops = Some 1
   \<and> Some 2 \<notin> set (fst (pool_run frame_alloc frame_share frame_release demo_frame_ops (snd (frame_alloc demo_pmm))))"
proof -
  have a: "frame_alloc demo_pmm = (Some 2, snd (frame_alloc demo_pmm))" by code_simp
  have h: "held 255 2 1 demo_frame_ops = Some 1" by code_simp
  have sz: "pmm_sized demo_pmm" by (simp add: pmm_sized_def demo_pmm_def)
  from pmm_page_exclusive [OF sz a h surjective_pairing] a h show ?thesis by simp
qed

text \<open>
  C24: a request for several contiguous pages takes the first run of free pages that is long enough
  and gives each of its pages one reference; it fails, changing no page, exactly when there is no
  such run or the fault injection fires.
\<close>

theorem pmm_alloc_pages_first_fit:
  assumes "pmm_sized s" "2 \<le> n"
  shows "case find (free_run (\<lambda>i. page_refs s i \<noteq> None) n) [0..<Suc (total_pages s) - n] of
      Some start \<Rightarrow> g_debug_pmm_fail_nth s \<noteq> 1 \<longrightarrow>
        fst (pmm_alloc_pages n s) = page_addr start
        \<and> page_refs (snd (pmm_alloc_pages n s)) = (\<lambda>j. if start \<le> j \<and> j < start + n then Some 1 else page_refs s j)
    | None \<Rightarrow> fst (pmm_alloc_pages n s) = NULL \<and> page_refs (snd (pmm_alloc_pages n s)) = page_refs s"
proof -
  obtain p s' where c: "pmm_alloc_pages n s = (p, s')" by fastforce
  let ?R = "free_run (\<lambda>i. page_refs s i \<noteq> None) n"
  from assms c show ?thesis
  proof (cases rule: alloc_pages_cases)
    case (run start)
    have "find ?R [0..<Suc (total_pages s) - n] = Some start"
      unfolding find_Some_iff using run by (intro exI [of _ start]) auto
    with run c show ?thesis by simp
  next
    case none
    show ?thesis
    proof (cases "find ?R [0..<Suc (total_pages s) - n]")
      case None
      with none c show ?thesis by simp
    next
      case (Some start)
      then have "start + n \<le> total_pages s" "?R start" by (auto simp: find_Some_iff)
      with none Some c show ?thesis by auto
    qed
  qed
qed

lemma pmm_alloc_pages_first_fit_witness: "fst (pmm_alloc_pages 3 (snd (pmm_alloc_pages 2 demo_pmm))) = 0x4000"
proof -
  define s where "s = snd (pmm_alloc_pages 2 demo_pmm)"
  have s: "s = \<lparr>bitmap = [0x0F, 0xF2], pp_refcounts = [0, 0, 1, 1, 0, 0, 0, 0, 0, 0, 0, 0], total_pages = 12, used_pages = 3,
    usable_memory = 0xA000, last_used_index = 0, g_debug_pmm_fail_nth = 0\<rparr>"
    unfolding s_def by code_simp
  have sz: "pmm_sized s" by (simp add: pmm_sized_def s)
  let ?R = "free_run (\<lambda>i. page_refs s i \<noteq> None) 3"
  have used: "page_refs s 2 \<noteq> None" "page_refs s 3 \<noteq> None" "page_refs s 4 = None" "page_refs s 5 = None" "page_refs s 6 = None"
    unfolding s by code_simp+
  have no: "\<not> ?R b" if "b \<le> j" "j < b + 3" "page_refs s j \<noteq> None" for b j
    using that unfolding free_run_def by blast
  have r: "\<not> ?R 0" "\<not> ?R 1" "\<not> ?R 2" "\<not> ?R 3"
    using no [of 0 2] no [of 1 3] no [of 2 3] no [of 3 3] used(1,2) by simp_all
  have "?R 4"
    unfolding free_run_def
  proof (intro allI impI)
    fix j :: nat
    assume "4 \<le> j \<and> j < 4 + 3"
    then have "j = 4 \<or> j = 5 \<or> j = 6" by linarith
    then show "\<not> page_refs s j \<noteq> None" using used(3-5) by auto
  qed
  with r have "find ?R [0, 1, 2, 3, 4, 5, 6, 7, 8, 9] = Some 4" by (simp only: find.simps if_False if_True)
  moreover have "[0..<Suc (total_pages s) - 3] = [0, 1, 2, 3, 4, 5, 6, 7, 8, 9]" by (simp add: s upt_rec)
  ultimately have "fst (pmm_alloc_pages 3 s) = page_addr 4"
    using pmm_alloc_pages_first_fit [OF sz, of 3] by (simp add: s)
  then show ?thesis by (simp add: s_def page_addr_def)
qed

end
