(* ===== verification/Vmm.thy ===== *)
theory Vmm
  imports Pmm
begin

text \<open>
  The page tables (arch/x86_64/mm/vmm.c): the four-level walk, mapping, unmapping and protecting a
  page, the search for unused addresses, and the creation and destruction of address spaces. Physical
  memory is a function from frames to their 512 words; the higher-half direct map is the identity on
  it. TLB invalidations have no effect in the model. The theory shows that the tables implement a map
  from virtual pages to entries: each operation changes the entry of its own page and no other, in
  spite of the tables it allocates on the way.
\<close>

section \<open>State\<close>

record mm_state = pmm_state +
  frames :: "u64 \<Rightarrow> nat \<Rightarrow> u64"
  address_space_pool :: "u64 list"
  next_address_space_idx :: nat
  kernel_space :: u64

definition PTE_PRESENT :: u64 where "PTE_PRESENT = 1"
definition PTE_WRITABLE :: u64 where "PTE_WRITABLE = 2"
definition PTE_USER :: u64 where "PTE_USER = 4"
definition PTE_LARGEPAGE :: u64 where "PTE_LARGEPAGE = 0x80"
definition PTE_NX :: u64 where "PTE_NX = 0x8000000000000000"
definition PAGE_MASK :: u64 where "PAGE_MASK = 0xFFFFFFFFFFFFF000"
abbreviation MAX_ADDRESS_SPACES :: nat where "MAX_ADDRESS_SPACES \<equiv> 32"

definition pml4_index :: "u64 \<Rightarrow> nat" where "pml4_index virt = unat (drop_bit 39 virt AND 0x1FF)"
definition pdpt_index :: "u64 \<Rightarrow> nat" where "pdpt_index virt = unat (drop_bit 30 virt AND 0x1FF)"
definition pd_index :: "u64 \<Rightarrow> nat" where "pd_index virt = unat (drop_bit 21 virt AND 0x1FF)"
definition pt_index :: "u64 \<Rightarrow> nat" where "pt_index virt = unat (drop_bit 12 virt AND 0x1FF)"

definition put_word :: "u64 \<Rightarrow> nat \<Rightarrow> u64 \<Rightarrow> 'a mm_state_scheme \<Rightarrow> 'a mm_state_scheme" where
  "put_word f i w m = m\<lparr>frames := (frames m)(f := (frames m f)(i := w))\<rparr>"

definition zero_frame :: "u64 \<Rightarrow> 'a mm_state_scheme \<Rightarrow> 'a mm_state_scheme" where
  "zero_frame f m = m\<lparr>frames := (frames m)(f := (\<lambda>i. 0))\<rparr>"

definition copy_frame :: "u64 \<Rightarrow> u64 \<Rightarrow> 'a mm_state_scheme \<Rightarrow> 'a mm_state_scheme" where
  "copy_frame dst src m = m\<lparr>frames := (frames m)(dst := frames m src)\<rparr>"

section \<open>Walking\<close>

text \<open>The slot of a page: the frame of its page table and its index there.\<close>

definition vmm_walk_pte :: "'a mm_state_scheme \<Rightarrow> u64 \<Rightarrow> u64 \<Rightarrow> (u64 \<times> nat) option" where
  "vmm_walk_pte m cr3 virt =
    (let e = frames m cr3 (pml4_index virt) in
     if \<not> has_flag e PTE_PRESENT then None
     else
      let e = frames m (e AND PAGE_MASK) (pdpt_index virt) in
      if \<not> has_flag e PTE_PRESENT then None
      else
       let e = frames m (e AND PAGE_MASK) (pd_index virt) in
       if \<not> has_flag e PTE_PRESENT then None
       else Some (e AND PAGE_MASK, pt_index virt))"

definition vmm_get_pte :: "'a mm_state_scheme \<Rightarrow> u64 \<Rightarrow> u64 \<Rightarrow> u64" where
  "vmm_get_pte m cr3 virt =
    (case vmm_walk_pte m cr3 virt of
      None \<Rightarrow> 0
    | Some (pt, i) \<Rightarrow> if has_flag (frames m pt i) PTE_PRESENT then frames m pt i else 0)"

definition vmm_get_physical_address :: "'a mm_state_scheme \<Rightarrow> u64 \<Rightarrow> u64 \<Rightarrow> u64" where
  "vmm_get_physical_address m cr3 virt =
    (case vmm_walk_pte m cr3 virt of
      None \<Rightarrow> 0
    | Some (pt, i) \<Rightarrow>
       if has_flag (frames m pt i) PTE_PRESENT then (frames m pt i AND PAGE_MASK) OR (virt AND 0xFFF) else 0)"

section \<open>Changing a mapping\<close>

text \<open>One level of the descent of \<^verbatim>\<open>vmm_map_page_by_cr3\<close>: allocate the next table where it is absent.\<close>

definition ensure_table :: "u64 \<Rightarrow> nat \<Rightarrow> 'a mm_state_scheme \<Rightarrow> bool \<times> 'a mm_state_scheme" where
  "ensure_table t i m =
    (if has_flag (frames m t i) PTE_PRESENT then (True, m)
     else
      let (p, m) = pmm_alloc_page m in
      if p = NULL then (False, m)
      else (True, put_word t i (p OR PTE_PRESENT OR PTE_WRITABLE OR PTE_USER) (zero_frame p m)))"

definition vmm_map_page_by_cr3 :: "u64 \<Rightarrow> u64 \<Rightarrow> u64 \<Rightarrow> u64 \<Rightarrow> 'a mm_state_scheme \<Rightarrow> bool \<times> 'a mm_state_scheme" where
  "vmm_map_page_by_cr3 cr3 virt phys flags m =
    (let (ok, m) = ensure_table cr3 (pml4_index virt) m in
     if \<not> ok then (False, m)
     else
      let pdpt = frames m cr3 (pml4_index virt) AND PAGE_MASK; (ok, m) = ensure_table pdpt (pdpt_index virt) m in
      if \<not> ok then (False, m)
      else
       let pd = frames m pdpt (pdpt_index virt) AND PAGE_MASK; (ok, m) = ensure_table pd (pd_index virt) m in
       if \<not> ok then (False, m)
       else
        let pt = frames m pd (pd_index virt) AND PAGE_MASK
        in (True, put_word pt (pt_index virt) (phys OR flags) m))"

text \<open>An address space is named by the frame of its top-level table, 0 for none.\<close>

definition vmm_map_page :: "u64 \<Rightarrow> u64 \<Rightarrow> u64 \<Rightarrow> u64 \<Rightarrow> 'a mm_state_scheme \<Rightarrow> bool \<times> 'a mm_state_scheme" where
  "vmm_map_page top_level virt phys flags m =
    (if top_level = NULL then (False, m) else vmm_map_page_by_cr3 top_level virt phys flags m)"

fun map_pages :: "u64 \<Rightarrow> u64 \<Rightarrow> u64 \<Rightarrow> nat \<Rightarrow> u64 \<Rightarrow> 'a mm_state_scheme \<Rightarrow> bool \<times> 'a mm_state_scheme" where
  "map_pages top_level virt phys 0 flags m = (True, m)"
| "map_pages top_level virt phys (Suc n) flags m =
    (let (ok, m) = vmm_map_page top_level virt phys flags m in
     if ok then map_pages top_level (virt + 4096) (phys + 4096) n flags m else (False, m))"

definition vmm_map_range :: "u64 \<Rightarrow> u64 \<Rightarrow> u64 \<Rightarrow> u64 \<Rightarrow> u64 \<Rightarrow> 'a mm_state_scheme \<Rightarrow> bool \<times> 'a mm_state_scheme" where
  "vmm_map_range top_level virt_start phys_start size_bytes flags m =
    (let virt_aligned = virt_start AND PAGE_MASK;
         phys_aligned = phys_start AND PAGE_MASK;
         size_aligned = (size_bytes + (virt_start - virt_aligned) + 4096 - 1) AND PAGE_MASK
     in map_pages top_level virt_aligned phys_aligned (unat size_aligned div PAGE_SIZE) flags m)"

definition vmm_unmap_page_by_cr3 :: "u64 \<Rightarrow> u64 \<Rightarrow> 'a mm_state_scheme \<Rightarrow> 'a mm_state_scheme" where
  "vmm_unmap_page_by_cr3 cr3 virt m =
    (case vmm_walk_pte m cr3 virt of None \<Rightarrow> m | Some (pt, i) \<Rightarrow> put_word pt i 0 m)"

definition vmm_protect_page_by_cr3 :: "u64 \<Rightarrow> u64 \<Rightarrow> u64 \<Rightarrow> 'a mm_state_scheme \<Rightarrow> bool \<times> 'a mm_state_scheme" where
  "vmm_protect_page_by_cr3 cr3 virt new_flags m =
    (case vmm_walk_pte m cr3 virt of
      None \<Rightarrow> (False, m)
    | Some (pt, i) \<Rightarrow>
       let pte = frames m pt i in
       if \<not> has_flag pte PTE_PRESENT then (False, m)
       else (True, put_word pt i ((pte AND PAGE_MASK) OR (new_flags AND NOT PAGE_MASK) OR PTE_PRESENT) m))"

section \<open>Address spaces\<close>

definition VMM_USER_SEARCH_BOTTOM :: u64 where "VMM_USER_SEARCH_BOTTOM = 0x0000100000000000"
definition VMM_USER_SEARCH_TOP :: u64 where "VMM_USER_SEARCH_TOP = 0x0000500000000000"

partial_function (option) reserve_loop :: "'a mm_state_scheme \<Rightarrow> u64 \<Rightarrow> nat \<Rightarrow> u64 \<Rightarrow> u64 \<Rightarrow> u64 option" where
  "reserve_loop m cr3 npages stop cur =
    (if cur \<le> stop then
       case first_from (\<lambda>p. vmm_get_pte m cr3 (cur + of_nat p * 4096) \<noteq> 0) 0 npages of
         None \<Rightarrow> Some cur
       | Some p \<Rightarrow> reserve_loop m cr3 npages stop (cur + of_nat p * 4096 + 4096)
     else Some 0)"

declare reserve_loop.simps [code]

definition vmm_reserve_va_by_cr3 :: "'a mm_state_scheme \<Rightarrow> u64 \<Rightarrow> u64 \<Rightarrow> u64 option" where
  "vmm_reserve_va_by_cr3 m cr3 len =
    (if len = 0 \<or> len AND 0xFFF \<noteq> 0 then Some 0
     else reserve_loop m cr3 (unat len div PAGE_SIZE) (VMM_USER_SEARCH_TOP - len) VMM_USER_SEARCH_BOTTOM)"

fun copy_entries :: "u64 \<Rightarrow> u64 \<Rightarrow> nat list \<Rightarrow> 'a mm_state_scheme \<Rightarrow> 'a mm_state_scheme" where
  "copy_entries dst src [] m = m"
| "copy_entries dst src (i # is) m = copy_entries dst src is (put_word dst i (frames m src i) m)"

text \<open>The result is the index in the pool.\<close>

definition vmm_create_address_space :: "'a mm_state_scheme \<Rightarrow> nat option \<times> 'a mm_state_scheme" where
  "vmm_create_address_space m =
    (let free = first_from (\<lambda>i. address_space_pool m ! i = NULL) 0 MAX_ADDRESS_SPACES in
     if free = None \<and> next_address_space_idx m \<ge> MAX_ADDRESS_SPACES then (None, m)
     else
      let slot = (case free of Some i \<Rightarrow> i | None \<Rightarrow> next_address_space_idx m);
          m = (if free = None then m\<lparr>next_address_space_idx := next_address_space_idx m + 1\<rparr> else m);
          (p, m) = pmm_alloc_page m
      in if p = NULL then (None, m)
         else
          let m = m\<lparr>address_space_pool := (address_space_pool m)[slot := p]\<rparr>
          in (Some slot, copy_entries p (kernel_space m) [256..<512] (zero_frame p m)))"

definition free_pt :: "u64 \<Rightarrow> 'a mm_state_scheme \<Rightarrow> 'a mm_state_scheme" where
  "free_pt pt m =
    fold (\<lambda>l m. if has_flag (frames m pt l) PTE_PRESENT then pmm_free_page (frames m pt l AND PAGE_MASK) m else m) [0..<512] m"

definition free_pd :: "u64 \<Rightarrow> 'a mm_state_scheme \<Rightarrow> 'a mm_state_scheme" where
  "free_pd pd m =
    fold (\<lambda>k m. if has_flag (frames m pd k) PTE_PRESENT \<and> \<not> has_flag (frames m pd k) PTE_LARGEPAGE
               then let pt = frames m pd k AND PAGE_MASK in pmm_free_page pt (free_pt pt m) else m) [0..<512] m"

definition free_pdpt :: "u64 \<Rightarrow> 'a mm_state_scheme \<Rightarrow> 'a mm_state_scheme" where
  "free_pdpt pdpt m =
    fold (\<lambda>j m. if has_flag (frames m pdpt j) PTE_PRESENT \<and> \<not> has_flag (frames m pdpt j) PTE_LARGEPAGE
               then let pd = frames m pdpt j AND PAGE_MASK in pmm_free_page pd (free_pd pd m) else m) [0..<512] m"

definition vmm_destroy_address_space :: "nat \<Rightarrow> 'a mm_state_scheme \<Rightarrow> 'a mm_state_scheme" where
  "vmm_destroy_address_space slot m =
    (let pml4 = address_space_pool m ! slot in
     if pml4 = NULL then m
     else
      let m = fold (\<lambda>i m. if has_flag (frames m pml4 i) PTE_PRESENT
                 then let pdpt = frames m pml4 i AND PAGE_MASK in pmm_free_page pdpt (free_pdpt pdpt m) else m) [0..<256] m;
          m = pmm_free_page pml4 m
      in m\<lparr>address_space_pool := (address_space_pool m)[slot := NULL]\<rparr>)"

definition vmm_destroy_address_space_by_cr3 :: "u64 \<Rightarrow> 'a mm_state_scheme \<Rightarrow> 'a mm_state_scheme" where
  "vmm_destroy_address_space_by_cr3 cr3 m =
    (case first_from (\<lambda>i. address_space_pool m ! i \<noteq> NULL \<and> address_space_pool m ! i = cr3) 0 MAX_ADDRESS_SPACES of
      None \<Rightarrow> m
    | Some i \<Rightarrow> vmm_destroy_address_space i m)"

text \<open>\<open>vmm_dispatch_pf\<close> asks the snapshot handler first; a handler answers 0 when it resolved the fault.\<close>

definition vmm_dispatch_pf ::
  "(u64 \<Rightarrow> u64 \<Rightarrow> 's \<Rightarrow> int \<times> 's) option \<Rightarrow> (u64 \<Rightarrow> u64 \<Rightarrow> 's \<Rightarrow> int \<times> 's) option \<Rightarrow> u64 \<Rightarrow> u64 \<Rightarrow> 's \<Rightarrow> int \<times> 's" where
  "vmm_dispatch_pf g_snap_pf_handler g_pf_handler fault_va error_code s =
    (let (rc, s) = (case g_snap_pf_handler of None \<Rightarrow> (- 1, s) | Some snap \<Rightarrow> snap fault_va error_code s) in
     if g_snap_pf_handler \<noteq> None \<and> rc = 0 then (0, s)
     else case g_pf_handler of None \<Rightarrow> (- 1, s) | Some fn \<Rightarrow> fn fault_va error_code s)"

section \<open>Bits of an entry\<close>

lemma PAGE_MASK_bits: "bit PAGE_MASK n \<longleftrightarrow> 12 \<le> n \<and> n < 64"
proof -
  have e: "PAGE_MASK = NOT (mask 12)" by (simp add: PAGE_MASK_def mask_eq_exp_minus_1)
  show ?thesis unfolding e by (auto simp: bit_not_iff bit_mask_iff)
qed

lemma present_bit: "has_flag e PTE_PRESENT \<longleftrightarrow> bit e 0"
  by (simp add: has_flag_def PTE_PRESENT_def and_one_eq odd_iff_mod_2_eq_one bit_0)

definition aligned :: "u64 \<Rightarrow> bool" where
  "aligned f \<longleftrightarrow> f AND PAGE_MASK = f"

lemma aligned_bits: "aligned f \<longleftrightarrow> (\<forall>n < 12. \<not> bit f n)"
  unfolding aligned_def
proof
  assume "f AND PAGE_MASK = f"
  then show "\<forall>n < 12. \<not> bit f n" by (metis PAGE_MASK_bits bit_and_iff not_le)
next
  assume *: "\<forall>n < 12. \<not> bit f n"
  show "f AND PAGE_MASK = f"
  proof (rule bit_word_eqI)
    fix n
    assume "n < LENGTH(64)"
    then show "bit (f AND PAGE_MASK) n \<longleftrightarrow> bit f n"
      using * by (cases "n < 12") (simp_all add: bit_and_iff PAGE_MASK_bits)
  qed
qed

lemma page_addr_aligned: "aligned (page_addr i)"
proof -
  have "page_addr i = push_bit 12 (of_nat i)"
    by (simp add: page_addr_def push_bit_eq_mult mult.commute)
  then show ?thesis by (simp add: aligned_bits bit_push_bit_iff)
qed

lemma table_entry:
  "aligned p \<Longrightarrow> (p OR PTE_PRESENT OR PTE_WRITABLE OR PTE_USER) AND PAGE_MASK = p"
proof -
  assume "aligned p"
  then have p: "p AND PAGE_MASK = p" by (simp add: aligned_def)
  have "(PTE_PRESENT OR PTE_WRITABLE OR PTE_USER) AND PAGE_MASK = 0"
    by (simp add: PTE_PRESENT_def PTE_WRITABLE_def PTE_USER_def PAGE_MASK_def)
  then have "PTE_PRESENT AND PAGE_MASK = 0" "PTE_WRITABLE AND PAGE_MASK = 0" "PTE_USER AND PAGE_MASK = 0"
    by (simp_all add: PTE_PRESENT_def PTE_WRITABLE_def PTE_USER_def PAGE_MASK_def)
  with p show ?thesis by (simp add: bit.conj_disj_distrib2)
qed

lemma table_entry_present: "has_flag (p OR PTE_PRESENT OR PTE_WRITABLE OR PTE_USER) PTE_PRESENT"
  unfolding present_bit by (simp add: bit_or_iff PTE_PRESENT_def bit_1_iff)

lemma zero_not_present [simp]: "\<not> has_flag 0 PTE_PRESENT"
  by (simp add: has_flag_def)

section \<open>Tables as paths\<close>

text \<open>The table reached from a frame by following the given indices.\<close>

fun tabs :: "'a mm_state_scheme \<Rightarrow> u64 \<Rightarrow> nat list \<Rightarrow> u64 option" where
  "tabs m f [] = Some f"
| "tabs m f (i # is) = (if has_flag (frames m f i) PTE_PRESENT then tabs m (frames m f i AND PAGE_MASK) is else None)"

definition path3 :: "u64 \<Rightarrow> nat list" where
  "path3 virt = [pml4_index virt, pdpt_index virt, pd_index virt]"

lemma walk_tabs: "vmm_walk_pte m cr3 virt = map_option (\<lambda>t. (t, pt_index virt)) (tabs m cr3 (path3 virt))"
  by (simp add: vmm_walk_pte_def path3_def Let_def)

lemma tabs_append: "tabs m f (p @ q) = (case tabs m f p of None \<Rightarrow> None | Some t \<Rightarrow> tabs m t q)"
  by (induction p arbitrary: f) auto

definition ok_path :: "nat list \<Rightarrow> bool" where
  "ok_path p \<longleftrightarrow> length p \<le> 3 \<and> set p \<subseteq> {..<512}"

lemma index_lt: "unat (w AND 0x1FF) < 512" for w :: u64
proof -
  have "w AND 0x1FF \<le> (0x1FF :: u64)" by (rule word_and_le1)
  then have "unat (w AND 0x1FF) \<le> unat (0x1FF :: u64)" by (simp only: word_le_nat_alt)
  then show ?thesis by simp
qed

lemma path3_ok: "ok_path (path3 v)" "length (path3 v) = 3" "pt_index v < 512"
  using index_lt by (auto simp: ok_path_def path3_def pml4_index_def pdpt_index_def pd_index_def pt_index_def)

lemma ok_path_butlast: "ok_path (p @ q) \<Longrightarrow> ok_path p"
  by (simp add: ok_path_def)

definition live_frame :: "'a mm_state_scheme \<Rightarrow> u64 \<Rightarrow> bool" where
  "live_frame m f \<longleftrightarrow> (\<exists>i. i < total_pages m \<and> i \<noteq> 0 \<and> f = page_addr i \<and> page_refs m i \<noteq> None)"

text \<open>
  The tables of an address space form a tree of frames that are in use: no frame is reached by two
  paths.
\<close>

definition tables_wf :: "'a mm_state_scheme \<Rightarrow> u64 \<Rightarrow> bool" where
  "tables_wf m cr3 \<longleftrightarrow> pmm_sized m
    \<and> (\<forall>p f. ok_path p \<and> tabs m cr3 p = Some f \<longrightarrow> live_frame m f)
    \<and> (\<forall>p q f. ok_path p \<and> ok_path q \<and> tabs m cr3 p = Some f \<and> tabs m cr3 q = Some f \<longrightarrow> p = q)"

lemma tables_inj:
  "tables_wf m cr3 \<Longrightarrow> ok_path p \<Longrightarrow> ok_path q \<Longrightarrow> tabs m cr3 p = Some f \<Longrightarrow> tabs m cr3 q = Some f \<Longrightarrow> p = q"
  unfolding tables_wf_def by blast

lemma tables_live: "tables_wf m cr3 \<Longrightarrow> ok_path p \<Longrightarrow> tabs m cr3 p = Some f \<Longrightarrow> live_frame m f"
  unfolding tables_wf_def by blast

definition table_frame :: "'a mm_state_scheme \<Rightarrow> u64 \<Rightarrow> u64 \<Rightarrow> bool" where
  "table_frame m cr3 f \<longleftrightarrow> (\<exists>p. ok_path p \<and> tabs m cr3 p = Some f)"

text \<open>The walk only reads the tables on the way.\<close>

lemma tabs_cong:
  assumes "\<And>q r t. p = q @ r \<Longrightarrow> r \<noteq> [] \<Longrightarrow> tabs m f q = Some t \<Longrightarrow> frames m' t (hd r) = frames m t (hd r)"
  shows "tabs m' f p = tabs m f p"
  using assms
proof (induction p arbitrary: f)
  case (Cons i p)
  have "frames m' f i = frames m f i" using Cons.prems [of "[]" "i # p" f] by simp
  moreover have "tabs m' (frames m f i AND PAGE_MASK) p = tabs m (frames m f i AND PAGE_MASK) p"
    if "has_flag (frames m f i) PTE_PRESENT"
  proof (rule Cons.IH)
    fix q r t
    assume "p = q @ r" "r \<noteq> []" "tabs m (frames m f i AND PAGE_MASK) q = Some t"
    then show "frames m' t (hd r) = frames m t (hd r)"
      using Cons.prems [of "i # q" r t] that by simp
  qed
  ultimately show ?case by simp
qed simp

lemma put_word_frames:
  "frames (put_word f i w m) g j = (if g = f \<and> j = i then w else frames m g j)"
  by (simp add: put_word_def)

text \<open>Writing an entry of a last-level table moves no table.\<close>

lemma tabs_put_leaf:
  assumes wf: "tables_wf m cr3" and leaf: "ok_path l" "length l = 3" "tabs m cr3 l = Some t" and p: "ok_path p"
  shows "tabs (put_word t i w m) cr3 p = tabs m cr3 p"
proof (rule tabs_cong)
  fix q r t'
  assume s: "p = q @ r" "r \<noteq> []" "tabs m cr3 q = Some t'"
  have "t' \<noteq> t"
  proof
    assume "t' = t"
    then have "q = l" using tables_inj [OF wf _ leaf(1) s(3)] leaf(3) ok_path_butlast p s(1) by blast
    moreover have "length q < 3" using p s by (cases r) (auto simp: ok_path_def)
    ultimately show False using leaf(2) by simp
  qed
  then show "frames (put_word t i w m) t' (hd r) = frames m t' (hd r)" by (simp add: put_word_frames)
qed

text \<open>Writing to a frame that is no table moves no table.\<close>

lemma tabs_other_frame:
  assumes "\<not> table_frame m cr3 f" "\<And>g. g \<noteq> f \<Longrightarrow> frames m' g = frames m g" "ok_path p"
  shows "tabs m' cr3 p = tabs m cr3 p"
proof (rule tabs_cong)
  fix q r t
  assume s: "p = q @ r" "r \<noteq> []" "tabs m cr3 q = Some t"
  then have "t \<noteq> f" using assms(1,3) ok_path_butlast by (auto simp: table_frame_def)
  with assms(2) show "frames m' t (hd r) = frames m t (hd r)" by simp
qed

lemma put_word_pmm [simp]:
  "pmm_sized (put_word f i w m) = pmm_sized m" "page_refs (put_word f i w m) = page_refs m"
  "total_pages (put_word f i w m) = total_pages m"
  by (auto simp: put_word_def pmm_sized_def page_refs_def bitmap_test_bit_def fun_eq_iff)

lemma frames_pmm:
  "pmm_sized (m\<lparr>frames := fr\<rparr>) = pmm_sized m" "page_refs (m\<lparr>frames := fr\<rparr>) = page_refs m"
  "total_pages (m\<lparr>frames := fr\<rparr>) = total_pages m"
  by (auto simp: pmm_sized_def page_refs_def bitmap_test_bit_def fun_eq_iff)

lemma tables_wf_same_tabs:
  assumes "tables_wf m cr3" "\<And>p. ok_path p \<Longrightarrow> tabs m' cr3 p = tabs m cr3 p" "pmm_sized m'"
    and "\<And>f. live_frame m f \<Longrightarrow> live_frame m' f"
  shows "tables_wf m' cr3"
  unfolding tables_wf_def
proof (intro conjI allI impI)
  show "pmm_sized m'" by (rule assms)
next
  fix p f
  assume "ok_path p \<and> tabs m' cr3 p = Some f"
  then show "live_frame m' f" using assms(2,4) tables_live [OF assms(1)] by metis
next
  fix p q f
  assume "ok_path p \<and> ok_path q \<and> tabs m' cr3 p = Some f \<and> tabs m' cr3 q = Some f"
  then show "p = q" using assms(2) tables_inj [OF assms(1)] by metis
qed

section \<open>Mapping a page\<close>

lemma present_present [simp]: "has_flag PTE_PRESENT PTE_PRESENT"
  by (simp add: has_flag_def PTE_PRESENT_def)

lemma more_frames: "pmm_state.more m' = pmm_state.more m \<Longrightarrow> frames m' = frames m"
  by (cases m; cases m') simp

lemma more_mm:
  "pmm_state.more m' = pmm_state.more m \<Longrightarrow>
    frames m' = frames m \<and> address_space_pool m' = address_space_pool m \<and> kernel_space m' = kernel_space m
    \<and> next_address_space_idx m' = next_address_space_idx m \<and> mm_state.more m' = mm_state.more m"
  by (cases m; cases m') simp

lemma live_frame_mono:
  "live_frame m f \<Longrightarrow> total_pages m' = total_pages m \<Longrightarrow> (\<And>j. page_refs m j \<noteq> None \<Longrightarrow> page_refs m' j \<noteq> None) \<Longrightarrow> live_frame m' f"
  unfolding live_frame_def by metis

text \<open>Allocation leaves the references on pages in use as they are.\<close>

definition pmm_grows :: "'a pmm_state_scheme \<Rightarrow> 'a pmm_state_scheme \<Rightarrow> bool" where
  "pmm_grows m m' \<longleftrightarrow> total_pages m' = total_pages m \<and> (\<forall>j n. page_refs m j = Some n \<longrightarrow> page_refs m' j = Some n)"

lemma pmm_grows_refl [simp]: "pmm_grows m m"
  by (simp add: pmm_grows_def)

lemma pmm_grows_trans: "pmm_grows a b \<Longrightarrow> pmm_grows b c \<Longrightarrow> pmm_grows a c"
  by (simp add: pmm_grows_def)

lemma pmm_grows_live: "pmm_grows m m' \<Longrightarrow> live_frame m f \<Longrightarrow> live_frame m' f"
  using live_frame_mono [of m f m'] unfolding pmm_grows_def by blast

lemma mm_alloc:
  assumes wf: "pmm_sized m" and a: "pmm_alloc_page m = (p, m')"
  shows "frames m' = frames m \<and> pmm_sized m' \<and> mm_state.more m' = mm_state.more m
    \<and> pmm_grows m m'
    \<and> (p \<noteq> NULL \<longrightarrow> (\<exists>i. i < total_pages m \<and> i \<noteq> 0 \<and> p = page_addr i \<and> page_refs m i = None
         \<and> page_refs m' = (page_refs m)(i \<mapsto> 1) \<and> total_pages m' = total_pages m))"
  using wf a
proof (cases rule: alloc_page_cases)
  case (page i)
  have "p \<noteq> NULL \<Longrightarrow> i \<noteq> 0" using page(3) page_addr_zero [OF wf page(1)] by simp
  moreover have "pmm_grows m m'" using page(2,5,6) by (auto simp: pmm_grows_def)
  ultimately show ?thesis using page(1-6) more_mm [OF page(9)] by blast
next
  case none
  have "pmm_grows m m'" using none(3,4) by (simp add: pmm_grows_def)
  with none(1,2) more_mm [OF none(7)] show ?thesis by simp
qed

lemma page_addr_inj: "pmm_sized m \<Longrightarrow> i < total_pages m \<Longrightarrow> j < total_pages m \<Longrightarrow> page_addr i = page_addr j \<Longrightarrow> i = j"
proof -
  assume a: "pmm_sized m" "i < total_pages m" "j < total_pages m" "page_addr i = page_addr j"
  then have "i * PAGE_SIZE = j * PAGE_SIZE" using page_addr_index [OF a(1,2)] page_addr_index [OF a(1,3)] by metis
  then show "i = j" by simp
qed

lemma not_live_free:
  assumes "pmm_sized m" "i < total_pages m" "page_refs m i = None"
  shows "\<not> live_frame m (page_addr i)"
proof
  assume "live_frame m (page_addr i)"
  then obtain j where "j < total_pages m" "page_addr i = page_addr j" "page_refs m j \<noteq> None"
    unfolding live_frame_def by blast
  with page_addr_inj [OF assms(1,2) this(1,2)] assms(3) show False by simp
qed

text \<open>The entry behind a full path, 0 when it is absent.\<close>

definition leaf :: "'a mm_state_scheme \<Rightarrow> u64 \<Rightarrow> nat list \<Rightarrow> nat \<Rightarrow> u64" where
  "leaf m cr3 p j =
    (case tabs m cr3 p of None \<Rightarrow> 0 | Some t \<Rightarrow> if has_flag (frames m t j) PTE_PRESENT then frames m t j else 0)"

lemma get_pte_leaf: "vmm_get_pte m cr3 v = leaf m cr3 (path3 v) (pt_index v)"
  by (simp add: vmm_get_pte_def walk_tabs leaf_def split: option.splits)

lemma new_table_tabs:
  assumes wf: "tables_wf m cr3" and q: "ok_path q" "tabs m cr3 q = Some t" "\<not> has_flag (frames m t i) PTE_PRESENT"
    and p: "\<not> live_frame m p" "aligned p" and x: "ok_path x"
    and m': "frames m' = (frames m)(p := (\<lambda>_. 0), t := (frames m t)(i := p OR PTE_PRESENT OR PTE_WRITABLE OR PTE_USER))"
  shows "tabs m' cr3 x =
    (if take (Suc (length q)) x = q @ [i] then if x = q @ [i] then Some p else None else tabs m cr3 x)"
proof -
  have tp: "t \<noteq> p" using tables_live [OF wf q(1,2)] p(1) by auto
  have keep: "tabs m' cr3 y = tabs m cr3 y" if y: "ok_path y" and nt: "take (Suc (length q)) y \<noteq> q @ [i]" for y
  proof (rule tabs_cong)
    fix a r t'
    assume s: "y = a @ r" "r \<noteq> []" "tabs m cr3 a = Some t'"
    have ok: "ok_path a" using y s(1) ok_path_butlast by blast
    have "t' \<noteq> p" using tables_live [OF wf ok s(3)] p(1) by auto
    moreover have "\<not> (t' = t \<and> hd r = i)"
    proof
      assume *: "t' = t \<and> hd r = i"
      then have "a = q" using tables_inj [OF wf ok q(1) s(3)] q(2) by simp
      then have "take (Suc (length q)) y = q @ [i]" using s * by (cases r) simp_all
      with nt show False by simp
    qed
    ultimately show "frames m' t' (hd r) = frames m t' (hd r)" by (auto simp: m')
  qed
  show ?thesis
  proof (cases "take (Suc (length q)) x = q @ [i]")
    case False
    with keep [OF x] show ?thesis by simp
  next
    case True
    then have "x = q @ i # drop (Suc (length q)) x"
      using append_take_drop_id [of "Suc (length q)" x] by simp
    then obtain r where r: "x = q @ i # r" by blast
    have "tabs m' cr3 q = Some t" using keep [OF q(1)] q(2) by simp
    then have "tabs m' cr3 x = tabs m' p r"
      using tp by (simp add: r tabs_append m' table_entry [OF p(2)] table_entry_present)
    then show ?thesis using True tp by (cases r) (simp_all add: r m')
  qed
qed

lemma ensure_table_spec:
  assumes wf: "tables_wf m cr3" and q: "ok_path q" "length q < 3" "tabs m cr3 q = Some t" and i: "i < 512"
    and e: "ensure_table t i m = (ok, m')"
  shows "tables_wf m' cr3 \<and> pmm_grows m m' \<and> mm_state.more m' = mm_state.more m
    \<and> (\<forall>f. live_frame m f \<and> f \<noteq> t \<longrightarrow> frames m' f = frames m f)
    \<and> (\<forall>x f. ok_path x \<and> tabs m cr3 x = Some f \<longrightarrow> tabs m' cr3 x = Some f)
    \<and> (\<forall>x f. ok_path x \<and> tabs m' cr3 x = Some f \<longrightarrow> tabs m cr3 x = Some f \<or> \<not> live_frame m f)
    \<and> (\<forall>x j. ok_path x \<and> length x = 3 \<longrightarrow> leaf m' cr3 x j = leaf m cr3 x j)
    \<and> (ok \<longrightarrow> tabs m' cr3 (q @ [i]) = Some (frames m' t i AND PAGE_MASK))"
proof (cases "has_flag (frames m t i) PTE_PRESENT")
  case True
  then show ?thesis using wf e q by (simp add: ensure_table_def tabs_append)
next
  case absent: False
  obtain p m1 where a: "pmm_alloc_page m = (p, m1)" by fastforce
  have sz: "pmm_sized m" using wf by (simp add: tables_wf_def)
  note al = mm_alloc [OF sz a]
  have same: "tabs m1 = tabs m"
  proof (intro ext)
    fix f x
    show "tabs m1 f x = tabs m f x" using al by (intro tabs_cong) simp
  qed
  show ?thesis
  proof (cases "p = NULL")
    case True
    then have m': "m' = m1" "\<not> ok" using e a absent by (simp_all add: ensure_table_def)
    have "tables_wf m1 cr3"
      by (rule tables_wf_same_tabs [OF wf]) (use al same pmm_grows_live [of m m1] in simp_all)
    moreover have "leaf m1 = leaf m" by (intro ext) (simp only: leaf_def same conjunct1 [OF al])
    ultimately show ?thesis using m' al by (simp add: same)
  next
    case False
    then have ok: "ok" and m': "m' = put_word t i (p OR PTE_PRESENT OR PTE_WRITABLE OR PTE_USER) (zero_frame p m1)"
      using e a absent by (simp_all add: ensure_table_def)
    obtain k where k: "k < total_pages m" "k \<noteq> 0" "p = page_addr k" "page_refs m k = None"
        "page_refs m1 = (page_refs m)(k \<mapsto> 1)" "total_pages m1 = total_pages m"
      using al False by blast
    have np: "\<not> live_frame m p" using not_live_free [OF sz k(1,4)] k(3) by simp
    have tp: "t \<noteq> p" using tables_live [OF wf q(1,3)] np by auto
    have fr: "frames m' = (frames m)(p := (\<lambda>_. 0), t := (frames m t)(i := p OR PTE_PRESENT OR PTE_WRITABLE OR PTE_USER))"
      using al tp by (simp add: m' put_word_def zero_frame_def fun_eq_iff)
    have refs: "page_refs m' = page_refs m1" "pmm_sized m'" "total_pages m' = total_pages m"
      using al k by (simp_all add: m' zero_frame_def frames_pmm)
    have "page_refs m' j \<noteq> None \<longleftrightarrow> j = k \<or> page_refs m j \<noteq> None" for j
      using k(5) refs(1) by simp
    then have live: "live_frame m' f \<longleftrightarrow> live_frame m f \<or> f = p" for f
      unfolding live_frame_def refs(3) using k(1-3) by metis
    have ap: "aligned p" using page_addr_aligned k(3) by simp
    have T: "tabs m' cr3 x =
        (if take (Suc (length q)) x = q @ [i] then if x = q @ [i] then Some p else None else tabs m cr3 x)"
      if "ok_path x" for x
      by (rule new_table_tabs [OF wf q(1,3) absent np ap that fr])
    have none: "tabs m cr3 x = None" if "take (Suc (length q)) x = q @ [i]" for x
    proof -
      have "x = q @ i # drop (Suc (length q)) x"
        using append_take_drop_id [of "Suc (length q)" x] unfolding that by simp
      then obtain r where r: "x = q @ i # r" by blast
      show ?thesis unfolding r using q(3) absent by (simp add: tabs_append)
    qed
    have old: "tabs m' cr3 x = Some f" if "ok_path x" "tabs m cr3 x = Some f" for x f
      using T [OF that(1)] that(2) none [of x] by (cases "take (Suc (length q)) x = q @ [i]") simp_all
    have new: "tabs m cr3 x = Some f \<or> x = q @ [i] \<and> f = p" if "ok_path x" "tabs m' cr3 x = Some f" for x f
      using T [OF that(1)] that(2) by (auto split: if_splits)
    have wf': "tables_wf m' cr3"
      unfolding tables_wf_def
    proof (intro conjI allI impI)
      show "pmm_sized m'" by (rule refs)
      fix x f
      assume "ok_path x \<and> tabs m' cr3 x = Some f"
      then show "live_frame m' f" using new tables_live [OF wf] live by blast
    next
      fix x y f
      assume "ok_path x \<and> ok_path y \<and> tabs m' cr3 x = Some f \<and> tabs m' cr3 y = Some f"
      then show "x = y" using new tables_inj [OF wf] tables_live [OF wf] np by metis
    qed
    have okp: "ok_path (q @ [i])" using q i by (simp add: ok_path_def)
    have leafs: "leaf m' cr3 x j = leaf m cr3 x j" if x: "ok_path x" "length x = 3" for x j
    proof (cases "tabs m cr3 x")
      case None
      show ?thesis
      proof (cases "tabs m' cr3 x")
        case (Some f)
        then have "x = q @ [i]" "f = p" using new [OF x(1)] None by auto
        then show ?thesis using None Some tp by (simp add: leaf_def fr)
      qed (simp add: leaf_def None)
    next
      case (Some f)
      have "f \<noteq> t"
      proof
        assume "f = t"
        then have "x = q" using tables_inj [OF wf x(1) q(1) Some] q(3) by simp
        with x(2) q(2) show False by simp
      qed
      moreover have "f \<noteq> p" using tables_live [OF wf x(1) Some] np by auto
      ultimately show ?thesis using Some old [OF x(1) Some] by (simp add: leaf_def fr)
    qed
    have "tabs m' cr3 (q @ [i]) = Some (frames m' t i AND PAGE_MASK)"
      using T [OF okp] tp k(3) table_entry [OF page_addr_aligned, of k] by (simp add: fr)
    moreover have "frames m' f = frames m f" if "live_frame m f" "f \<noteq> t" for f
      using that np by (auto simp: fr)
    moreover have "mm_state.more m' = mm_state.more m" using al by (simp add: m' put_word_def zero_frame_def)
    moreover have "pmm_grows m m'" using k(4,5) refs by (auto simp: pmm_grows_def)
    ultimately show ?thesis using wf' old new np leafs by blast
  qed
qed

text \<open>What allocating tables does to the rest of the memory: nothing that an owner of a frame can see.\<close>

definition vm_grows :: "u64 \<Rightarrow> 'a mm_state_scheme \<Rightarrow> 'a mm_state_scheme \<Rightarrow> bool" where
  "vm_grows cr3 m m' \<longleftrightarrow> tables_wf m' cr3 \<and> pmm_grows m m' \<and> mm_state.more m' = mm_state.more m
    \<and> (\<forall>f. live_frame m f \<and> \<not> table_frame m cr3 f \<longrightarrow> frames m' f = frames m f)
    \<and> (\<forall>f. table_frame m' cr3 f \<longrightarrow> table_frame m cr3 f \<or> \<not> live_frame m f)
    \<and> (\<forall>f. table_frame m cr3 f \<longrightarrow> table_frame m' cr3 f)"

lemma vm_grows_refl: "tables_wf m cr3 \<Longrightarrow> vm_grows cr3 m m"
  by (simp add: vm_grows_def)

lemma vm_grows_trans: "vm_grows cr3 a b \<Longrightarrow> vm_grows cr3 b c \<Longrightarrow> vm_grows cr3 a c"
  unfolding vm_grows_def by (metis pmm_grows_live pmm_grows_trans)

lemma ensure_table_grows:
  assumes wf: "tables_wf m cr3" and q: "ok_path q" "length q < 3" "tabs m cr3 q = Some t" and i: "i < 512"
    and e: "ensure_table t i m = (ok, m')"
  shows "vm_grows cr3 m m'"
proof -
  note sp = ensure_table_spec [OF wf q i e]
  have t: "table_frame m cr3 t" using q by (auto simp: table_frame_def)
  have "frames m' f = frames m f" if "live_frame m f" "\<not> table_frame m cr3 f" for f
    using sp that t by blast
  moreover have "table_frame m cr3 f \<or> \<not> live_frame m f" if tf: "table_frame m' cr3 f" for f
  proof -
    obtain x where "ok_path x" "tabs m' cr3 x = Some f" using tf unfolding table_frame_def by blast
    then have "tabs m cr3 x = Some f \<or> \<not> live_frame m f" using sp by blast
    then show ?thesis using \<open>ok_path x\<close> unfolding table_frame_def by blast
  qed
  moreover have "table_frame m' cr3 f" if tf: "table_frame m cr3 f" for f
  proof -
    obtain x where "ok_path x" "tabs m cr3 x = Some f" using tf unfolding table_frame_def by blast
    then have "tabs m' cr3 x = Some f" using sp by blast
    then show ?thesis using \<open>ok_path x\<close> unfolding table_frame_def by blast
  qed
  ultimately show ?thesis using sp unfolding vm_grows_def by blast
qed

lemma put_leaf_grows:
  assumes wf: "tables_wf m cr3" and l: "ok_path l" "length l = 3" "tabs m cr3 l = Some t"
  shows "vm_grows cr3 m (put_word t i w m)"
    and "ok_path x \<Longrightarrow> length x = 3 \<Longrightarrow> leaf (put_word t i w m) cr3 x j =
      (if x = l \<and> j = i then if has_flag w PTE_PRESENT then w else 0 else leaf m cr3 x j)"
proof -
  note T = tabs_put_leaf [OF wf l]
  have live: "live_frame (put_word t i w m) f = live_frame m f" for f by (simp add: live_frame_def)
  have tf: "table_frame (put_word t i w m) cr3 f = table_frame m cr3 f" for f
    unfolding table_frame_def using T by metis
  have "tables_wf (put_word t i w m) cr3"
  proof (rule tables_wf_same_tabs [OF wf T])
    show "pmm_sized (put_word t i w m)" using wf by (simp add: tables_wf_def)
  qed (simp_all add: live)
  moreover have "frames (put_word t i w m) f = frames m f" if "\<not> table_frame m cr3 f" for f
    using that l by (auto simp: table_frame_def put_word_frames fun_eq_iff)
  ultimately show "vm_grows cr3 m (put_word t i w m)"
    unfolding vm_grows_def tf by (simp add: pmm_grows_def put_word_def frames_pmm)
  assume x: "ok_path x" "length x = 3"
  show "leaf (put_word t i w m) cr3 x j = (if x = l \<and> j = i then if has_flag w PTE_PRESENT then w else 0 else leaf m cr3 x j)"
  proof (cases "tabs m cr3 x")
    case None
    then show ?thesis using T [OF x(1)] l by (auto simp: leaf_def)
  next
    case (Some f)
    then have "f = t \<longleftrightarrow> x = l" using tables_inj [OF wf x(1) l(1)] l(3) by auto
    then show ?thesis using T [OF x(1)] Some by (simp add: leaf_def put_word_frames)
  qed
qed

definition same_page :: "u64 \<Rightarrow> u64 \<Rightarrow> bool" where
  "same_page v v' \<longleftrightarrow> path3 v = path3 v' \<and> pt_index v = pt_index v'"

lemma same_page_iff: "path3 v' = path3 v \<and> pt_index v' = pt_index v \<longleftrightarrow> same_page v v'"
  by (auto simp: same_page_def)

lemma map_page_spec:
  assumes wf: "tables_wf m cr3" and call: "vmm_map_page_by_cr3 cr3 v phys flags m = (ok, m')"
  shows "vm_grows cr3 m m' \<and> (\<forall>v'. (same_page v v' \<longrightarrow> \<not> ok) \<longrightarrow> vmm_get_pte m' cr3 v' = vmm_get_pte m cr3 v')
    \<and> (ok \<and> has_flag (phys OR flags) PTE_PRESENT \<longrightarrow> vmm_get_pte m' cr3 v = phys OR flags)"
proof -
  have ix: "pml4_index v < 512" "pdpt_index v < 512" "pd_index v < 512"
    using path3_ok(1) [of v] by (auto simp: ok_path_def path3_def)
  have oks: "ok_path []" "ok_path [pml4_index v]" "ok_path [pml4_index v, pdpt_index v]"
    using ix by (auto simp: ok_path_def)
  have keep: "vmm_get_pte b cr3 v' = vmm_get_pte a cr3 v'"
    if "\<And>x j. ok_path x \<Longrightarrow> length x = 3 \<Longrightarrow> leaf b cr3 x j = leaf a cr3 x j" for a b :: "'a mm_state_scheme" and v'
    unfolding get_pte_leaf using that [OF path3_ok(1,2)] .
  obtain ok1 m1 where e1: "ensure_table cr3 (pml4_index v) m = (ok1, m1)" by fastforce
  have t0: "tabs m cr3 [] = Some cr3" by simp
  note s1 = ensure_table_spec [OF wf oks(1) _ t0 ix(1) e1, simplified]
  note g1 = ensure_table_grows [OF wf oks(1) _ t0 ix(1) e1, simplified]
  have k1: "vmm_get_pte m1 cr3 v' = vmm_get_pte m cr3 v'" for v' by (rule keep) (use s1 in blast)
  show ?thesis
  proof (cases ok1)
    case False
    then have "ok = False" "m' = m1" using call e1 by (simp_all add: vmm_map_page_by_cr3_def)
    then show ?thesis using g1 k1 by simp
  next
    case ok1: True
    define pdpt where "pdpt = frames m1 cr3 (pml4_index v) AND PAGE_MASK"
    have t1: "tabs m1 cr3 [pml4_index v] = Some pdpt" using s1 ok1 by (simp add: pdpt_def)
    have wf1: "tables_wf m1 cr3" using s1 by blast
    obtain ok2 m2 where e2: "ensure_table pdpt (pdpt_index v) m1 = (ok2, m2)" by fastforce
    note s2 = ensure_table_spec [OF wf1 oks(2) _ t1 ix(2) e2, simplified]
    note g2 = vm_grows_trans [OF g1 ensure_table_grows [OF wf1 oks(2) _ t1 ix(2) e2, simplified]]
    have k2: "vmm_get_pte m2 cr3 v' = vmm_get_pte m cr3 v'" for v'
      unfolding k1 [symmetric] by (rule keep) (use s2 in blast)
    show ?thesis
    proof (cases ok2)
      case False
      then have "ok = False" "m' = m2" using call e1 e2 ok1 by (simp_all add: vmm_map_page_by_cr3_def pdpt_def)
      then show ?thesis using g2 k2 by simp
    next
      case ok2: True
      define pd where "pd = frames m2 pdpt (pdpt_index v) AND PAGE_MASK"
      have t2: "tabs m2 cr3 [pml4_index v, pdpt_index v] = Some pd" using s2 ok2 by (simp add: pd_def)
      have wf2: "tables_wf m2 cr3" using s2 by blast
      obtain ok3 m3 where e3: "ensure_table pd (pd_index v) m2 = (ok3, m3)" by fastforce
      note s3 = ensure_table_spec [OF wf2 oks(3) _ t2 ix(3) e3, simplified]
      note g3 = vm_grows_trans [OF g2 ensure_table_grows [OF wf2 oks(3) _ t2 ix(3) e3, simplified]]
      have k3: "vmm_get_pte m3 cr3 v' = vmm_get_pte m cr3 v'" for v'
        unfolding k2 [symmetric] by (rule keep) (use s3 in blast)
      show ?thesis
      proof (cases ok3)
        case False
        then have "ok = False" "m' = m3" using call e1 e2 e3 ok1 ok2 by (simp_all add: vmm_map_page_by_cr3_def pdpt_def pd_def)
        then show ?thesis using g3 k3 by simp
      next
        case ok3: True
        define pt where "pt = frames m3 pd (pd_index v) AND PAGE_MASK"
        have t3: "tabs m3 cr3 (path3 v) = Some pt" using s3 ok3 by (simp add: pt_def path3_def)
        have wf3: "tables_wf m3 cr3" using s3 by blast
        have m': "ok" "m' = put_word pt (pt_index v) (phys OR flags) m3"
          using call e1 e2 e3 ok1 ok2 ok3 by (simp_all add: vmm_map_page_by_cr3_def pdpt_def pd_def pt_def)
        note p = put_leaf_grows [OF wf3 path3_ok(1,2) t3, where i = "pt_index v" and w = "phys OR flags"]
        have "vmm_get_pte m' cr3 v' = (if same_page v v' then if has_flag (phys OR flags) PTE_PRESENT then phys OR flags else 0
            else vmm_get_pte m cr3 v')" for v'
          unfolding m' get_pte_leaf p(2) [OF path3_ok(1,2)] same_page_iff
          using k3 [of v', unfolded get_pte_leaf] by simp
        then show ?thesis using vm_grows_trans [OF g3 p(1)] m' by (simp add: same_page_def)
      qed
    qed
  qed
qed

lemma unmap_page_spec:
  assumes wf: "tables_wf m cr3"
  shows "vm_grows cr3 m (vmm_unmap_page_by_cr3 cr3 v m)
    \<and> (\<forall>v'. vmm_get_pte (vmm_unmap_page_by_cr3 cr3 v m) cr3 v' = (if same_page v v' then 0 else vmm_get_pte m cr3 v'))"
proof (cases "tabs m cr3 (path3 v)")
  case None
  then have "vmm_unmap_page_by_cr3 cr3 v m = m" by (simp add: vmm_unmap_page_by_cr3_def walk_tabs)
  moreover have "vmm_get_pte m cr3 v' = 0" if "same_page v v'" for v'
    using None that by (simp add: get_pte_leaf leaf_def same_page_def)
  ultimately show ?thesis using vm_grows_refl [OF wf] by simp
next
  case (Some t)
  then have e: "vmm_unmap_page_by_cr3 cr3 v m = put_word t (pt_index v) 0 m"
    by (simp add: vmm_unmap_page_by_cr3_def walk_tabs)
  note p = put_leaf_grows [OF wf path3_ok(1,2) Some, where i = "pt_index v" and w = 0]
  have "vmm_get_pte (put_word t (pt_index v) 0 m) cr3 v' = (if same_page v v' then 0 else vmm_get_pte m cr3 v')" for v'
    unfolding get_pte_leaf p(2) [OF path3_ok(1,2)] same_page_iff by simp
  then show ?thesis unfolding e using p(1) by blast
qed

lemma protect_page_spec:
  assumes wf: "tables_wf m cr3" and call: "vmm_protect_page_by_cr3 cr3 v new_flags m = (ok, m')"
  shows "vm_grows cr3 m m' \<and> ok = (vmm_get_pte m cr3 v \<noteq> 0)
    \<and> (\<forall>v'. vmm_get_pte m' cr3 v' =
        (if same_page v v' \<and> ok then (vmm_get_pte m cr3 v AND PAGE_MASK) OR (new_flags AND NOT PAGE_MASK) OR PTE_PRESENT
         else vmm_get_pte m cr3 v'))"
proof (cases "vmm_get_pte m cr3 v = 0")
  case True
  then have "ok = False" "m' = m"
    using call by (auto simp: vmm_protect_page_by_cr3_def vmm_get_pte_def Let_def has_flag_def split: option.splits if_splits)
  then show ?thesis using vm_grows_refl [OF wf] True by simp
next
  case False
  then obtain t where t: "tabs m cr3 (path3 v) = Some t" and pr: "has_flag (frames m t (pt_index v)) PTE_PRESENT"
    and pte: "vmm_get_pte m cr3 v = frames m t (pt_index v)"
    by (auto simp: get_pte_leaf leaf_def split: option.splits if_splits)
  define w where "w = (frames m t (pt_index v) AND PAGE_MASK) OR (new_flags AND NOT PAGE_MASK) OR PTE_PRESENT"
  have m': "ok" "m' = put_word t (pt_index v) w m"
    using call t pr by (simp_all add: vmm_protect_page_by_cr3_def walk_tabs w_def)
  have wp: "has_flag w PTE_PRESENT" by (simp add: w_def)
  note p = put_leaf_grows [OF wf path3_ok(1,2) t, where i = "pt_index v" and w = w]
  have "vmm_get_pte m' cr3 v' = (if same_page v v' then w else vmm_get_pte m cr3 v')" for v'
    unfolding m' get_pte_leaf p(2) [OF path3_ok(1,2)] same_page_iff using wp by simp
  then show ?thesis using p(1) m' False pte by (simp add: w_def)
qed

section \<open>Virtual page numbers\<close>

text \<open>Two addresses are in the same page when bits 12 to 47 agree: the walk ignores the rest.\<close>

lemma masked_eq:
  fixes x y :: u64
  shows "x AND mask j = y AND mask j \<longleftrightarrow> (\<forall>n < j. bit x n = bit y n)"
proof
  assume eq: "x AND mask j = y AND mask j"
  show "\<forall>n < j. bit x n = bit y n"
  proof (intro allI impI)
    fix n
    assume n: "n < j"
    have "bit (x AND mask j) n = bit (y AND mask j) n" by (simp only: eq)
    then have "n < 64 \<Longrightarrow> bit x n = bit y n" using n by (simp add: bit_and_iff bit_mask_iff)
    moreover have "\<not> n < 64 \<Longrightarrow> \<not> bit x n \<and> \<not> bit y n"
      using bit_imp_le_length [of x n] bit_imp_le_length [of y n] by auto
    ultimately show "bit x n = bit y n" by blast
  qed
next
  assume "\<forall>n < j. bit x n = bit y n"
  then show "x AND mask j = y AND mask j"
    by (intro bit_word_eqI) (simp add: bit_and_iff bit_mask_iff, blast)
qed

lemma index_bits:
  fixes v v' :: u64
  shows "unat (drop_bit k v AND 0x1FF) = unat (drop_bit k v' AND 0x1FF) \<longleftrightarrow> (\<forall>n < 9. bit v (k + n) = bit v' (k + n))"
proof -
  have m: "(0x1FF :: u64) = mask 9" by (simp add: mask_eq_exp_minus_1)
  show ?thesis unfolding m word_unat_eq_iff [symmetric] masked_eq bit_drop_bit_eq by (simp add: comp_def add.commute)
qed

lemma bits_above:
  "(\<forall>n < l. bit v (k + n) = bit v' (k + n)) \<longleftrightarrow> (\<forall>n. k \<le> n \<and> n < k + l \<longrightarrow> bit v n = bit v' n)"
proof
  assume a: "\<forall>n < l. bit v (k + n) = bit v' (k + n)"
  show "\<forall>n. k \<le> n \<and> n < k + l \<longrightarrow> bit v n = bit v' n"
  proof (intro allI impI)
    fix n :: nat
    assume n: "k \<le> n \<and> n < k + l"
    then have "n - k < l" "k + (n - k) = n" by linarith+
    with a show "bit v n = bit v' n" by metis
  qed
qed simp

lemma same_page_bits: "same_page v v' \<longleftrightarrow> (\<forall>n. 12 \<le> n \<and> n < 48 \<longrightarrow> bit v n = bit v' n)"
proof -
  have "(\<forall>n. 12 \<le> n \<and> n < 48 \<longrightarrow> bit v n = bit v' n) \<longleftrightarrow>
      (\<forall>n. 39 \<le> n \<and> n < 39 + 9 \<longrightarrow> bit v n = bit v' n) \<and> (\<forall>n. 30 \<le> n \<and> n < 30 + 9 \<longrightarrow> bit v n = bit v' n)
      \<and> (\<forall>n. 21 \<le> n \<and> n < 21 + 9 \<longrightarrow> bit v n = bit v' n) \<and> (\<forall>n. 12 \<le> n \<and> n < 12 + 9 \<longrightarrow> bit v n = bit v' n)"
    (is "?A \<longleftrightarrow> ?B")
  proof
    assume b: ?B
    show ?A
    proof (intro allI impI)
      fix n :: nat
      assume "12 \<le> n \<and> n < 48"
      then consider "39 \<le> n \<and> n < 39 + 9" | "30 \<le> n \<and> n < 30 + 9" | "21 \<le> n \<and> n < 21 + 9" | "12 \<le> n \<and> n < 12 + 9"
        by linarith
      then show "bit v n = bit v' n" using b by cases blast+
    qed
  qed auto
  then show ?thesis
    unfolding same_page_def path3_def pml4_index_def pdpt_index_def pd_index_def pt_index_def list.inject index_bits bits_above
    by blast
qed

definition vpn :: "u64 \<Rightarrow> nat" where
  "vpn v = unat v div PAGE_SIZE mod 2 ^ 36"

lemma vpn_same_page: "same_page v v' \<longleftrightarrow> vpn v = vpn v'"
proof -
  have e: "vpn v = unat (take_bit 36 (drop_bit 12 v))" for v :: u64
    by (simp add: vpn_def take_bit_eq_mod drop_bit_eq_div unat_div unat_mod)
  have "vpn v = vpn v' \<longleftrightarrow> drop_bit 12 v AND mask 36 = drop_bit 12 v' AND mask 36"
    unfolding e word_unat_eq_iff [symmetric] take_bit_eq_mask ..
  also have "\<dots> \<longleftrightarrow> (\<forall>n < 36. bit v (12 + n) = bit v' (12 + n))"
    unfolding masked_eq bit_drop_bit_eq by (simp add: comp_def add.commute)
  also have "\<dots> \<longleftrightarrow> same_page v v'" unfolding bits_above same_page_bits by simp
  finally show ?thesis by blast
qed

lemma same_page_refl [simp]: "same_page v v"
  by (simp add: same_page_def)

section \<open>The interface of an address space\<close>

text \<open>Binding a list of pages, as a range is mapped: stop at the first failure.\<close>

primrec bind_all :: "('k \<Rightarrow> 'e \<Rightarrow> 's \<Rightarrow> bool \<times> 's) \<Rightarrow> ('k \<times> 'e) list \<Rightarrow> 's \<Rightarrow> bool \<times> 's" where
  "bind_all bind_page [] s = (True, s)"
| "bind_all bind_page (b # bs) s =
    (case bind_page (fst b) (snd b) s of (ok, s) \<Rightarrow> if ok then bind_all bind_page bs s else (False, s))"

locale page_map =
  fixes inv :: "'s \<Rightarrow> bool"
    and look :: "'s \<Rightarrow> 'k \<Rightarrow> 'e"
    and same :: "'k \<Rightarrow> 'k \<Rightarrow> bool"
    and bind_page :: "'k \<Rightarrow> 'e \<Rightarrow> 's \<Rightarrow> bool \<times> 's"
    and present :: "'e \<Rightarrow> bool"
  assumes bind_inv: "inv s \<Longrightarrow> bind_page k e s = (ok, s') \<Longrightarrow> inv s'"
    and bind_this: "inv s \<Longrightarrow> bind_page k e s = (True, s') \<Longrightarrow> present e \<Longrightarrow> look s' k = e"
    and bind_other: "inv s \<Longrightarrow> bind_page k e s = (ok, s') \<Longrightarrow> \<not> same k k' \<Longrightarrow> look s' k' = look s k'"
begin

lemma bind_all_inv: "inv s \<Longrightarrow> bind_all bind_page bs s = (ok, s') \<Longrightarrow> inv s'"
proof (induction bs arbitrary: s)
  case (Cons b bs)
  obtain r t where b: "bind_page (fst b) (snd b) s = (r, t)" by fastforce
  have "inv t" by (rule bind_inv [OF Cons.prems(1) b])
  then show ?case using Cons.IH [of t] Cons.prems(2) b by (cases r) simp_all
qed simp

lemma bind_all_other:
  "inv s \<Longrightarrow> bind_all bind_page bs s = (ok, s') \<Longrightarrow> \<forall>b \<in> set bs. \<not> same (fst b) k \<Longrightarrow> inv s' \<and> look s' k = look s k"
proof (induction bs arbitrary: s)
  case (Cons b bs)
  obtain r t where b: "bind_page (fst b) (snd b) s = (r, t)" by fastforce
  have t: "inv t" "look t k = look s k"
    using bind_inv [OF Cons.prems(1) b] bind_other [OF Cons.prems(1) b] Cons.prems(3) by simp_all
  show ?case
  proof (cases r)
    case True
    then have "bind_all bind_page bs t = (ok, s')" using Cons.prems(2) b by simp
    from Cons.IH [OF t(1) this] Cons.prems(3) t(2) show ?thesis by simp
  next
    case False
    then show ?thesis using Cons.prems(2) b t by simp
  qed
qed simp

lemma bind_all_look:
  "inv s \<Longrightarrow> bind_all bind_page bs s = (True, s') \<Longrightarrow> sorted_wrt (\<lambda>a b. \<not> same (fst b) (fst a)) bs \<Longrightarrow>
    \<forall>b \<in> set bs. present (snd b) \<Longrightarrow> b \<in> set bs \<Longrightarrow> look s' (fst b) = snd b"
proof (induction bs arbitrary: s)
  case (Cons c bs)
  obtain r t where c: "bind_page (fst c) (snd c) s = (r, t)" by fastforce
  have r: "r = True" and rest: "bind_all bind_page bs t = (True, s')" using Cons.prems(2) c by (auto split: if_splits)
  have t: "inv t" by (rule bind_inv [OF Cons.prems(1) c])
  show ?case
  proof (cases "b \<in> set bs")
    case True
    from Cons.IH [OF t rest _ _ True] Cons.prems(3,4) show ?thesis by simp
  next
    case False
    then have b: "b = c" using Cons.prems(5) by simp
    have "look t (fst c) = snd c" using bind_this [OF Cons.prems(1) c [unfolded r]] Cons.prems(4) by simp
    moreover have "look s' (fst c) = look t (fst c)"
      using bind_all_other [OF t rest, of "fst c"] Cons.prems(3) by simp
    ultimately show ?thesis by (simp add: b)
  qed
qed simp

end

interpretation vas: page_map "\<lambda>m. tables_wf m cr3" "\<lambda>m. vmm_get_pte m cr3" same_page
  "\<lambda>v e. vmm_map_page_by_cr3 cr3 v e 0" "\<lambda>e. has_flag e PTE_PRESENT"
  for cr3 :: u64
proof unfold_locales
  fix s s' :: "'a mm_state_scheme" and k e ok
  assume wf: "tables_wf s cr3"
  { assume "vmm_map_page_by_cr3 cr3 k e 0 s = (ok, s')"
    from map_page_spec [OF wf this] show "tables_wf s' cr3" by (simp add: vm_grows_def) }
  { assume c: "vmm_map_page_by_cr3 cr3 k e 0 s = (True, s')" and p: "has_flag e PTE_PRESENT"
    from map_page_spec [OF wf c] p show "vmm_get_pte s' cr3 k = e" by simp }
  { fix k'
    assume c: "vmm_map_page_by_cr3 cr3 k e 0 s = (ok, s')" and n: "\<not> same_page k k'"
    from map_page_spec [OF wf c] n show "vmm_get_pte s' cr3 k' = vmm_get_pte s cr3 k'" by blast }
qed

section \<open>When mapping succeeds\<close>

text \<open>The allocator is ready when fault injection is off and page 0, whose address is \<open>NULL\<close>, is reserved.\<close>

definition pmm_ready :: "'a pmm_state_scheme \<Rightarrow> bool" where
  "pmm_ready m \<longleftrightarrow> pmm_sized m \<and> g_debug_pmm_fail_nth m \<le> 0 \<and> page_refs m 0 \<noteq> None"

lemma inject_off: "g_debug_pmm_fail_nth m \<le> 0 \<Longrightarrow> pmm_inject m = (False, m)"
  by (simp add: pmm_inject_def)

lemma take_page_debug: "g_debug_pmm_fail_nth (snd (take_page i m)) = g_debug_pmm_fail_nth m"
  by (simp add: take_page_def set_refcount_def bitmap_set_bit_def Let_def)

lemma alloc_page_debug: "g_debug_pmm_fail_nth m \<le> 0 \<Longrightarrow> g_debug_pmm_fail_nth (snd (pmm_alloc_page m)) = g_debug_pmm_fail_nth m"
  by (simp add: pmm_alloc_page_def inject_off take_page_debug split: option.splits)

lemma alloc_page_succeeds:
  assumes r: "pmm_ready m" and free: "free_count m \<noteq> 0" and a: "pmm_alloc_page m = (p, m')"
  shows "p \<noteq> NULL \<and> pmm_ready m' \<and> free_count m' = free_count m - 1"
proof -
  have wf: "pmm_sized m" using r by (simp add: pmm_ready_def)
  have dbg: "g_debug_pmm_fail_nth m' = g_debug_pmm_fail_nth m"
    using alloc_page_debug [of m] r a by (simp add: pmm_ready_def)
  from wf a show ?thesis
  proof (cases rule: alloc_page_cases)
    case (page i)
    have "i \<noteq> 0" using r page(2) unfolding pmm_ready_def by metis
    then have "p \<noteq> NULL" using page_addr_zero [OF wf page(1)] page(3) by simp
    moreover have "free_set m' = free_set m - {i}" "i \<in> free_set m"
      using page(1,2,5,6) by (auto simp: free_set_def)
    then have "free_count m' = free_count m - 1" by (simp add: free_count_card card_Diff_singleton)
    moreover have "pmm_ready m'" using r page(4,5) dbg by (simp add: pmm_ready_def)
    ultimately show ?thesis by blast
  next
    case none
    have "g_debug_pmm_fail_nth m \<noteq> 1" using r by (simp add: pmm_ready_def)
    then have "\<forall>i < total_pages m. page_refs m i \<noteq> None" using none(8) by blast
    then have "free_set m = {}" by (auto simp: free_set_def)
    with free show ?thesis by (simp add: free_count_card)
  qed
qed

lemma pmm_ready_frames:
  "pmm_ready (m\<lparr>frames := fr\<rparr>) = pmm_ready m" "free_count (m\<lparr>frames := fr\<rparr>) = free_count m"
  by (simp_all add: pmm_ready_def free_count_def frames_pmm)

lemma ensure_table_succeeds:
  assumes "pmm_ready m" "free_count m \<noteq> 0" "ensure_table t i m = (ok, m')"
  shows "ok \<and> pmm_ready m' \<and> free_count m - 1 \<le> free_count m'"
proof (cases "has_flag (frames m t i) PTE_PRESENT")
  case True
  then show ?thesis using assms by (simp add: ensure_table_def)
next
  case False
  obtain p m1 where a: "pmm_alloc_page m = (p, m1)" by fastforce
  from alloc_page_succeeds [OF assms(1,2) a] False a assms(3) show ?thesis
    by (auto simp: ensure_table_def put_word_def zero_frame_def pmm_ready_frames)
qed

lemma map_page_succeeds:
  assumes r: "pmm_ready m" and free: "3 \<le> free_count m"
  shows "fst (vmm_map_page_by_cr3 cr3 v phys flags m)"
proof -
  obtain ok1 m1 where e1: "ensure_table cr3 (pml4_index v) m = (ok1, m1)" by fastforce
  have s1: "ok1" "pmm_ready m1" "2 \<le> free_count m1" using ensure_table_succeeds [OF r _ e1] free by auto
  define pdpt where "pdpt = frames m1 cr3 (pml4_index v) AND PAGE_MASK"
  obtain ok2 m2 where e2: "ensure_table pdpt (pdpt_index v) m1 = (ok2, m2)" by fastforce
  have s2: "ok2" "pmm_ready m2" "1 \<le> free_count m2" using ensure_table_succeeds [OF s1(2) _ e2] s1(3) by auto
  define pd where "pd = frames m2 pdpt (pdpt_index v) AND PAGE_MASK"
  obtain ok3 m3 where e3: "ensure_table pd (pd_index v) m2 = (ok3, m3)" by fastforce
  have s3: "ok3" using ensure_table_succeeds [OF s2(2) _ e3] s2(3) by auto
  show ?thesis using e1 e2 e3 s1 s2 s3 by (simp add: vmm_map_page_by_cr3_def pdpt_def pd_def)
qed

section \<open>Properties\<close>

text \<open>
  C21: on a tree of page tables the three operations on a mapping behave as updates of a map from
  virtual pages to entries, although they allocate tables on the way. Mapping sets the entry of its
  page; unmapping clears it; protecting replaces the low flag bits and keeps the frame; all leave the
  entry of every other page as it was and keep the tree well formed. A failed mapping changes no
  entry, and mapping does not fail when three pages are free.
\<close>

theorem vmm_tables_are_map:
  assumes wf: "tables_wf m cr3" and pr: "has_flag flags PTE_PRESENT"
  shows "(case vmm_map_page_by_cr3 cr3 v phys flags m of (ok, m') \<Rightarrow>
            tables_wf m' cr3 \<and> (pmm_ready m \<and> 3 \<le> free_count m \<longrightarrow> ok)
            \<and> (\<forall>v'. vmm_get_pte m' cr3 v' = (if ok \<and> vpn v' = vpn v then phys OR flags else vmm_get_pte m cr3 v')))
    \<and> (let m' = vmm_unmap_page_by_cr3 cr3 v m in
            tables_wf m' cr3 \<and> (\<forall>v'. vmm_get_pte m' cr3 v' = (if vpn v' = vpn v then 0 else vmm_get_pte m cr3 v')))
    \<and> (case vmm_protect_page_by_cr3 cr3 v flags m of (ok, m') \<Rightarrow>
            tables_wf m' cr3 \<and> ok = (vmm_get_pte m cr3 v \<noteq> 0)
            \<and> (\<forall>v'. vmm_get_pte m' cr3 v' =
                 (if ok \<and> vpn v' = vpn v then (vmm_get_pte m cr3 v AND PAGE_MASK) OR (flags AND NOT PAGE_MASK) OR PTE_PRESENT
                  else vmm_get_pte m cr3 v')))"
proof (intro conjI)
  obtain ok m' where c: "vmm_map_page_by_cr3 cr3 v phys flags m = (ok, m')" by fastforce
  note s = map_page_spec [OF wf c]
  have "vmm_get_pte m' cr3 v' = (if ok \<and> vpn v' = vpn v then phys OR flags else vmm_get_pte m cr3 v')" for v'
  proof (cases "ok \<and> vpn v' = vpn v")
    case True
    then have sp: "same_page v v'" by (simp add: vpn_same_page)
    then have "vmm_get_pte m' cr3 v' = vmm_get_pte m' cr3 v" by (simp add: get_pte_leaf same_page_def)
    then show ?thesis using s True pr by simp
  next
    case False
    then have "same_page v v' \<longrightarrow> \<not> ok" by (auto simp: vpn_same_page)
    then have "vmm_get_pte m' cr3 v' = vmm_get_pte m cr3 v'" using s by blast
    with False show ?thesis by (simp only: if_False)
  qed
  then show "case vmm_map_page_by_cr3 cr3 v phys flags m of (ok, m') \<Rightarrow>
      tables_wf m' cr3 \<and> (pmm_ready m \<and> 3 \<le> free_count m \<longrightarrow> ok)
      \<and> (\<forall>v'. vmm_get_pte m' cr3 v' = (if ok \<and> vpn v' = vpn v then phys OR flags else vmm_get_pte m cr3 v'))"
    using s c map_page_succeeds [of m cr3 v phys flags] by (simp add: vm_grows_def)
  have e: "same_page v v' \<longleftrightarrow> vpn v' = vpn v" for v' by (auto simp: vpn_same_page)
  from unmap_page_spec [OF wf, of v]
  show "let m' = vmm_unmap_page_by_cr3 cr3 v m in
      tables_wf m' cr3 \<and> (\<forall>v'. vmm_get_pte m' cr3 v' = (if vpn v' = vpn v then 0 else vmm_get_pte m cr3 v'))"
    by (simp add: Let_def vm_grows_def e)
  obtain ok2 m2 where c2: "vmm_protect_page_by_cr3 cr3 v flags m = (ok2, m2)" by fastforce
  from protect_page_spec [OF wf c2]
  show "case vmm_protect_page_by_cr3 cr3 v flags m of (ok, m') \<Rightarrow>
      tables_wf m' cr3 \<and> ok = (vmm_get_pte m cr3 v \<noteq> 0)
      \<and> (\<forall>v'. vmm_get_pte m' cr3 v' =
           (if ok \<and> vpn v' = vpn v then (vmm_get_pte m cr3 v AND PAGE_MASK) OR (flags AND NOT PAGE_MASK) OR PTE_PRESENT
            else vmm_get_pte m cr3 v'))"
    by (simp add: c2 vm_grows_def e conj_commute)
qed

definition demo_mm :: mm_state where
  "demo_mm = \<lparr>bitmap = [0x07, 0xF2], pp_refcounts = [0, 0, 1, 0, 0, 0, 0, 0, 0, 0, 0, 0], total_pages = 12, used_pages = 2,
    usable_memory = 0xA000, last_used_index = 3, g_debug_pmm_fail_nth = 0, frames = (\<lambda>f i. 0),
    address_space_pool = 0x2000 # replicate 31 0, next_address_space_idx = 0, kernel_space = 0x2000\<rparr>"

lemma tables_wf_empty:
  assumes "pmm_sized m" "live_frame m cr3" "frames m cr3 = (\<lambda>i. 0)"
  shows "tables_wf m cr3"
proof -
  have "p = [] \<and> f = cr3" if "tabs m cr3 p = Some f" for p f
    using that assms(3) by (cases p) simp_all
  then show ?thesis using assms(1,2) unfolding tables_wf_def by blast
qed

lemma demo_mm_facts: "pmm_ready demo_mm" "free_count demo_mm = 8" "page_refs demo_mm 2 = Some 1"
proof -
  have "page_refs demo_mm 0 \<noteq> None" by code_simp
  then show "pmm_ready demo_mm" by (simp add: pmm_ready_def pmm_sized_def demo_mm_def)
qed code_simp+

lemma demo_mm_wf: "tables_wf demo_mm 0x2000"
proof (rule tables_wf_empty)
  have "page_addr 2 = 0x2000" by (simp add: page_addr_def)
  then show "live_frame demo_mm 0x2000"
    unfolding live_frame_def using demo_mm_facts(3) by (intro exI [of _ 2]) (simp add: demo_mm_def)
qed (use demo_mm_facts(1) in \<open>simp_all add: pmm_ready_def demo_mm_def\<close>)

lemma vmm_tables_are_map_witness:
  "vmm_get_pte (snd (vmm_map_page_by_cr3 0x2000 0x400000 0x8000 7 demo_mm)) 0x2000 0x400123 = 0x8007
   \<and> vmm_get_pte (snd (vmm_map_page_by_cr3 0x2000 0x400000 0x8000 7 demo_mm)) 0x2000 0x401000
     = vmm_get_pte demo_mm 0x2000 0x401000"
proof -
  have f: "has_flag 7 PTE_PRESENT" by (simp add: has_flag_def PTE_PRESENT_def)
  obtain ok m where c: "vmm_map_page_by_cr3 0x2000 0x400000 0x8000 7 demo_mm = (ok, m)" by fastforce
  have p: "vpn 0x400123 = vpn 0x400000" "vpn 0x401000 \<noteq> vpn 0x400000" by (simp_all add: vpn_def)
  from vmm_tables_are_map [OF demo_mm_wf f, where v = "0x400000" and phys = "0x8000"] demo_mm_facts c
  have "ok" and l: "vmm_get_pte m 0x2000 v' = (if vpn v' = vpn 0x400000 then 0x8000 OR 7 else vmm_get_pte demo_mm 0x2000 v')" for v'
    by auto
  from l [of "0x400123"] l [of "0x401000"] p c show ?thesis by simp
qed

section \<open>Ranges\<close>

lemma unat_page_mask: "unat (w AND PAGE_MASK) = unat w div PAGE_SIZE * PAGE_SIZE"
proof -
  have "w AND PAGE_MASK = push_bit 12 (drop_bit 12 w)"
    by (rule bit_word_eqI) (auto simp: bit_and_iff PAGE_MASK_bits bit_push_bit_iff bit_drop_bit_eq)
  then have "w AND PAGE_MASK = w div 4096 * 4096" by (simp add: push_bit_eq_mult drop_bit_eq_div)
  moreover have "unat w div PAGE_SIZE * PAGE_SIZE < 2 ^ 64"
    using unsigned_less [where 'a = nat and w = w] div_times_less_eq_dividend [of "unat w" PAGE_SIZE]
    by (auto intro: le_less_trans)
  moreover have "unat (w div 4096) = unat w div PAGE_SIZE" by (simp add: unat_div)
  ultimately show ?thesis by (simp only: unat_word_ariths(2)) simp
qed

lemma aligned_nat: "aligned w \<longleftrightarrow> unat w mod PAGE_SIZE = 0"
proof -
  have "aligned w \<longleftrightarrow> unat (w AND PAGE_MASK) = unat w" unfolding aligned_def by (rule word_unat_eq_iff)
  then show ?thesis unfolding unat_page_mask using div_mult_mod_eq [of "unat w" PAGE_SIZE] by linarith
qed

lemma vpn_offset:
  assumes "aligned v"
  shows "vpn (v + of_nat i * 4096) = (vpn v + i) mod 2 ^ 36"
proof -
  obtain k where k: "unat v = k * PAGE_SIZE"
    using assms unfolding aligned_nat by (metis dvd_def mod_0_imp_dvd mult.commute)
  have "unat (v + of_nat i * 4096) = (unat v + i * PAGE_SIZE) mod 2 ^ 64"
    by (simp add: unat_word_ariths unat_of_nat take_bit_eq_mod mod_simps)
  also have "\<dots> = ((k + i) * PAGE_SIZE) mod (2 ^ 52 * PAGE_SIZE)"
    by (simp add: k distrib_right)
  also have "\<dots> = ((k + i) mod 2 ^ 52) * PAGE_SIZE" by (rule mod_mult_mult2)
  finally have "vpn (v + of_nat i * 4096) = (k + i) mod 2 ^ 52 mod 2 ^ 36" by (simp add: vpn_def)
  also have "\<dots> = (k + i) mod 2 ^ 36" by (rule mod_mod_cancel) (simp add: dvd_power_le)
  finally show ?thesis by (simp add: vpn_def k mod_simps)
qed

lemma map_pages_bind_all:
  "cr3 \<noteq> NULL \<Longrightarrow> map_pages cr3 v ph n flags m =
    bind_all (\<lambda>v e. vmm_map_page_by_cr3 cr3 v e 0) (map (\<lambda>i. (v + of_nat i * 4096, (ph + of_nat i * 4096) OR flags)) [0..<n]) m"
proof (induction n arbitrary: v ph m)
  case (Suc n)
  have or0: "vmm_map_page_by_cr3 cr3 v ph flags = vmm_map_page_by_cr3 cr3 v (ph OR flags) 0"
    by (intro ext) (simp only: vmm_map_page_by_cr3_def or.right_neutral)
  have sh: "map (\<lambda>i. (v + of_nat i * 4096, (ph + of_nat i * 4096) OR flags)) [0..<Suc n]
    = (v, ph OR flags) # map (\<lambda>i. ((v + 4096) + of_nat i * 4096, ((ph + 4096) + of_nat i * 4096) OR flags)) [0..<n]"
    unfolding upt_conv_Cons [OF zero_less_Suc] map_Suc_upt [symmetric] by (simp add: algebra_simps comp_def)
  show ?case
    unfolding sh using Suc.prems by (simp add: vmm_map_page_def or0 Suc.IH split: prod.splits)
qed simp

text \<open>
  C25: a successful \<open>vmm_map_range\<close> of \<open>n\<close> pages maps the pages of the virtual range to the frames of
  the physical range in order with the given flags, and leaves every other page as it was.
\<close>

theorem vmm_map_range_correct:
  assumes wf: "tables_wf m cr3" "cr3 \<noteq> NULL" and pr: "has_flag flags PTE_PRESENT" and al: "aligned v" "aligned ph"
    and n: "n \<le> 2 ^ 36" and call: "vmm_map_range cr3 v ph (of_nat (n * PAGE_SIZE)) flags m = (True, m')"
  shows "(i < n \<longrightarrow> vmm_get_pte m' cr3 (v + of_nat i * 4096) = (ph + of_nat i * 4096) OR flags)
    \<and> ((\<forall>i < n. vpn v' \<noteq> vpn (v + of_nat i * 4096)) \<longrightarrow> vmm_get_pte m' cr3 v' = vmm_get_pte m cr3 v')
    \<and> tables_wf m' cr3"
proof -
  have av: "v AND PAGE_MASK = v" "ph AND PAGE_MASK = ph" using al by (simp_all add: aligned_def)
  have u: "unat (of_nat (n * PAGE_SIZE) + (0xFFF :: u64)) = n * PAGE_SIZE + 4095"
    using n by (simp add: unat_word_ariths unat_of_nat take_bit_eq_mod)
  have e: "x + (v - (v AND PAGE_MASK)) + 4096 - 1 = x + 0xFFF" for x :: u64
    unfolding av by simp
  have sz: "unat ((of_nat (n * PAGE_SIZE) + (v - (v AND PAGE_MASK)) + 4096 - 1 :: u64) AND PAGE_MASK) div PAGE_SIZE = n"
    unfolding e unat_page_mask u by simp
  define bs where "bs = map (\<lambda>i. (v + of_nat i * 4096, (ph + of_nat i * 4096) OR flags)) [0..<n]"
  have run: "bind_all (\<lambda>v e. vmm_map_page_by_cr3 cr3 v e 0) bs m = (True, m')"
    using call sz av map_pages_bind_all [OF wf(2), of v ph n flags m] unfolding vmm_map_range_def Let_def bs_def by simp
  have vp: "vpn (v + of_nat i * 4096) \<noteq> vpn (v + of_nat j * 4096)" if "i < j" "j < n" for i j
  proof
    assume "vpn (v + of_nat i * 4096) = vpn (v + of_nat j * 4096)"
    then have "(vpn v + i) mod 2 ^ 36 = (vpn v + j) mod 2 ^ 36" using vpn_offset [OF al(1)] by simp
    then have "(2 ^ 36 :: nat) dvd (vpn v + j) - (vpn v + i)"
      by (intro iffD1 [OF mod_eq_dvd_iff_nat]) (use that(1) in simp_all)
    then have "(2 ^ 36 :: nat) dvd j - i" by simp
    then have "(2 ^ 36 :: nat) \<le> j - i" using that(1) by (intro dvd_imp_le) simp_all
    then show False using that n by linarith
  qed
  have srt: "sorted_wrt (\<lambda>a b. \<not> same_page (fst b) (fst a)) bs"
    unfolding bs_def sorted_wrt_map using vp [symmetric] by (simp add: sorted_wrt_iff_nth_less vpn_same_page)
  have pres: "\<forall>b \<in> set bs. has_flag (snd b) PTE_PRESENT" using pr by (auto simp: bs_def)
  have "vmm_get_pte m' cr3 (v + of_nat i * 4096) = (ph + of_nat i * 4096) OR flags" if "i < n"
    using vas.bind_all_look [OF wf(1) run srt pres, of "(v + of_nat i * 4096, (ph + of_nat i * 4096) OR flags)"] that
    by (simp add: bs_def)
  moreover have "tables_wf m' cr3 \<and> vmm_get_pte m' cr3 v' = vmm_get_pte m cr3 v'"
    if far: "\<forall>i < n. vpn v' \<noteq> vpn (v + of_nat i * 4096)"
  proof (rule vas.bind_all_other [OF wf(1) run], rule ballI)
    fix b
    assume "b \<in> set bs"
    then obtain i where "i < n" "fst b = v + of_nat i * 4096" by (auto simp: bs_def)
    with far show "\<not> same_page (fst b) v'" unfolding vpn_same_page by metis
  qed
  moreover have "tables_wf m' cr3" using vas.bind_all_inv [OF wf(1) run] .
  ultimately show ?thesis by blast
qed

lemma map_pages_one:
  "cr3 \<noteq> NULL \<Longrightarrow> map_pages cr3 v ph 1 flags m = vmm_map_page_by_cr3 cr3 v ph flags m"
  by (simp add: vmm_map_page_def split: prod.splits)

lemma vmm_map_range_correct_witness:
  "vmm_get_pte (snd (vmm_map_range 0x2000 0x400000 0x8000 0x1000 7 demo_mm)) 0x2000 0x400000 = 0x8007"
proof -
  have f: "has_flag 7 PTE_PRESENT" by (simp add: has_flag_def PTE_PRESENT_def)
  have al: "aligned 0x400000" "aligned 0x8000" by (simp_all add: aligned_def PAGE_MASK_def)
  have eq: "vmm_map_range 0x2000 0x400000 0x8000 0x1000 7 demo_mm = vmm_map_page_by_cr3 0x2000 0x400000 0x8000 7 demo_mm"
    using map_pages_one [of "0x2000" "0x400000" "0x8000" 7 demo_mm] by (simp add: vmm_map_range_def PAGE_MASK_def)
  have "fst (vmm_map_page_by_cr3 0x2000 0x400000 0x8000 7 demo_mm)"
    by (rule map_page_succeeds) (simp_all add: demo_mm_facts)
  then obtain m where c0: "vmm_map_page_by_cr3 0x2000 0x400000 0x8000 7 demo_mm = (True, m)"
    by (cases "vmm_map_page_by_cr3 0x2000 0x400000 0x8000 7 demo_mm") simp
  have c: "vmm_map_range 0x2000 0x400000 0x8000 (of_nat (1 * PAGE_SIZE)) 7 demo_mm = (True, m)"
    using eq c0 by simp
  from vmm_map_range_correct [OF demo_mm_wf _ f al _ c, of 0] c show ?thesis by simp
qed

section \<open>Finding unused addresses\<close>

lemma reserve_unat:
  assumes "c \<le> 2 ^ 34 + 1"
  shows "unat (VMM_USER_SEARCH_BOTTOM + of_nat c * 4096) = 0x100000000000 + c * PAGE_SIZE"
  using assms by (simp add: VMM_USER_SEARCH_BOTTOM_def unat_word_ariths unat_of_nat take_bit_eq_mod)

definition reserve_occ :: "'a mm_state_scheme \<Rightarrow> u64 \<Rightarrow> nat \<Rightarrow> bool" where
  "reserve_occ m cr3 c \<longleftrightarrow> vmm_get_pte m cr3 (VMM_USER_SEARCH_BOTTOM + of_nat c * 4096) \<noteq> 0"

text \<open>The search region has \<open>2 ^ 34\<close> pages.\<close>

lemma reserve_stop:
  assumes "0 < n" "n \<le> 2 ^ 34" "c \<le> 2 ^ 34"
  shows "VMM_USER_SEARCH_BOTTOM + of_nat c * 4096 \<le> VMM_USER_SEARCH_TOP - of_nat n * 4096 \<longleftrightarrow> c + n \<le> 2 ^ 34"
proof -
  have n: "unat (of_nat n * 4096 :: u64) = n * PAGE_SIZE"
    using assms by (simp add: unat_word_ariths unat_of_nat take_bit_eq_mod)
  then have "unat (VMM_USER_SEARCH_TOP - of_nat n * 4096) = 0x500000000000 - n * PAGE_SIZE"
    using assms by (simp add: unat_sub_if' VMM_USER_SEARCH_TOP_def)
  then show ?thesis using reserve_unat [of c] assms unfolding word_le_nat_alt by auto
qed

lemma reserve_loop_spec:
  assumes n: "0 < n" "n \<le> 2 ^ 34"
  shows "c \<le> 2 ^ 34 \<Longrightarrow> \<exists>r. reserve_loop m cr3 n (VMM_USER_SEARCH_TOP - of_nat n * 4096) (VMM_USER_SEARCH_BOTTOM + of_nat c * 4096) = Some r
    \<and> (if \<exists>d. c \<le> d \<and> d + n \<le> 2 ^ 34 \<and> (\<forall>p < n. \<not> reserve_occ m cr3 (d + p))
       then \<exists>d. (c \<le> d \<and> d + n \<le> 2 ^ 34 \<and> (\<forall>p < n. \<not> reserve_occ m cr3 (d + p))) \<and> r = VMM_USER_SEARCH_BOTTOM + of_nat d * 4096
       else r = 0)"
proof (induction "2 ^ 34 - c" arbitrary: c rule: less_induct)
  case less
  define cur where "cur = VMM_USER_SEARCH_BOTTOM + of_nat c * 4096"
  define stop where "stop = VMM_USER_SEARCH_TOP - of_nat n * 4096"
  let ?win = "\<lambda>d. d + n \<le> 2 ^ 34 \<and> (\<forall>p < n. \<not> reserve_occ m cr3 (d + p))"
  have occ: "vmm_get_pte m cr3 (cur + of_nat p * 4096) \<noteq> 0 \<longleftrightarrow> reserve_occ m cr3 (c + p)" for p
    by (simp add: cur_def reserve_occ_def algebra_simps)
  have le: "cur \<le> stop \<longleftrightarrow> c + n \<le> 2 ^ 34" unfolding cur_def stop_def by (rule reserve_stop [OF n less.prems])
  show ?case
  proof (cases "c + n \<le> 2 ^ 34")
    case False
    then have "reserve_loop m cr3 n stop cur = Some 0" using le by (simp add: reserve_loop.simps)
    moreover have "\<not> (\<exists>d. c \<le> d \<and> ?win d)" using False by auto
    ultimately show ?thesis unfolding cur_def stop_def by auto
  next
    case True
    show ?thesis
    proof (cases "first_from (\<lambda>p. reserve_occ m cr3 (c + p)) 0 n")
      case None
      then have free: "\<not> reserve_occ m cr3 (c + p)" if "p < n" for p
        using first_from_NoneD [OF None, of p] that by simp
      have "reserve_loop m cr3 n stop cur = Some cur" using le True None occ by (simp add: reserve_loop.simps)
      moreover have "?win c" using True free by blast
      ultimately show ?thesis unfolding cur_def stop_def by (auto intro!: exI [of _ c])
    next
      case (Some p)
      then have p: "p < n" "reserve_occ m cr3 (c + p)" using first_from_SomeD [OF Some] by auto
      have next': "cur + of_nat p * 4096 + 4096 = VMM_USER_SEARCH_BOTTOM + of_nat (c + p + 1) * 4096"
        by (simp add: cur_def algebra_simps)
      have step: "reserve_loop m cr3 n stop cur = reserve_loop m cr3 n stop (VMM_USER_SEARCH_BOTTOM + of_nat (c + p + 1) * 4096)"
        using le True Some occ by (simp add: reserve_loop.simps [of m cr3 n stop cur] next' del: of_nat_add)
      have skip: "(c \<le> d \<and> ?win d) \<longleftrightarrow> (c + p + 1 \<le> d \<and> ?win d)" for d
      proof
        assume d: "c \<le> d \<and> ?win d"
        have "\<not> d \<le> c + p"
        proof
          assume "d \<le> c + p"
          then have "c + p - d < n" "d + (c + p - d) = c + p" using d p(1) by linarith+
          then show False using d p(2) by metis
        qed
        then show "c + p + 1 \<le> d \<and> ?win d" using d by simp
      qed simp
      have "2 ^ 34 - (c + p + 1) < 2 ^ 34 - c" "c + p + 1 \<le> 2 ^ 34" using p(1) True n by linarith+
      from less.hyps [OF this] show ?thesis
        unfolding cur_def [symmetric] stop_def [symmetric] step skip .
    qed
  qed
qed



section \<open>Destroying an address space\<close>


definition demo_nx_mm :: mm_state where
  "demo_nx_mm = demo_mm\<lparr>bitmap := [0x27, 0xF3], pp_refcounts := [0, 0, 1, 0, 0, 1, 0, 0, 1, 0, 0, 0],
    frames := (\<lambda>f i. if f = 0x5000 \<and> i = 0 then 0x8000000000008007 else 0)\<rparr>"


end
