(* ===== verification/Cow.thy ===== *)
theory Cow
  imports Vmm
begin

text \<open>
  Copy-on-write tracking (kernel/snap/cow_fault.c). A hash table counts how many snapshots hold a
  physical page; a write fault on a tracked read-only page gives the faulting address space a private
  copy. A bucket chain is a list in chain order. The theory shows that the table is a map from pages
  to counts and what a handled fault does to the page tables, the frames and the allocator.
\<close>

section \<open>The table of tracked pages\<close>

record cow_page_tracker =
  ct_phys_page :: u64
  ct_refcount :: u32
  ct_owner_snap_id :: u64

record cow_state = mm_state +
  g_cow_buckets :: "nat \<Rightarrow> cow_page_tracker list"
  g_cow_tracker_cache :: bool
  g_cow_tracker_count :: u32

abbreviation COW_HASH_BUCKETS :: nat where "COW_HASH_BUCKETS \<equiv> 256"

definition PHYS_ADDR_MASK :: u64 where "PHYS_ADDR_MASK = 0x000FFFFFFFFFF000"

definition cow_hash :: "u64 \<Rightarrow> nat" where
  "cow_hash phys = unat (drop_bit 12 phys AND (of_nat COW_HASH_BUCKETS - 1))"

text \<open>\<open>cache_ok\<close> says whether the slab cache could be created.\<close>

definition cow_init :: "bool \<Rightarrow> 'a cow_state_scheme \<Rightarrow> 'a cow_state_scheme" where
  "cow_init cache_ok s =
    (if g_cow_tracker_cache s then s
     else if \<not> cache_ok then s
     else s\<lparr>g_cow_tracker_cache := True,
            g_cow_buckets := (\<lambda>i. if i < COW_HASH_BUCKETS then [] else g_cow_buckets s i)\<rparr>)"

definition cow_lookup_locked :: "u64 \<Rightarrow> 'a cow_state_scheme \<Rightarrow> cow_page_tracker option" where
  "cow_lookup_locked phys s = find (\<lambda>t. ct_phys_page t = phys) (g_cow_buckets s (cow_hash phys))"

text \<open>The tracker a lookup found is the first one of its page; it is updated or unlinked in place.\<close>

fun update_first :: "u64 \<Rightarrow> (cow_page_tracker \<Rightarrow> cow_page_tracker) \<Rightarrow> cow_page_tracker list \<Rightarrow> cow_page_tracker list" where
  "update_first phys f [] = []"
| "update_first phys f (t # ts) = (if ct_phys_page t = phys then f t # ts else t # update_first phys f ts)"

fun remove_first :: "u64 \<Rightarrow> cow_page_tracker list \<Rightarrow> cow_page_tracker list" where
  "remove_first phys [] = []"
| "remove_first phys (t # ts) = (if ct_phys_page t = phys then ts else t # remove_first phys ts)"

definition upd_bucket ::
  "u64 \<Rightarrow> (cow_page_tracker list \<Rightarrow> cow_page_tracker list) \<Rightarrow> 'a cow_state_scheme \<Rightarrow> 'a cow_state_scheme" where
  "upd_bucket phys f s =
    s\<lparr>g_cow_buckets := (g_cow_buckets s)(cow_hash phys := f (g_cow_buckets s (cow_hash phys)))\<rparr>"

definition cow_unlink_locked :: "u64 \<Rightarrow> 'a cow_state_scheme \<Rightarrow> 'a cow_state_scheme" where
  "cow_unlink_locked phys s = upd_bucket phys (remove_first phys) s"

definition count_up :: "cow_page_tracker \<Rightarrow> cow_page_tracker" where
  "count_up t = (if ct_refcount t < 0xFFFFFFFF then t\<lparr>ct_refcount := ct_refcount t + 1\<rparr> else t)"

text \<open>\<open>slab\<close> says whether the slab allocator has a tracker to give; the result says whether there is one.\<close>

definition cow_page_tracker_get :: "bool \<Rightarrow> u64 \<Rightarrow> 'a cow_state_scheme \<Rightarrow> bool \<times> 'a cow_state_scheme" where
  "cow_page_tracker_get slab phys0 s =
    (if \<not> g_cow_tracker_cache s then (False, s)
     else
      let phys = phys0 AND PAGE_MASK in
      if phys = 0 then (False, s)
      else case cow_lookup_locked phys s of
        Some t \<Rightarrow> (True, upd_bucket phys (update_first phys count_up) s)
      | None \<Rightarrow>
         if \<not> slab then (False, s)
         else
          let fresh = \<lparr>ct_phys_page = phys, ct_refcount = 1, ct_owner_snap_id = 0\<rparr> in
          case cow_lookup_locked phys s of
            Some winner \<Rightarrow> (True, upd_bucket phys (update_first phys count_up) s)
          | None \<Rightarrow>
             (True, (upd_bucket phys (\<lambda>ts. fresh # ts) s)\<lparr>g_cow_tracker_count := g_cow_tracker_count s + 1\<rparr>))"

definition cow_page_tracker_bump :: "bool \<Rightarrow> u64 \<Rightarrow> 'a cow_state_scheme \<Rightarrow> 'a cow_state_scheme" where
  "cow_page_tracker_bump slab phys s = snd (cow_page_tracker_get slab phys s)"

definition count_down :: "cow_page_tracker \<Rightarrow> cow_page_tracker" where
  "count_down t = (if ct_refcount t > 0 then t\<lparr>ct_refcount := ct_refcount t - 1\<rparr> else t)"

definition cow_page_tracker_put :: "u64 \<Rightarrow> 'a cow_state_scheme \<Rightarrow> 'a cow_state_scheme" where
  "cow_page_tracker_put phys0 s =
    (if \<not> g_cow_tracker_cache s then s
     else
      let phys = phys0 AND PAGE_MASK in
      if phys = 0 then s
      else case cow_lookup_locked phys s of
        None \<Rightarrow> s
      | Some t \<Rightarrow>
         let s = upd_bucket phys (update_first phys count_down) s in
         if ct_refcount (count_down t) = 0
         then (cow_unlink_locked phys s)\<lparr>g_cow_tracker_count := g_cow_tracker_count s - 1\<rparr>
         else s)"

section \<open>The fault handler\<close>

text \<open>\<open>cur\<close> is the root of the page tables of the current task, \<open>None\<close> when there is no current task.\<close>

definition cow_fault_handle :: "u64 option \<Rightarrow> u64 \<Rightarrow> u64 \<Rightarrow> 'a cow_state_scheme \<Rightarrow> int \<times> 'a cow_state_scheme" where
  "cow_fault_handle cur fault_va error_code s =
    (if error_code AND 2 = 0 \<or> error_code AND 1 = 0 then (- 1, s)
     else case cur of
       None \<Rightarrow> (- 1, s)
     | Some cr3 \<Rightarrow>
        let page_va = fault_va AND PAGE_MASK; pte = vmm_get_pte s cr3 page_va in
        if pte = 0 then (- 1, s)
        else if \<not> has_flag pte PTE_USER then (- 1, s)
        else if has_flag pte PTE_WRITABLE then (- 1, s)
        else
         let old_phys = pte AND PHYS_ADDR_MASK; old_flags = pte AND NOT PHYS_ADDR_MASK in
         case cow_lookup_locked old_phys s of
           None \<Rightarrow> (- 1, s)
         | Some t \<Rightarrow>
            let (new_phys, s) = pmm_alloc_page s in
            if new_phys = NULL then (- 1, s)
            else
             let s = copy_frame new_phys old_phys s;
                 s = vmm_unmap_page_by_cr3 cr3 page_va s;
                 s = pmm_page_unref old_phys s;
                 (ok, s) = vmm_map_page_by_cr3 cr3 page_va new_phys (old_flags OR PTE_WRITABLE) s
             in if \<not> ok then (- 1, pmm_free_page new_phys s) else (0, s))"

definition snap_cow_pf_dispatch :: "u64 option \<Rightarrow> u64 \<Rightarrow> u64 \<Rightarrow> 'a cow_state_scheme \<Rightarrow> int \<times> 'a cow_state_scheme" where
  "snap_cow_pf_dispatch cur fault_va error_code s =
    (if g_cow_tracker_count s = 0 then (- 1, s)
     else if error_code AND 2 = 0 \<or> error_code AND 1 = 0 then (- 1, s)
     else cow_fault_handle cur fault_va error_code s)"

section \<open>The table is a map of counts\<close>

definition tracker_refs :: "'a cow_state_scheme \<Rightarrow> u64 \<Rightarrow> nat option" where
  "tracker_refs s phys = map_option (\<lambda>t. unat (ct_refcount t)) (cow_lookup_locked phys s)"

definition tracked :: "'a cow_state_scheme \<Rightarrow> cow_page_tracker list" where
  "tracked s = concat (map (g_cow_buckets s) [0..<COW_HASH_BUCKETS])"

definition cow_wf :: "'a cow_state_scheme \<Rightarrow> bool" where
  "cow_wf s \<longleftrightarrow> (\<forall>i < COW_HASH_BUCKETS. distinct (map ct_phys_page (g_cow_buckets s i))
      \<and> (\<forall>t \<in> set (g_cow_buckets s i). cow_hash (ct_phys_page t) = i \<and> 0 < ct_refcount t))
    \<and> g_cow_tracker_count s = of_nat (length (tracked s))"

lemma cow_hash_lt: "cow_hash phys < COW_HASH_BUCKETS"
proof -
  have "drop_bit 12 phys AND 0xFF \<le> (0xFF :: u64)" by (rule word_and_le1)
  then have "unat (drop_bit 12 phys AND 0xFF) \<le> unat (0xFF :: u64)" by (simp only: word_le_nat_alt)
  then show ?thesis by (simp add: cow_hash_def)
qed

lemma find_update_first:
  "(\<And>t. ct_phys_page (f t) = ct_phys_page t) \<Longrightarrow> find (\<lambda>t. ct_phys_page t = q) (update_first p f ts)
    = (if q = p then map_option f (find (\<lambda>t. ct_phys_page t = q) ts) else find (\<lambda>t. ct_phys_page t = q) ts)"
  by (induction ts) auto

lemma find_remove_first:
  "distinct (map ct_phys_page ts) \<Longrightarrow> find (\<lambda>t. ct_phys_page t = q) (remove_first p ts)
    = (if q = p then None else find (\<lambda>t. ct_phys_page t = q) ts)"
  by (induction ts) (auto simp: find_None_iff image_iff)

lemma map_update_first:
  "(\<And>t. ct_phys_page (f t) = ct_phys_page t) \<Longrightarrow> map ct_phys_page (update_first p f ts) = map ct_phys_page ts"
  by (induction ts) auto

lemma length_update_first [simp]: "length (update_first p f ts) = length ts"
  by (induction ts) auto

lemma length_remove_first: "find (\<lambda>t. ct_phys_page t = p) ts \<noteq> None \<Longrightarrow> length ts = Suc (length (remove_first p ts))"
  by (induction ts) auto

lemma set_update_first: "t \<in> set (update_first p f ts) \<Longrightarrow> t \<in> set ts \<or> (\<exists>u \<in> set ts. ct_phys_page u = p \<and> t = f u)"
  by (induction ts) (auto split: if_splits)

lemma set_remove_first: "set (remove_first p ts) \<subseteq> set ts"
  by (induction ts) auto

lemma distinct_remove_first: "distinct (map ct_phys_page ts) \<Longrightarrow> distinct (map ct_phys_page (remove_first p ts))"
  using set_remove_first by (induction ts) fastforce+

lemma count_steps [simp]: "ct_phys_page (count_up t) = ct_phys_page t" "ct_phys_page (count_down t) = ct_phys_page t"
  by (simp_all add: count_up_def count_down_def)

lemma remove_update_first:
  "(\<And>t. ct_phys_page (f t) = ct_phys_page t) \<Longrightarrow> remove_first p (update_first p f ts) = remove_first p ts"
  by (induction ts) auto

lemma upd_bucket_sel [simp]:
  "g_cow_buckets (upd_bucket p f s) = (g_cow_buckets s)(cow_hash p := f (g_cow_buckets s (cow_hash p)))"
  "g_cow_tracker_cache (upd_bucket p f s) = g_cow_tracker_cache s" "g_cow_tracker_count (upd_bucket p f s) = g_cow_tracker_count s"
  by (simp_all add: upd_bucket_def)

text \<open>How many trackers there are after one bucket changed.\<close>

lemma length_tracked: "length (tracked s) = sum (\<lambda>i. length (g_cow_buckets s i)) {..<COW_HASH_BUCKETS}"
  by (simp add: tracked_def length_concat comp_def sum_list_sum_nth atLeast0LessThan del: upt_rec_numeral)

lemma length_tracked_upd:
  "length (tracked (upd_bucket p f s)) + length (g_cow_buckets s (cow_hash p))
    = length (tracked s) + length (f (g_cow_buckets s (cow_hash p)))"
proof -
  let ?h = "cow_hash p"
  have h: "?h \<in> {..<COW_HASH_BUCKETS}" using cow_hash_lt by simp
  let ?g = "\<lambda>s. sum (\<lambda>i. length (g_cow_buckets s i)) ({..<COW_HASH_BUCKETS} - {?h})"
  have "?g (upd_bucket p f s) = ?g s" by (rule sum.cong) auto
  then show ?thesis unfolding length_tracked sum.remove [OF finite_lessThan h] by simp
qed

lemma bucket_facts:
  assumes "cow_wf s"
  shows "distinct (map ct_phys_page (g_cow_buckets s (cow_hash p)))"
    "t \<in> set (g_cow_buckets s (cow_hash p)) \<Longrightarrow> cow_hash (ct_phys_page t) = cow_hash p \<and> 0 < ct_refcount t"
  using assms cow_hash_lt [of p] by (auto simp: cow_wf_def)

lemma cow_wf_upd:
  assumes wf: "cow_wf s" and d: "distinct (map ct_phys_page (f (g_cow_buckets s (cow_hash p))))"
    and m: "\<And>t. t \<in> set (f (g_cow_buckets s (cow_hash p))) \<Longrightarrow> cow_hash (ct_phys_page t) = cow_hash p \<and> 0 < ct_refcount t"
    and c: "c + of_nat (length (g_cow_buckets s (cow_hash p))) = g_cow_tracker_count s + of_nat (length (f (g_cow_buckets s (cow_hash p))))"
  shows "cow_wf ((upd_bucket p f s)\<lparr>g_cow_tracker_count := c\<rparr>)"
proof -
  have t: "tracked ((upd_bucket p f s)\<lparr>g_cow_tracker_count := c\<rparr>) = tracked (upd_bucket p f s)" by (simp add: tracked_def)
  have "c + of_nat (length (g_cow_buckets s (cow_hash p))) = of_nat (length (tracked s) + length (f (g_cow_buckets s (cow_hash p))))"
    using wf c by (simp add: cow_wf_def)
  also have "\<dots> = of_nat (length (tracked (upd_bucket p f s))) + of_nat (length (g_cow_buckets s (cow_hash p)))"
    unfolding length_tracked_upd [symmetric] by simp
  finally have "c = of_nat (length (tracked (upd_bucket p f s)))" by simp
  then show ?thesis using wf d m unfolding cow_wf_def t by auto
qed

lemma unat_count_up: "unat (ct_refcount (count_up t)) = min (2 ^ 32 - 1) (unat (ct_refcount t) + 1)"
proof (cases "ct_refcount t < 0xFFFFFFFF")
  case True
  then have u: "unat (ct_refcount t) < 2 ^ 32 - 1" by (simp add: word_less_nat_alt)
  then have "unat (ct_refcount t + 1) = unat (ct_refcount t) + 1" by (simp add: unat_word_ariths)
  with True u show ?thesis by (simp add: count_up_def)
next
  case False
  moreover have "unat (ct_refcount t) < 2 ^ 32" using unsigned_less [of "ct_refcount t", where ?'a = nat] by simp
  ultimately show ?thesis by (simp add: count_up_def word_less_nat_alt)
qed

lemma count_pos: "0 < ct_refcount (count_up t)"
  unfolding word_less_nat_alt unat_count_up by simp

lemma unat_count_down: "0 < ct_refcount t \<Longrightarrow> unat (ct_refcount (count_down t)) = unat (ct_refcount t) - 1"
  by (simp add: count_down_def word_gt_0 unat_minus_one)

lemma lookup_upd:
  "cow_lookup_locked q ((upd_bucket p f s)\<lparr>g_cow_tracker_count := c\<rparr>) =
    (if cow_hash q = cow_hash p then find (\<lambda>t. ct_phys_page t = q) (f (g_cow_buckets s (cow_hash p))) else cow_lookup_locked q s)"
  by (simp add: cow_lookup_locked_def)

lemma upd_bucket_count: "upd_bucket p f s = (upd_bucket p f s)\<lparr>g_cow_tracker_count := g_cow_tracker_count s\<rparr>"
  by (simp add: upd_bucket_def)

text \<open>The two operations on counts; the rest of the state does not change.\<close>

lemma tracker_get_spec:
  assumes wf: "cow_wf s" "g_cow_tracker_cache s" and p: "aligned p" "p \<noteq> 0"
  shows "\<exists>b c. cow_page_tracker_bump True p s = s\<lparr>g_cow_buckets := b, g_cow_tracker_count := c\<rparr>"
    and "cow_wf (cow_page_tracker_bump True p s)"
    and "tracker_refs (cow_page_tracker_bump True p s) =
      (tracker_refs s)(p \<mapsto> (case tracker_refs s p of None \<Rightarrow> 1 | Some n \<Rightarrow> min (2 ^ 32 - 1) (n + 1)))"
proof -
  have al: "p AND PAGE_MASK = p" using p by (simp add: aligned_def)
  let ?B = "g_cow_buckets s (cow_hash p)"
  let ?f = "case cow_lookup_locked p s of None \<Rightarrow> (\<lambda>ts. \<lparr>ct_phys_page = p, ct_refcount = 1, ct_owner_snap_id = 0\<rparr> # ts)
    | Some t \<Rightarrow> update_first p count_up"
  let ?c = "case cow_lookup_locked p s of None \<Rightarrow> g_cow_tracker_count s + 1 | Some t \<Rightarrow> g_cow_tracker_count s"
  have e: "cow_page_tracker_bump True p s = (upd_bucket p ?f s)\<lparr>g_cow_tracker_count := ?c\<rparr>"
    using wf(2) al p by (auto simp: cow_page_tracker_bump_def cow_page_tracker_get_def upd_bucket_def split: option.splits)
  then show "\<exists>b c. cow_page_tracker_bump True p s = s\<lparr>g_cow_buckets := b, g_cow_tracker_count := c\<rparr>"
    by (auto simp: upd_bucket_def)
  note F = bucket_facts [OF wf(1), where p = p]
  show "cow_wf (cow_page_tracker_bump True p s)"
    unfolding e
  proof (rule cow_wf_upd [OF wf(1)])
    show "distinct (map ct_phys_page (?f ?B))"
      using F(1) by (auto simp: map_update_first cow_lookup_locked_def find_None_iff split: option.split)
    show "cow_hash (ct_phys_page t) = cow_hash p \<and> 0 < ct_refcount t" if t: "t \<in> set (?f ?B)" for t
    proof (cases "t \<in> set ?B")
      case False
      with t set_update_first [of t p count_up ?B] have "ct_phys_page t = p \<and> 0 < ct_refcount t"
        using count_pos by (cases "cow_lookup_locked p s") auto
      then show ?thesis by simp
    qed (rule F(2))
    show "?c + of_nat (length ?B) = g_cow_tracker_count s + of_nat (length (?f ?B))"
      by (simp split: option.split)
  qed
  show "tracker_refs (cow_page_tracker_bump True p s) =
      (tracker_refs s)(p \<mapsto> (case tracker_refs s p of None \<Rightarrow> 1 | Some n \<Rightarrow> min (2 ^ 32 - 1) (n + 1)))"
  proof
    fix q
    show "tracker_refs (cow_page_tracker_bump True p s) q =
        ((tracker_refs s)(p \<mapsto> (case tracker_refs s p of None \<Rightarrow> 1 | Some n \<Rightarrow> min (2 ^ 32 - 1) (n + 1)))) q"
      unfolding e tracker_refs_def lookup_upd
      by (cases "cow_lookup_locked p s")
        (auto simp: cow_lookup_locked_def find_update_first unat_count_up option.map_comp comp_def)
  qed
qed

lemma tracker_put_spec:
  assumes wf: "cow_wf s" "g_cow_tracker_cache s" and p: "aligned p" "p \<noteq> 0"
  shows "\<exists>b c. cow_page_tracker_put p s = s\<lparr>g_cow_buckets := b, g_cow_tracker_count := c\<rparr>"
    and "cow_wf (cow_page_tracker_put p s)"
    and "tracker_refs (cow_page_tracker_put p s) =
      (case tracker_refs s p of None \<Rightarrow> tracker_refs s
       | Some n \<Rightarrow> (tracker_refs s)(p := (if n \<le> 1 then None else Some (n - 1))))"
proof -
  have al: "p AND PAGE_MASK = p" using p by (simp add: aligned_def)
  let ?B = "g_cow_buckets s (cow_hash p)"
  show "\<exists>b c. cow_page_tracker_put p s = s\<lparr>g_cow_buckets := b, g_cow_tracker_count := c\<rparr>"
    by (intro exI [of _ "g_cow_buckets (cow_page_tracker_put p s)"] exI [of _ "g_cow_tracker_count (cow_page_tracker_put p s)"])
      (simp add: cow_page_tracker_put_def Let_def upd_bucket_def cow_unlink_locked_def split: option.split)
  note F = bucket_facts [OF wf(1), where p = p]
  have "cow_wf (cow_page_tracker_put p s) \<and> tracker_refs (cow_page_tracker_put p s) =
      (case tracker_refs s p of None \<Rightarrow> tracker_refs s
       | Some n \<Rightarrow> (tracker_refs s)(p := (if n \<le> 1 then None else Some (n - 1))))"
  proof (cases "cow_lookup_locked p s")
    case None
    then show ?thesis using wf al p by (simp add: cow_page_tracker_put_def tracker_refs_def)
  next
    case (Some t)
    then have t: "t \<in> set ?B" by (auto simp: cow_lookup_locked_def find_Some_iff)
    then have pos: "0 < ct_refcount t" using F(2) by blast
    let ?one = "ct_refcount (count_down t) = 0"
    let ?f = "if ?one then remove_first p else update_first p count_down"
    let ?c = "if ?one then g_cow_tracker_count s - 1 else g_cow_tracker_count s"
    have e: "cow_page_tracker_put p s = (upd_bucket p ?f s)\<lparr>g_cow_tracker_count := ?c\<rparr>"
      using wf(2) al p Some
      by (simp add: cow_page_tracker_put_def Let_def upd_bucket_def cow_unlink_locked_def remove_update_first)
    have u: "?one \<longleftrightarrow> unat (ct_refcount t) \<le> 1"
      using unat_count_down [OF pos] pos by (simp add: unat_eq_0 [symmetric] word_less_nat_alt)
    have uniq: "u = t" if "u \<in> set ?B" "ct_phys_page u = p" for u
      using that t F(1) Some by (auto simp: cow_lookup_locked_def find_Some_iff distinct_map inj_on_def)
    have "cow_wf (cow_page_tracker_put p s)"
      unfolding e
    proof (rule cow_wf_upd [OF wf(1)])
      show "distinct (map ct_phys_page (?f ?B))" using F(1) by (simp add: map_update_first distinct_remove_first)
      show "cow_hash (ct_phys_page u) = cow_hash p \<and> 0 < ct_refcount u" if u: "u \<in> set (?f ?B)" for u
      proof (cases "u \<in> set ?B")
        case False
        with u set_update_first [of u p count_down ?B] set_remove_first [of p ?B]
        obtain x where x: "\<not> ?one" "x \<in> set ?B" "ct_phys_page x = p" "u = count_down x" by (auto split: if_splits)
        with uniq [OF x(2,3)] show ?thesis by (simp add: word_gt_0)
      qed (rule F(2))
      show "?c + of_nat (length ?B) = g_cow_tracker_count s + of_nat (length (?f ?B))"
        using length_remove_first [of p ?B] Some by (auto simp: cow_lookup_locked_def)
    qed
    moreover have "tracker_refs (cow_page_tracker_put p s) q =
        ((tracker_refs s)(p := (if unat (ct_refcount t) \<le> 1 then None else Some (unat (ct_refcount t) - 1)))) q" for q
      unfolding e tracker_refs_def lookup_upd
      using Some F(1) u unat_count_down [OF pos]
      by (auto simp: cow_lookup_locked_def find_update_first find_remove_first option.map_comp comp_def)
    ultimately show ?thesis using Some by (simp add: tracker_refs_def fun_eq_iff)
  qed
  then show "cow_wf (cow_page_tracker_put p s)" and "tracker_refs (cow_page_tracker_put p s) =
      (case tracker_refs s p of None \<Rightarrow> tracker_refs s
       | Some n \<Rightarrow> (tracker_refs s)(p := (if n \<le> 1 then None else Some (n - 1))))" by blast+
qed

section \<open>Entries of a page table\<close>

text \<open>Where the tables of a page exist, all three operations write its entry.\<close>

definition has_path :: "'a mm_state_scheme \<Rightarrow> u64 \<Rightarrow> u64 \<Rightarrow> bool" where
  "has_path m cr3 v \<longleftrightarrow> tabs m cr3 (path3 v) \<noteq> None"

definition set_leaf :: "u64 \<Rightarrow> u64 \<Rightarrow> u64 \<Rightarrow> 'a mm_state_scheme \<Rightarrow> 'a mm_state_scheme" where
  "set_leaf cr3 v w m = (case tabs m cr3 (path3 v) of None \<Rightarrow> m | Some t \<Rightarrow> put_word t (pt_index v) w m)"

lemma get_pte_path: "vmm_get_pte m cr3 v \<noteq> 0 \<Longrightarrow> has_path m cr3 v"
  by (auto simp: get_pte_leaf leaf_def has_path_def split: option.splits)

lemma get_pte_present: "vmm_get_pte m cr3 v \<noteq> 0 \<Longrightarrow> has_flag (vmm_get_pte m cr3 v) PTE_PRESENT"
  by (auto simp: get_pte_leaf leaf_def split: option.splits if_splits)

lemma unmap_set_leaf: "vmm_unmap_page_by_cr3 cr3 v m = set_leaf cr3 v 0 m"
  by (simp add: vmm_unmap_page_by_cr3_def walk_tabs set_leaf_def split: option.split)

lemma ensure_present: "has_flag (frames m t i) PTE_PRESENT \<Longrightarrow> ensure_table t i m = (True, m)"
  by (simp add: ensure_table_def)

lemma map_set_leaf:
  assumes "has_path m cr3 v"
  shows "vmm_map_page_by_cr3 cr3 v phys flags m = (True, set_leaf cr3 v (phys OR flags) m)"
  using assms
  by (auto simp: has_path_def path3_def set_leaf_def vmm_map_page_by_cr3_def ensure_present Let_def split: if_splits)

lemma protect_set_leaf:
  assumes "vmm_get_pte m cr3 v \<noteq> 0"
  shows "vmm_protect_page_by_cr3 cr3 v fl m =
    (True, set_leaf cr3 v ((vmm_get_pte m cr3 v AND PAGE_MASK) OR (fl AND NOT PAGE_MASK) OR PTE_PRESENT) m)"
  using assms
  by (auto simp: get_pte_leaf leaf_def vmm_protect_page_by_cr3_def walk_tabs set_leaf_def split: option.splits if_splits)

lemma set_leaf_pmm [simp]:
  "page_refs (set_leaf cr3 v w m) = page_refs m" "total_pages (set_leaf cr3 v w m) = total_pages m"
  "pmm_sized (set_leaf cr3 v w m) = pmm_sized m" "mm_state.more (set_leaf cr3 v w m) = mm_state.more m"
  "live_frame (set_leaf cr3 v w m) f = live_frame m f"
  by (auto simp: set_leaf_def put_word_def frames_pmm live_frame_def split: option.split)

lemma set_leaf_tabs:
  assumes "tables_wf m cr3" "ok_path p"
  shows "tabs (set_leaf cr3 v w m) cr3 p = tabs m cr3 p"
  using tabs_put_leaf [OF assms(1) path3_ok(1,2) _ assms(2)] by (simp add: set_leaf_def split: option.split)

lemma set_leaf_wf:
  assumes "tables_wf m cr3"
  shows "tables_wf (set_leaf cr3 v w m) cr3"
  by (rule tables_wf_same_tabs [OF assms]) (use assms in \<open>simp_all add: set_leaf_tabs tables_wf_def\<close>)

lemma set_leaf_tables [simp]:
  assumes "tables_wf m cr3"
  shows "table_frame (set_leaf cr3 v w m) cr3 f = table_frame m cr3 f" "has_path (set_leaf cr3 v w m) cr3 u = has_path m cr3 u"
  using set_leaf_tabs [OF assms] path3_ok(1) by (auto simp: table_frame_def has_path_def)

text \<open>The tables of the last level, the only ones these operations write.\<close>

definition leaf_frame :: "'a mm_state_scheme \<Rightarrow> u64 \<Rightarrow> u64 \<Rightarrow> bool" where
  "leaf_frame m cr3 f \<longleftrightarrow> (\<exists>p. ok_path p \<and> length p = 3 \<and> tabs m cr3 p = Some f)"

lemma leaf_table: "leaf_frame m cr3 f \<Longrightarrow> table_frame m cr3 f"
  by (auto simp: leaf_frame_def table_frame_def)

lemma leaf_frame_cong: "(\<And>p. ok_path p \<Longrightarrow> tabs m' cr3 p = tabs m cr3 p) \<Longrightarrow> leaf_frame m' cr3 f = leaf_frame m cr3 f"
  by (auto simp: leaf_frame_def)

lemma set_leaf_frames: "\<not> leaf_frame m cr3 f \<Longrightarrow> frames (set_leaf cr3 v w m) f = frames m f"
  using path3_ok(1,2) [of v] by (auto simp: set_leaf_def put_word_def leaf_frame_def split: option.split)

lemma set_leaf_get:
  assumes "tables_wf m cr3" "has_path m cr3 v"
  shows "vmm_get_pte (set_leaf cr3 v w m) cr3 u =
    (if same_page v u then if has_flag w PTE_PRESENT then w else 0 else vmm_get_pte m cr3 u)"
proof -
  from assms(2) obtain t where t: "tabs m cr3 (path3 v) = Some t" by (auto simp: has_path_def)
  then have e: "set_leaf cr3 v w m = put_word t (pt_index v) w m" by (simp add: set_leaf_def)
  show ?thesis
    unfolding e get_pte_leaf put_leaf_grows(2) [OF assms(1) path3_ok(1,2) t path3_ok(1,2)] same_page_iff by simp
qed

section \<open>Changes outside the tables\<close>

lemma tabs_same_frames: "frames m' = frames m \<Longrightarrow> tabs m' f p = tabs m f p"
  by (induction p arbitrary: f) simp_all

lemma get_pte_same_frames: "frames m' = frames m \<Longrightarrow> vmm_get_pte m' cr3 v = vmm_get_pte m cr3 v"
  by (simp add: get_pte_leaf leaf_def tabs_same_frames [of m' m] split: option.split)

text \<open>What a walk of the tables sees does not depend on the other frames.\<close>

definition tables_eq :: "u64 \<Rightarrow> 'a mm_state_scheme \<Rightarrow> 'b mm_state_scheme \<Rightarrow> bool" where
  "tables_eq cr3 m m' \<longleftrightarrow> (\<forall>p. ok_path p \<longrightarrow> tabs m' cr3 p = tabs m cr3 p) \<and> (\<forall>v. vmm_get_pte m' cr3 v = vmm_get_pte m cr3 v)"

lemma tables_eqD:
  assumes "tables_eq cr3 m m'"
  shows "vmm_get_pte m' cr3 v = vmm_get_pte m cr3 v" "table_frame m' cr3 f = table_frame m cr3 f" "has_path m' cr3 v = has_path m cr3 v"
  using assms path3_ok(1) by (auto simp: tables_eq_def table_frame_def has_path_def)

lemma tables_eq_frames: "frames m' = frames m \<Longrightarrow> tables_eq cr3 m m'"
  by (simp add: tables_eq_def tabs_same_frames [of m' m] get_pte_same_frames [of m' m])

lemma tables_eq_other:
  assumes "\<not> table_frame m cr3 f" "\<And>g. g \<noteq> f \<Longrightarrow> frames m' g = frames m g"
  shows "tables_eq cr3 m m'"
proof -
  have t: "tabs m' cr3 p = tabs m cr3 p" if "ok_path p" for p by (rule tabs_other_frame [OF assms that])
  have "vmm_get_pte m' cr3 v = vmm_get_pte m cr3 v" for v
  proof (cases "tabs m cr3 (path3 v)")
    case (Some u)
    then have "u \<noteq> f" using assms(1) path3_ok(1) by (auto simp: table_frame_def)
    with Some assms(2) [of u] show ?thesis by (simp add: get_pte_leaf leaf_def t [OF path3_ok(1)])
  qed (simp add: get_pte_leaf leaf_def t [OF path3_ok(1)])
  with t show ?thesis by (simp add: tables_eq_def)
qed

lemma tables_wf_eq:
  assumes "tables_wf m cr3" "tables_eq cr3 m m'" "pmm_sized m'" "\<And>f. live_frame m f \<Longrightarrow> table_frame m cr3 f \<Longrightarrow> live_frame m' f"
  shows "tables_wf m' cr3"
  unfolding tables_wf_def
proof (intro conjI allI impI)
  have t: "tabs m' cr3 p = tabs m cr3 p" if "ok_path p" for p using assms(2) that by (simp add: tables_eq_def)
  show "pmm_sized m'" by (rule assms)
  show "live_frame m' f" if "ok_path p \<and> tabs m' cr3 p = Some f" for p f
  proof -
    have "tabs m cr3 p = Some f" using that t [of p] by simp
    then show ?thesis using that assms(4) [OF tables_live [OF assms(1), of p f]] by (auto simp: table_frame_def)
  qed
  show "p = q" if "ok_path p \<and> ok_path q \<and> tabs m' cr3 p = Some f \<and> tabs m' cr3 q = Some f" for p q f
    using that t tables_inj [OF assms(1)] by metis
qed

section \<open>Frames named by entries\<close>

definition pte_phys :: "u64 \<Rightarrow> u64" where
  "pte_phys e = e AND PHYS_ADDR_MASK"

definition pte_flags :: "u64 \<Rightarrow> u64" where
  "pte_flags e = e AND NOT PHYS_ADDR_MASK"

lemma PHYS_ADDR_MASK_bits: "bit PHYS_ADDR_MASK n \<longleftrightarrow> 12 \<le> n \<and> n < 52"
proof -
  have e: "PHYS_ADDR_MASK = mask 52 AND NOT (mask 12)" by (simp add: PHYS_ADDR_MASK_def mask_eq_exp_minus_1)
  show ?thesis unfolding e by (auto simp: bit_and_iff bit_not_iff bit_mask_iff)
qed

lemma pte_split: "pte_phys e OR pte_flags e = e"
  unfolding pte_phys_def pte_flags_def by (intro bit_word_eqI) (auto simp: bit_or_iff bit_and_iff bit_not_iff)

lemma pte_phys_aligned: "aligned (pte_phys e)"
  by (simp add: aligned_bits pte_phys_def bit_and_iff PHYS_ADDR_MASK_bits)

lemma pte_phys_or: "pte_phys (a OR b) = pte_phys a OR pte_phys b"
  by (simp add: pte_phys_def bit.conj_disj_distrib2)

lemma pte_phys_flags [simp]: "pte_phys (pte_flags e) = 0" "pte_phys (pte_flags e AND x) = 0"
  unfolding pte_phys_def pte_flags_def by (intro bit_word_eqI; simp add: bit_and_iff bit_not_iff)+

text \<open>Physical memory ends below the flag bits.\<close>

lemma page_addr_bits:
  assumes "pmm_sized m" "total_pages m \<le> 2 ^ 40" "i < total_pages m"
  shows "pte_phys (page_addr i) = page_addr i"
proof -
  have "unat (page_addr i) < 2 ^ 52" using page_addr_index [OF assms(1,3)] assms(2,3) by simp
  then have "take_bit 52 (page_addr i) = page_addr i" by (simp add: word_unat_eq_iff unsigned_take_bit_eq take_bit_nat_eq_self)
  then have "\<not> bit (page_addr i) n" if "52 \<le> n" for n using that by (metis bit_take_bit_iff not_le)
  moreover have "\<not> bit (page_addr i) n" if "n < 12" for n using page_addr_aligned [of i] that by (simp add: aligned_bits)
  ultimately have "bit (page_addr i) n \<Longrightarrow> 12 \<le> n \<and> n < 52" for n by (meson not_le)
  then show ?thesis unfolding pte_phys_def by (intro bit_word_eqI) (simp add: bit_and_iff PHYS_ADDR_MASK_bits, blast)
qed

lemma live_frame_phys:
  assumes "pmm_sized m" "total_pages m \<le> 2 ^ 40" "live_frame m f"
  shows "pte_phys f = f" "aligned f" "f \<noteq> 0"
proof -
  from assms(3) obtain i where i: "i < total_pages m" "i \<noteq> 0" "f = page_addr i" by (auto simp: live_frame_def)
  then show "pte_phys f = f" using page_addr_bits [OF assms(1,2)] by simp
  show "aligned f" using i page_addr_aligned by simp
  show "f \<noteq> 0" using i page_addr_ok [OF assms(1)] by simp
qed

text \<open>The number of the page a frame is, and the references to it.\<close>

definition frame_no :: "u64 \<Rightarrow> nat" where
  "frame_no f = unat f div PAGE_SIZE"

lemma frame_no_addr: "pmm_sized m \<Longrightarrow> i < total_pages m \<Longrightarrow> frame_no (page_addr i) = i"
  using page_addr_index [of m i] by (simp add: frame_no_def)

lemma frame_no_live: "pmm_sized m \<Longrightarrow> live_frame m f \<Longrightarrow> frame_no f < total_pages m \<and> frame_no f \<noteq> 0 \<and> page_addr (frame_no f) = f
    \<and> page_refs m (frame_no f) \<noteq> None"
  using frame_no_addr [of m] by (auto simp: live_frame_def)

lemma frame_no_inj: "pmm_sized m \<Longrightarrow> live_frame m f \<Longrightarrow> live_frame m g \<Longrightarrow> frame_no f = frame_no g \<longleftrightarrow> f = g"
  using frame_no_live [of m f] frame_no_live [of m g] by metis

lemma live_iff: "pmm_sized m \<Longrightarrow> live_frame m f \<longleftrightarrow> frame_no f < total_pages m \<and> frame_no f \<noteq> 0 \<and> page_addr (frame_no f) = f
    \<and> page_refs m (frame_no f) \<noteq> None"
  using frame_no_live [of m f] by (auto simp: live_frame_def)

text \<open>Releasing and sharing a frame.\<close>

lemma unref_effect:
  assumes "pmm_sized m" "live_frame m f" "page_refs m (frame_no f) = Some n" "m' = pmm_page_unref f m"
  shows "frames m' = frames m" "mm_state.more m' = mm_state.more m" "pmm_sized m'" "total_pages m' = total_pages m"
    "page_refs m' = (page_refs m)(frame_no f := (if n \<le> 1 then None else Some (n - 1)))"
proof -
  have nz: "f \<noteq> NULL" using frame_no_live [OF assms(1,2)] page_addr_ok [OF assms(1)] by metis
  note S = free_page_spec [OF assms(1) nz refl]
  have e: "m' = pmm_free_page f m" using assms(4) by (simp add: pmm_page_unref_def)
  show "frames m' = frames m" "mm_state.more m' = mm_state.more m" unfolding e using S more_mm by blast+
  show "pmm_sized m'" "total_pages m' = total_pages m"
    "page_refs m' = (page_refs m)(frame_no f := (if n \<le> 1 then None else Some (n - 1)))"
    unfolding e using S assms(3) by (simp_all add: frame_no_def)
qed

lemma ref_effect:
  assumes "pmm_sized m" "live_frame m f" "page_refs m (frame_no f) = Some n" "n < 255" "m' = pmm_page_ref f m"
  shows "frames m' = frames m" "mm_state.more m' = mm_state.more m" "pmm_sized m'" "total_pages m' = total_pages m"
    "page_refs m' = (page_refs m)(frame_no f \<mapsto> n + 1)"
proof -
  have nz: "f \<noteq> NULL" using frame_no_live [OF assms(1,2)] page_addr_ok [OF assms(1)] by metis
  note S = page_ref_spec [OF assms(1) nz refl]
  show "frames m' = frames m" "mm_state.more m' = mm_state.more m" unfolding assms(5) using S more_mm by blast+
  show "pmm_sized m'" "total_pages m' = total_pages m" "page_refs m' = (page_refs m)(frame_no f \<mapsto> n + 1)"
    unfolding assms(5) using S assms(3,4) by (simp_all add: frame_no_def)
qed

section \<open>A handled fault\<close>

lemma page_va_same: "same_page (va AND PAGE_MASK) va"
  by (simp add: same_page_bits bit_and_iff PAGE_MASK_bits)

lemma same_page_sym: "same_page a b \<longleftrightarrow> same_page b a"
  by (auto simp: same_page_def)

lemma same_page_trans: "same_page a b \<Longrightarrow> same_page b c \<longleftrightarrow> same_page a c"
  by (auto simp: same_page_def)

lemma get_pte_same_page: "same_page a b \<Longrightarrow> vmm_get_pte m cr3 a = vmm_get_pte m cr3 b"
  by (simp add: get_pte_leaf same_page_def)

lemma has_path_same_page: "same_page a b \<Longrightarrow> has_path m cr3 a = has_path m cr3 b"
  by (simp add: has_path_def same_page_def)

lemma present_or: "has_flag a PTE_PRESENT \<Longrightarrow> has_flag (b OR a) PTE_PRESENT" "has_flag a PTE_PRESENT \<Longrightarrow> has_flag (a OR b) PTE_PRESENT"
  by (simp_all add: present_bit bit_or_iff)

lemma flags_present: "has_flag e PTE_PRESENT \<Longrightarrow> has_flag (pte_flags e) PTE_PRESENT"
  by (simp add: present_bit pte_flags_def bit_and_iff bit_not_iff PHYS_ADDR_MASK_bits)

lemma same_more_cow:
  "mm_state.more m' = mm_state.more m \<Longrightarrow>
    g_cow_buckets m' = g_cow_buckets m \<and> g_cow_tracker_cache m' = g_cow_tracker_cache m \<and> g_cow_tracker_count m' = g_cow_tracker_count m
    \<and> cow_state.more m' = cow_state.more m"
  by (cases m; cases m') simp

lemma tracker_same_more:
  "mm_state.more m' = mm_state.more m \<Longrightarrow> tracker_refs m' = tracker_refs m \<and> cow_wf m' = cow_wf m"
  by (drule same_more_cow) (intro conjI ext; simp add: tracker_refs_def cow_lookup_locked_def cow_wf_def tracked_def)

text \<open>
  The effect of a fault the handler resolves: a free page becomes a copy of the shared one and takes
  its place in the tables, writable; the shared frame keeps its contents and loses one reference.
\<close>

definition cow_effect :: "u64 \<Rightarrow> u64 \<Rightarrow> nat \<Rightarrow> 'a cow_state_scheme \<Rightarrow> 'a cow_state_scheme \<Rightarrow> bool" where
  "cow_effect cr3 va j s s' \<longleftrightarrow>
    (let e = vmm_get_pte s cr3 va; ph = pte_phys e; n = the (page_refs s (frame_no ph)) in
     j \<noteq> 0 \<and> j < total_pages s \<and> page_refs s j = None
     \<and> page_refs s' = (page_refs s)(j \<mapsto> 1, frame_no ph \<mapsto> n - 1)
     \<and> frames s' (page_addr j) = frames s ph
     \<and> (\<forall>f. \<not> leaf_frame s cr3 f \<and> f \<noteq> page_addr j \<longrightarrow> frames s' f = frames s f)
     \<and> (\<forall>u. vmm_get_pte s' cr3 u = (if same_page va u then page_addr j OR (pte_flags e OR PTE_WRITABLE) else vmm_get_pte s cr3 u))
     \<and> tables_wf s' cr3 \<and> (\<forall>x. ok_path x \<longrightarrow> tabs s' cr3 x = tabs s cr3 x)
     \<and> total_pages s' = total_pages s \<and> mm_state.more s' = mm_state.more s)"

lemma cow_fault_effect:
  assumes wf: "tables_wf s cr3" "total_pages s \<le> 2 ^ 40"
    and ec: "ec AND 2 \<noteq> 0" "ec AND 1 \<noteq> 0"
    and e: "e = vmm_get_pte s cr3 va" "e \<noteq> 0" "has_flag e PTE_USER" "\<not> has_flag e PTE_WRITABLE"
    and t: "tracker_refs s (pte_phys e) \<noteq> None"
    and ph: "live_frame s (pte_phys e)" "\<not> table_frame s cr3 (pte_phys e)" "page_refs s (frame_no (pte_phys e)) = Some n" "2 \<le> n"
    and al: "pmm_alloc_page s = (p, s1)" "p \<noteq> NULL"
  obtains s' j where "cow_fault_handle (Some cr3) va ec s = (0, s')" "cow_effect cr3 va j s s'" "p = page_addr j"
proof -
  define a where "a = va AND PAGE_MASK"
  have sp: "same_page a va" unfolding a_def by (rule page_va_same)
  define ph where "ph = pte_phys e"
  have sz: "pmm_sized s" using wf by (simp add: tables_wf_def)
  from mm_alloc [OF sz al(1)] al(2) obtain j where j: "j < total_pages s" "j \<noteq> 0" "p = page_addr j" "page_refs s j = None"
    "page_refs s1 = (page_refs s)(j \<mapsto> 1)" "total_pages s1 = total_pages s" and f1: "frames s1 = frames s" "pmm_sized s1"
    "mm_state.more s1 = mm_state.more s" by auto
  have jn: "\<not> live_frame s p" using not_live_free [OF sz j(1,4)] j(3) by simp
  then have pt: "\<not> table_frame s cr3 p" using tables_live [OF wf(1)] by (auto simp: table_frame_def)
  have pn: "p \<noteq> ph" using jn ph(1) ph_def by auto
  have lv: "live_frame s1 f" if "live_frame s f" for f
    by (rule live_frame_mono [OF that]) (simp_all add: j)
  define s2 where "s2 = copy_frame p ph s1"
  have q2: "tables_eq cr3 s s2"
    by (rule tables_eq_other [OF pt]) (simp add: s2_def copy_frame_def f1)
  have r2: "page_refs s2 = page_refs s1" "pmm_sized s2" "total_pages s2 = total_pages s" "mm_state.more s2 = mm_state.more s"
    using f1 j by (simp_all add: s2_def copy_frame_def frames_pmm)
  have l2: "live_frame s2 f" if "live_frame s f" for f using lv [OF that] r2 j(6) by (simp add: live_frame_def)
  have w2: "tables_wf s2 cr3" by (rule tables_wf_eq [OF wf(1) q2 r2(2)]) (rule l2)
  have p2: "has_path s2 cr3 a"
    unfolding tables_eqD(3) [OF q2] has_path_same_page [OF sp] using get_pte_path [of s cr3 va] e(1,2) by simp
  define s3 where "s3 = set_leaf cr3 a 0 s2"
  have w3: "tables_wf s3 cr3" unfolding s3_def by (rule set_leaf_wf [OF w2])
  have fn: "frame_no ph \<noteq> j" using frame_no_live [OF sz ph(1)] j(4) by (auto simp: ph_def)
  have r3: "page_refs s3 (frame_no ph) = Some n" "live_frame s3 ph" "pmm_sized s3"
    using ph(3) r2 j(5) fn l2 [OF ph(1)] by (simp_all add: s3_def ph_def)
  define s4 where "s4 = pmm_page_unref ph s3"
  note U = unref_effect [OF r3(3,2,1) s4_def]
  have R4: "page_refs s4 = (page_refs s)(j \<mapsto> 1, frame_no ph \<mapsto> n - 1)"
    using U(5) ph(4) r2(1) j(5) by (simp add: s3_def)
  have w4: "tables_wf s4 cr3"
  proof (rule tables_wf_eq [OF w3 tables_eq_frames [OF U(1)] U(3)])
    fix f
    assume "live_frame s3 f"
    then show "live_frame s4 f" by (rule live_frame_mono) (use U(4,5) ph(4) in \<open>auto split: if_splits\<close>)
  qed
  have p4: "has_path s4 cr3 a"
    using p2 tables_eqD(3) [OF tables_eq_frames [OF U(1)]] set_leaf_tables(2) [OF w2] by (simp add: s3_def)
  define s5 where "s5 = set_leaf cr3 a (p OR (pte_flags e OR PTE_WRITABLE)) s4"
  have "cow_lookup_locked (e AND PHYS_ADDR_MASK) s \<noteq> None" using t by (simp add: tracker_refs_def pte_phys_def)
  then have call: "cow_fault_handle (Some cr3) va ec s = (0, s5)"
    unfolding cow_fault_handle_def Let_def option.case a_def [symmetric] get_pte_same_page [OF sp] e(1) [symmetric]
      pte_phys_def [symmetric] pte_flags_def [symmetric] ph_def [symmetric]
    using ec e al map_set_leaf [OF p4, of p "pte_flags e OR PTE_WRITABLE"]
    by (auto simp: s2_def [symmetric] unmap_set_leaf s3_def [symmetric] s4_def [symmetric] s5_def)
  have T: "tabs s5 cr3 x = tabs s cr3 x" if "ok_path x" for x
    unfolding s5_def set_leaf_tabs [OF w4 that] tabs_same_frames [OF U(1)]
    unfolding s3_def set_leaf_tabs [OF w2 that] using q2 that by (simp add: tables_eq_def)
  have F: "frames s5 f = frames s2 f" if "\<not> leaf_frame s cr3 f" for f
  proof -
    have "leaf_frame s2 cr3 f = leaf_frame s cr3 f" by (rule leaf_frame_cong) (use q2 in \<open>simp add: tables_eq_def\<close>)
    moreover have "leaf_frame s4 cr3 f = leaf_frame s2 cr3 f"
      by (rule leaf_frame_cong) (simp add: tabs_same_frames [OF U(1)] s3_def set_leaf_tabs [OF w2])
    ultimately show ?thesis using that by (simp add: s5_def set_leaf_frames U(1) s3_def)
  qed
  have G: "vmm_get_pte s5 cr3 u = (if same_page va u then p OR (pte_flags e OR PTE_WRITABLE) else vmm_get_pte s cr3 u)" for u
  proof -
    have pr: "has_flag (p OR (pte_flags e OR PTE_WRITABLE)) PTE_PRESENT"
      using get_pte_present [of s cr3 va] e(1,2) by (intro present_or flags_present) simp
    have "vmm_get_pte s5 cr3 u = (if same_page a u then p OR (pte_flags e OR PTE_WRITABLE) else vmm_get_pte s4 cr3 u)"
      unfolding s5_def set_leaf_get [OF w4 p4] using pr by simp
    moreover have "\<not> same_page a u \<Longrightarrow> vmm_get_pte s4 cr3 u = vmm_get_pte s cr3 u"
      unfolding get_pte_same_frames [OF U(1)] s3_def set_leaf_get [OF w2 p2] tables_eqD(1) [OF q2] by simp
    ultimately show ?thesis using same_page_trans [OF sp, of u] by simp
  qed
  have "cow_effect cr3 va j s s5"
    unfolding cow_effect_def Let_def e(1) [symmetric] ph_def [symmetric]
  proof (intro conjI allI impI)
    have "\<not> leaf_frame s cr3 p" using pt leaf_table [of s cr3 p] by blast
    then show "frames s5 (page_addr j) = frames s ph" using F [of p] pn j(3) f1 by (simp add: s2_def copy_frame_def)
    show "frames s5 f = frames s f" if "\<not> leaf_frame s cr3 f \<and> f \<noteq> page_addr j" for f
      using that F [of f] j(3) f1 by (simp add: s2_def copy_frame_def)
    show "page_refs s5 = (page_refs s)(j \<mapsto> 1, frame_no ph \<mapsto> the (page_refs s (frame_no ph)) - 1)"
      using R4 ph(3) by (simp add: s5_def ph_def)
    show "tables_wf s5 cr3" unfolding s5_def by (rule set_leaf_wf [OF w4])
    show "mm_state.more s5 = mm_state.more s" "total_pages s5 = total_pages s"
      using U(2,4) r2 by (simp_all add: s5_def s3_def)
  qed (use j G T in auto)
  then show thesis using that [OF call] j(3) by simp
qed

end
