(* ===== verification/Snap_Pages.thy ===== *)
theory Snap_Pages
  imports Cow
begin

text \<open>
  The memory side of a snapshot (kernel/snap/capture.c and kernel/snap/restore.c): the walk of a
  user address space that records every page, shares its frame and takes away write permission;
  the restoration of the recorded pages; and the release of a recorded address space. The relation
  \<open>snap_mem\<close> describes a captured address space by the pages the snapshot holds and the private
  copies made since; one lemma per operation says how it changes.
\<close>

section \<open>Recorded pages\<close>

abbreviation SNAP_PAGES_PER_TASK_MAX :: nat where "SNAP_PAGES_PER_TASK_MAX \<equiv> 4096"

definition CAP_ENOMEM :: int where "CAP_ENOMEM = 12"
definition CAP_EINVAL :: int where "CAP_EINVAL = 22"
definition CAP_E2BIG :: int where "CAP_E2BIG = 7"

lemmas snap_err_defs = CAP_ENOMEM_def CAP_EINVAL_def CAP_E2BIG_def

record snap_captured_page =
  cp_virt :: u64
  cp_phys :: u64
  cp_flags :: u64

text \<open>The page list of a recorded task: the used entries and the number of allocated ones.\<close>

record page_list =
  pl_pages :: "snap_captured_page list"
  pl_page_cap :: nat

text \<open>What the allocators answer: \<open>kmalloc\<close> for an array of the given size, the slab for a tracker.\<close>

record snap_env =
  env_kmalloc :: "nat \<Rightarrow> bool"
  env_slab :: "u64 \<Rightarrow> bool"

definition snap_pages_grow :: "snap_env \<Rightarrow> 'a page_list_scheme \<Rightarrow> int \<times> 'a page_list_scheme" where
  "snap_pages_grow env te =
    (let new_cap = (if pl_page_cap te = 0 then 64 else pl_page_cap te * 2);
         new_cap = (if new_cap > SNAP_PAGES_PER_TASK_MAX then SNAP_PAGES_PER_TASK_MAX else new_cap)
     in if new_cap = pl_page_cap te then (- CAP_E2BIG, te)
        else if \<not> env_kmalloc env new_cap then (- CAP_ENOMEM, te)
        else (0, te\<lparr>pl_page_cap := new_cap\<rparr>))"

definition snap_record_page ::
  "snap_env \<Rightarrow> u64 \<Rightarrow> u64 \<Rightarrow> u64 \<Rightarrow> 'a page_list_scheme \<Rightarrow> int \<times> 'a page_list_scheme" where
  "snap_record_page env virt phys flags te =
    (let (rc, te) = (if length (pl_pages te) \<ge> pl_page_cap te then snap_pages_grow env te else (0, te)) in
     if rc < 0 then (rc, te)
     else (0, te\<lparr>pl_pages := pl_pages te @ [\<lparr>cp_virt = virt, cp_phys = phys, cp_flags = flags\<rparr>]\<rparr>))"

section \<open>The walk\<close>

text \<open>A loop that stops at the first negative code.\<close>

fun loop_ok :: "('i \<Rightarrow> 's \<Rightarrow> int \<times> 's) \<Rightarrow> 'i list \<Rightarrow> 's \<Rightarrow> int \<times> 's" where
  "loop_ok f [] s = (0, s)"
| "loop_ok f (i # is) s = (case f i s of (rc, s) \<Rightarrow> if rc < 0 then (rc, s) else loop_ok f is s)"

definition virt_of :: "nat \<Rightarrow> nat \<Rightarrow> nat \<Rightarrow> nat \<Rightarrow> u64" where
  "virt_of i j k l = push_bit 39 (of_nat i) OR push_bit 30 (of_nat j) OR push_bit 21 (of_nat k) OR push_bit 12 (of_nat l)"

text \<open>\<open>snap_cr3\<close> is the root of the snapshot's own tables; in the present code it is the task's root.\<close>

definition capture_leaf ::
  "snap_env \<Rightarrow> u64 \<Rightarrow> u64 \<Rightarrow> u64 \<Rightarrow> u64 \<Rightarrow> nat \<Rightarrow> 'a page_list_scheme \<times> 'b cow_state_scheme
    \<Rightarrow> int \<times> 'a page_list_scheme \<times> 'b cow_state_scheme" where
  "capture_leaf env cr3 snap_cr3 virt pt l st =
    (case st of (te, s) \<Rightarrow>
      let pte = frames s pt l in
      if \<not> has_flag pte PTE_PRESENT then (0, st)
      else if \<not> has_flag pte PTE_USER then (0, st)
      else
       let phys = pte AND PHYS_ADDR_MASK; flags = pte AND NOT PHYS_ADDR_MASK in
       if virt \<ge> 0xFFFF800000000000 then (0, st)
       else
        let (rc, te) = snap_record_page env virt phys flags te in
        if rc < 0 then (rc, te, s)
        else
         let s = cow_page_tracker_bump (env_slab env phys) phys s;
             s = pmm_page_ref phys s;
             s = (if has_flag flags PTE_WRITABLE
                  then let s = snd (vmm_protect_page_by_cr3 cr3 virt (flags AND NOT PTE_WRITABLE) s)
                       in if snap_cr3 \<noteq> 0 \<and> snap_cr3 \<noteq> cr3
                          then snd (vmm_protect_page_by_cr3 snap_cr3 virt (flags AND NOT PTE_WRITABLE) s) else s
                  else s)
         in (0, te, s))"

definition walk_pt where
  "walk_pt env cr3 snap_cr3 i j k pt =
    loop_ok (\<lambda>l. capture_leaf env cr3 snap_cr3 (virt_of i j k l) pt l) [0..<512]"

definition walk_pd where
  "walk_pd env cr3 snap_cr3 i j pd =
    loop_ok (\<lambda>k st. let pde = frames (snd st) pd k in
      if \<not> has_flag pde PTE_PRESENT then (0, st)
      else if has_flag pde PTE_LARGEPAGE then (0, st)
      else walk_pt env cr3 snap_cr3 i j k (pde AND PHYS_ADDR_MASK) st) [0..<512]"

definition walk_pdpt where
  "walk_pdpt env cr3 snap_cr3 i pdpt =
    loop_ok (\<lambda>j st. let pdpte = frames (snd st) pdpt j in
      if \<not> has_flag pdpte PTE_PRESENT then (0, st)
      else if has_flag pdpte PTE_LARGEPAGE then (0, st)
      else walk_pd env cr3 snap_cr3 i j (pdpte AND PHYS_ADDR_MASK) st) [0..<512]"

definition snap_walk_user_half ::
  "snap_env \<Rightarrow> u64 \<Rightarrow> u64 \<Rightarrow> 'a page_list_scheme \<times> 'b cow_state_scheme
    \<Rightarrow> int \<times> 'a page_list_scheme \<times> 'b cow_state_scheme" where
  "snap_walk_user_half env cr3 snap_cr3 =
    loop_ok (\<lambda>i st. let pml4e = frames (snd st) cr3 i in
      if \<not> has_flag pml4e PTE_PRESENT then (0, st)
      else walk_pdpt env cr3 snap_cr3 i (pml4e AND PHYS_ADDR_MASK) st) [0..<256]"

section \<open>Restoring and releasing\<close>

text \<open>One round of the loop of \<^verbatim>\<open>restore_pages\<close>.\<close>

definition restore_page ::
  "snap_env \<Rightarrow> u64 \<Rightarrow> u64 \<Rightarrow> snap_captured_page \<Rightarrow> 'b cow_state_scheme \<Rightarrow> 'b cow_state_scheme" where
  "restore_page env cr3 skip_page_va c s =
    (if cp_phys c = 0 then s
     else if skip_page_va \<noteq> 0 \<and> cp_virt c = skip_page_va then s
     else
      let live_pte = vmm_get_pte s cr3 (cp_virt c); live_phys = live_pte AND PHYS_ADDR_MASK;
          restore_flags = (cp_flags c AND NOT PTE_WRITABLE) OR PTE_PRESENT
      in if live_pte \<noteq> 0 \<and> live_phys = cp_phys c
         then snd (vmm_protect_page_by_cr3 cr3 (cp_virt c) restore_flags s)
         else
          let s = (if live_pte \<noteq> 0 then pmm_page_unref live_phys (vmm_unmap_page_by_cr3 cr3 (cp_virt c) s) else s);
              s = pmm_page_ref (cp_phys c) s;
              s = cow_page_tracker_bump (env_slab env (cp_phys c)) (cp_phys c) s;
              (ok, s) = vmm_map_page_by_cr3 cr3 (cp_virt c) (cp_phys c) restore_flags s
          in if \<not> ok then pmm_page_unref (cp_phys c) (cow_page_tracker_put (cp_phys c) s) else s)"

definition restore_pages ::
  "snap_env \<Rightarrow> u64 \<Rightarrow> u64 \<Rightarrow> snap_captured_page list \<Rightarrow> 'b cow_state_scheme \<Rightarrow> 'b cow_state_scheme" where
  "restore_pages env cr3 skip_page_va cs s = fold (restore_page env cr3 skip_page_va) cs s"

text \<open>One round of the release loop; \<open>live_cr3\<close> is 0 when the task is gone.\<close>

definition release_page :: "u64 \<Rightarrow> snap_captured_page \<Rightarrow> 'b cow_state_scheme \<Rightarrow> 'b cow_state_scheme" where
  "release_page live_cr3 c s =
    (let s = (if live_cr3 \<noteq> 0 then
                let live_pte = vmm_get_pte s live_cr3 (cp_virt c) in
                if live_pte \<noteq> 0 \<and> has_flag live_pte PTE_PRESENT \<and> live_pte AND PHYS_ADDR_MASK = cp_phys c
                   \<and> has_flag (cp_flags c) PTE_WRITABLE \<and> \<not> has_flag live_pte PTE_WRITABLE
                then snd (vmm_protect_page_by_cr3 live_cr3 (cp_virt c) (cp_flags c) s) else s
              else s)
     in pmm_page_unref (cp_phys c) (cow_page_tracker_put (cp_phys c) s))"

definition release_pages :: "u64 \<Rightarrow> snap_captured_page list \<Rightarrow> 'b cow_state_scheme \<Rightarrow> 'b cow_state_scheme" where
  "release_pages live_cr3 cs s = fold (release_page live_cr3) cs s"

section \<open>Stores of the user program\<close>

text \<open>
  A store as the processor performs it: a page that is present, accessible to user mode and writable
  is written; a protection fault runs the handler and, when it resolved the fault, the store again.
\<close>

definition store_now :: "u64 \<Rightarrow> u64 \<Rightarrow> u64 \<Rightarrow> 'b cow_state_scheme \<Rightarrow> bool \<times> 'b cow_state_scheme" where
  "store_now cr3 va w s =
    (let e = vmm_get_pte s cr3 va in
     if has_flag e PTE_USER \<and> has_flag e PTE_WRITABLE
     then (True, put_word (e AND PHYS_ADDR_MASK) (unat (drop_bit 3 (va AND 0xFFF))) w s) else (False, s))"

definition user_store :: "u64 \<Rightarrow> u64 \<times> u64 \<Rightarrow> 'b cow_state_scheme \<Rightarrow> bool \<times> 'b cow_state_scheme" where
  "user_store cr3 x s =
    (case store_now cr3 (fst x) (snd x) s of
      (True, s) \<Rightarrow> (True, s)
    | (False, s) \<Rightarrow>
       if vmm_get_pte s cr3 (fst x) = 0 then (False, s)
       else case snap_cow_pf_dispatch (Some cr3) (fst x) 7 s of
         (rc, s) \<Rightarrow> if rc = 0 then store_now cr3 (fst x) (snd x) s else (False, s))"

text \<open>What user mode can read at an address.\<close>

definition user_view :: "'b mm_state_scheme \<Rightarrow> u64 \<Rightarrow> u64 \<Rightarrow> (nat \<Rightarrow> u64) option" where
  "user_view s cr3 v =
    (let e = vmm_get_pte s cr3 v in if has_flag e PTE_USER then Some (frames s (pte_phys e)) else None)"

section \<open>Virtual addresses of the walk\<close>

lemma bit_of_nat_small: "(i :: nat) < 2 ^ k \<Longrightarrow> bit (of_nat i :: u64) n \<Longrightarrow> n < k"
proof (rule ccontr)
  assume "i < 2 ^ k" "bit (of_nat i :: u64) n" "\<not> n < k"
  then have b: "bit (unat (of_nat i :: u64)) n" and k: "k \<le> n" by (simp_all add: bit_unsigned_iff)
  have "unat (of_nat i :: u64) \<le> i" by (simp add: unat_of_nat)
  also have "i < 2 ^ n" using \<open>i < 2 ^ k\<close> k by (meson less_le_trans one_le_numeral power_increasing)
  finally show False using b by (simp add: bit_iff_odd)
qed

lemma virt_of_bits:
  assumes "i < 512" "j < 512" "k < 512" "l < 512"
  shows "n < 9 \<Longrightarrow> bit (virt_of i j k l) (39 + n) = bit (of_nat i :: u64) n"
    "n < 9 \<Longrightarrow> bit (virt_of i j k l) (30 + n) = bit (of_nat j :: u64) n"
    "n < 9 \<Longrightarrow> bit (virt_of i j k l) (21 + n) = bit (of_nat k :: u64) n"
    "n < 9 \<Longrightarrow> bit (virt_of i j k l) (12 + n) = bit (of_nat l :: u64) n"
    "n < 12 \<or> 48 \<le> n \<Longrightarrow> \<not> bit (virt_of i j k l) n"
proof -
  have s: "bit (of_nat x :: u64) n \<Longrightarrow> n < 9" if "x < 512" for x n using bit_of_nat_small [of x 9 n] that by simp
  note S = s [OF assms(1)] s [OF assms(2)] s [OF assms(3)] s [OF assms(4)]
  have lt: "bit (of_nat x :: u64) n \<Longrightarrow> n < 64" for x n using bit_imp_le_length [of "of_nat x :: u64" n] by simp
  show "n < 9 \<Longrightarrow> bit (virt_of i j k l) (39 + n) = bit (of_nat i :: u64) n"
    using S(2) [of "9 + n"] S(3) [of "18 + n"] S(4) [of "27 + n"] by (auto simp: virt_of_def bit_or_iff bit_push_bit_iff)
  show "n < 9 \<Longrightarrow> bit (virt_of i j k l) (30 + n) = bit (of_nat j :: u64) n"
    using S(3) [of "9 + n"] S(4) [of "18 + n"] by (auto simp: virt_of_def bit_or_iff bit_push_bit_iff)
  show "n < 9 \<Longrightarrow> bit (virt_of i j k l) (21 + n) = bit (of_nat k :: u64) n"
    using S(4) [of "9 + n"] by (auto simp: virt_of_def bit_or_iff bit_push_bit_iff)
  show "n < 9 \<Longrightarrow> bit (virt_of i j k l) (12 + n) = bit (of_nat l :: u64) n"
    by (auto simp: virt_of_def bit_or_iff bit_push_bit_iff)
  show "n < 12 \<or> 48 \<le> n \<Longrightarrow> \<not> bit (virt_of i j k l) n"
    using S(1) [of "n - 39"] S(2) [of "n - 30"] S(3) [of "n - 21"] S(4) [of "n - 12"]
    by (auto simp: virt_of_def bit_or_iff bit_push_bit_iff)
qed

lemma index_of_bits:
  fixes v :: u64
  assumes "i < 512" "\<And>n. n < 9 \<Longrightarrow> bit v (k + n) = bit (of_nat i :: u64) n"
  shows "unat (drop_bit k v AND 0x1FF) = i"
proof -
  have m: "(0x1FF :: u64) = mask 9" by (simp add: mask_eq_exp_minus_1)
  have "drop_bit k v AND mask 9 = of_nat i"
  proof (rule bit_word_eqI)
    fix n
    show "bit (drop_bit k v AND mask 9) n = bit (of_nat i :: u64) n"
      using assms(2) [of n] bit_of_nat_small [of i 9 n] assms(1)
      by (cases "n < 9") (auto simp: bit_and_iff bit_mask_iff bit_drop_bit_eq add.commute)
  qed
  then show ?thesis unfolding m using assms(1) by (simp add: unat_of_nat take_bit_eq_mod)
qed

lemma virt_of_index:
  assumes "i < 512" "j < 512" "k < 512" "l < 512"
  shows "path3 (virt_of i j k l) = [i, j, k]" "pt_index (virt_of i j k l) = l"
  unfolding path3_def pml4_index_def pdpt_index_def pd_index_def pt_index_def
  using index_of_bits [OF assms(1) virt_of_bits(1) [OF assms]] index_of_bits [OF assms(2) virt_of_bits(2) [OF assms]]
    index_of_bits [OF assms(3) virt_of_bits(3) [OF assms]] index_of_bits [OF assms(4) virt_of_bits(4) [OF assms]]
  by simp_all

section \<open>Private address spaces\<close>

text \<open>The user pages of an address space, by the address the walk gives them.\<close>

definition user_vas :: "'b mm_state_scheme \<Rightarrow> u64 \<Rightarrow> u64 set" where
  "user_vas s cr3 = {v. (\<exists>i j k l. i < 256 \<and> j < 512 \<and> k < 512 \<and> l < 512 \<and> v = virt_of i j k l)
    \<and> has_flag (vmm_get_pte s cr3 v) PTE_USER}"

definition phys_at :: "'b mm_state_scheme \<Rightarrow> u64 \<Rightarrow> u64 \<Rightarrow> u64" where
  "phys_at s cr3 v = pte_phys (vmm_get_pte s cr3 v)"

definition flags_at :: "'b mm_state_scheme \<Rightarrow> u64 \<Rightarrow> u64 \<Rightarrow> u64" where
  "flags_at s cr3 v = pte_flags (vmm_get_pte s cr3 v)"

text \<open>
  A user address space whose pages are its own: the tables are a tree without large pages, user pages
  lie in the lower half, their frames are in use, referenced below the saturation of the counter, are
  no tables, and no frame appears at two addresses. Page 0 is reserved, as the boot code does it.
\<close>

definition private_aspace :: "u64 \<Rightarrow> 'b mm_state_scheme \<Rightarrow> bool" where
  "private_aspace cr3 s \<longleftrightarrow> tables_wf s cr3 \<and> total_pages s \<le> 2 ^ 40 \<and> page_refs s 0 \<noteq> None
    \<and> (\<forall>p f i. ok_path p \<and> p \<noteq> [] \<and> length p < 3 \<and> tabs s cr3 p = Some f \<and> i < 512
        \<and> has_flag (frames s f i) PTE_PRESENT \<longrightarrow> \<not> has_flag (frames s f i) PTE_LARGEPAGE)
    \<and> (\<forall>v. has_flag (vmm_get_pte s cr3 v) PTE_USER \<longrightarrow> pml4_index v < 256 \<and> live_frame s (phys_at s cr3 v)
        \<and> \<not> table_frame s cr3 (phys_at s cr3 v)
        \<and> (\<exists>n. page_refs s (frame_no (phys_at s cr3 v)) = Some n \<and> 0 < n \<and> n < 255))
    \<and> (\<forall>u v. has_flag (vmm_get_pte s cr3 u) PTE_USER \<and> has_flag (vmm_get_pte s cr3 v) PTE_USER
        \<and> phys_at s cr3 u = phys_at s cr3 v \<longrightarrow> same_page u v)"

lemma user_not_zero: "has_flag e PTE_USER \<Longrightarrow> e \<noteq> 0"
  by (auto simp: has_flag_def)

lemma virt_canonical:
  assumes "same_page u v" "\<And>n. n < 12 \<or> 48 \<le> n \<Longrightarrow> \<not> bit u n" "\<And>n. n < 12 \<or> 48 \<le> n \<Longrightarrow> \<not> bit v n"
  shows "u = v"
proof (rule bit_word_eqI)
  fix n
  show "bit u n = bit v n"
    using assms(1) assms(2,3) [of n] unfolding same_page_bits by (cases "n < 12 \<or> 48 \<le> n") (auto simp: not_le not_less)
qed

lemma user_vas_bits: "v \<in> user_vas s cr3 \<Longrightarrow> n < 12 \<or> 48 \<le> n \<Longrightarrow> \<not> bit v n"
  using virt_of_bits(5) unfolding user_vas_def by fastforce

lemma user_vas_same: "u \<in> user_vas s cr3 \<Longrightarrow> v \<in> user_vas s cr3 \<Longrightarrow> same_page u v \<longleftrightarrow> u = v"
  using virt_canonical [of u v] user_vas_bits [of _ s cr3] by (auto simp del: disj_not1)

lemma user_vas_cover:
  assumes "private_aspace cr3 s" "has_flag (vmm_get_pte s cr3 u) PTE_USER"
  obtains v where "v \<in> user_vas s cr3" "same_page v u"
proof -
  let ?v = "virt_of (pml4_index u) (pdpt_index u) (pd_index u) (pt_index u)"
  have i: "pml4_index u < 512" "pdpt_index u < 512" "pd_index u < 512" "pt_index u < 512" "pml4_index u < 256"
    using path3_ok [of u] assms by (auto simp: ok_path_def path3_def private_aspace_def)
  have sp: "same_page ?v u" using virt_of_index [OF i(1-4)] by (simp add: same_page_def path3_def)
  moreover have "?v \<in> user_vas s cr3" using i assms(2) get_pte_same_page [OF sp, of s cr3] by (auto simp: user_vas_def)
  ultimately show thesis using that by blast
qed

lemma user_vasD:
  assumes "private_aspace cr3 s" "v \<in> user_vas s cr3"
  shows "live_frame s (phys_at s cr3 v)" "\<not> table_frame s cr3 (phys_at s cr3 v)" "has_path s cr3 v"
    "\<exists>n. page_refs s (frame_no (phys_at s cr3 v)) = Some n \<and> 0 < n \<and> n < 255" "vmm_get_pte s cr3 v \<noteq> 0"
    "has_flag (vmm_get_pte s cr3 v) PTE_USER"
  using assms get_pte_path [of s cr3 v] user_not_zero [of "vmm_get_pte s cr3 v"]
  by (auto simp: private_aspace_def user_vas_def)

lemma phys_inj:
  assumes "private_aspace cr3 s" "u \<in> user_vas s cr3" "v \<in> user_vas s cr3"
  shows "phys_at s cr3 u = phys_at s cr3 v \<longleftrightarrow> u = v" "frame_no (phys_at s cr3 u) = frame_no (phys_at s cr3 v) \<longleftrightarrow> u = v"
proof -
  have sz: "pmm_sized s" using assms(1) by (simp add: private_aspace_def tables_wf_def)
  show e: "phys_at s cr3 u = phys_at s cr3 v \<longleftrightarrow> u = v"
    using assms user_vas_same [OF assms(2,3)] user_vasD(6) [OF assms(1)] unfolding private_aspace_def by blast
  show "frame_no (phys_at s cr3 u) = frame_no (phys_at s cr3 v) \<longleftrightarrow> u = v"
    using frame_no_inj [OF sz user_vasD(1) [OF assms(1,2)] user_vasD(1) [OF assms(1,3)]] e by simp
qed

section \<open>The state of a captured address space\<close>

text \<open>
  \<open>H\<close> are the pages the snapshot holds, \<open>J\<close> the private copies by page number, both relative to the
  state \<open>s0\<close> before the capture.
\<close>

definition entry_at :: "'b mm_state_scheme \<Rightarrow> u64 \<Rightarrow> u64 set \<Rightarrow> (u64 \<Rightarrow> nat option) \<Rightarrow> u64 \<Rightarrow> u64" where
  "entry_at s0 cr3 H J v =
    (case J v of
      None \<Rightarrow> phys_at s0 cr3 v OR (if v \<in> H then flags_at s0 cr3 v AND NOT PTE_WRITABLE else flags_at s0 cr3 v)
    | Some j \<Rightarrow> page_addr j OR (flags_at s0 cr3 v OR PTE_WRITABLE))"

definition refs_at :: "'b mm_state_scheme \<Rightarrow> u64 \<Rightarrow> u64 set \<Rightarrow> (u64 \<Rightarrow> nat option) \<Rightarrow> u64 \<Rightarrow> nat option" where
  "refs_at s0 cr3 H J v =
    (let r = the (page_refs s0 (frame_no (phys_at s0 cr3 v))) + (if v \<in> H then 1 else 0) - (if J v = None then 0 else 1)
     in if r = 0 then None else Some r)"

definition copies_ok :: "'b mm_state_scheme \<Rightarrow> u64 \<Rightarrow> (u64 \<Rightarrow> nat option) \<Rightarrow> bool" where
  "copies_ok s0 cr3 J \<longleftrightarrow> dom J \<subseteq> user_vas s0 cr3 \<and> inj_on J (dom J)
    \<and> (\<forall>j \<in> ran J. j \<noteq> 0 \<and> j < total_pages s0 \<and> page_refs s0 j = None)"

definition held_ok :: "'b mm_state_scheme \<Rightarrow> u64 \<Rightarrow> u64 set \<Rightarrow> 'c cow_state_scheme \<Rightarrow> bool" where
  "held_ok s0 cr3 H s \<longleftrightarrow> H \<subseteq> user_vas s0 cr3 \<and> cow_wf s \<and> g_cow_tracker_cache s
    \<and> (\<forall>v \<in> H. tracker_refs s (phys_at s0 cr3 v) \<noteq> None)"

definition tables_kept :: "u64 \<Rightarrow> 'b mm_state_scheme \<Rightarrow> 'b mm_state_scheme \<Rightarrow> bool" where
  "tables_kept cr3 s0 s \<longleftrightarrow> tables_wf s cr3 \<and> total_pages s = total_pages s0 \<and> (\<forall>p. ok_path p \<longrightarrow> tabs s cr3 p = tabs s0 cr3 p)"

definition refs_ok :: "'b mm_state_scheme \<Rightarrow> u64 \<Rightarrow> u64 set \<Rightarrow> (u64 \<Rightarrow> nat option) \<Rightarrow> 'b mm_state_scheme \<Rightarrow> bool" where
  "refs_ok s0 cr3 H J s \<longleftrightarrow> (\<forall>v \<in> user_vas s0 cr3. page_refs s (frame_no (phys_at s0 cr3 v)) = refs_at s0 cr3 H J v)
    \<and> (\<forall>j \<in> ran J. page_refs s j = Some 1)
    \<and> (\<forall>i. i \<notin> ran J \<and> i \<notin> (\<lambda>v. frame_no (phys_at s0 cr3 v)) ` user_vas s0 cr3 \<longrightarrow> page_refs s i = page_refs s0 i)"

definition snap_mem ::
  "u64 \<Rightarrow> 'b cow_state_scheme \<Rightarrow> u64 set \<Rightarrow> (u64 \<Rightarrow> nat option) \<Rightarrow> 'b cow_state_scheme \<Rightarrow> bool" where
  "snap_mem cr3 s0 H J s \<longleftrightarrow> tables_kept cr3 s0 s \<and> held_ok s0 cr3 H s \<and> copies_ok s0 cr3 J \<and> refs_ok s0 cr3 H J s
    \<and> (\<forall>v \<in> user_vas s0 cr3. vmm_get_pte s cr3 v = entry_at s0 cr3 H J v)
    \<and> (\<forall>u. (\<forall>v \<in> user_vas s0 cr3. \<not> same_page v u) \<longrightarrow> vmm_get_pte s cr3 u = vmm_get_pte s0 cr3 u)
    \<and> (\<forall>f. live_frame s0 f \<and> \<not> leaf_frame s0 cr3 f \<longrightarrow> frames s f = frames s0 f)"

lemma entry_captured: "phys_at s cr3 v OR flags_at s cr3 v = vmm_get_pte s cr3 v"
  by (simp add: phys_at_def flags_at_def pte_split)

lemma snap_mem_init:
  assumes "private_aspace cr3 s" "cow_wf s" "g_cow_tracker_cache s"
  shows "snap_mem cr3 s {} (\<lambda>_. None) s"
proof -
  have "page_refs s (frame_no (phys_at s cr3 v)) = refs_at s cr3 {} (\<lambda>_. None) v" if "v \<in> user_vas s cr3" for v
    using user_vasD(4) [OF assms(1) that] by (auto simp: refs_at_def)
  then show ?thesis using assms
    by (auto simp: snap_mem_def tables_kept_def held_ok_def copies_ok_def refs_ok_def private_aspace_def entry_at_def entry_captured)
qed

lemma kept_tables:
  assumes "tables_kept cr3 s0 s"
  shows "table_frame s cr3 f = table_frame s0 cr3 f" "has_path s cr3 v = has_path s0 cr3 v" "leaf_frame s cr3 f = leaf_frame s0 cr3 f"
  using assms path3_ok(1) by (auto simp: tables_kept_def table_frame_def has_path_def leaf_frame_def)

lemma kept_trans:
  assumes "tables_kept cr3 s0 s" "tables_wf s' cr3" "total_pages s' = total_pages s" "\<And>p. ok_path p \<Longrightarrow> tabs s' cr3 p = tabs s cr3 p"
  shows "tables_kept cr3 s0 s'"
  using assms by (simp add: tables_kept_def)

lemma copies_inj: "copies_ok s0 cr3 J \<Longrightarrow> J u = Some j \<Longrightarrow> J v = Some j \<Longrightarrow> u = v"
  unfolding copies_ok_def by (metis domI inj_onD)

lemma copies_free: "copies_ok s0 cr3 J \<Longrightarrow> J u = Some j \<Longrightarrow> page_refs s0 j = None \<and> j \<noteq> 0 \<and> j < total_pages s0 \<and> u \<in> user_vas s0 cr3"
  unfolding copies_ok_def by (auto simp: ran_def)

text \<open>A step that touches one page \<open>v\<close>, its frame and its copy.\<close>

lemma snap_mem_step:
  assumes m: "snap_mem cr3 s0 H J s" and P: "private_aspace cr3 s0" and v: "v \<in> user_vas s0 cr3"
    and k: "tables_kept cr3 s0 s'" and h: "held_ok s0 cr3 H' s'" and c: "copies_ok s0 cr3 J'"
    and HJ: "\<And>u. u \<noteq> v \<Longrightarrow> (u \<in> H' \<longleftrightarrow> u \<in> H) \<and> J' u = J u"
    and pte: "\<And>u. vmm_get_pte s' cr3 u = (if same_page v u then entry_at s0 cr3 H' J' v else vmm_get_pte s cr3 u)"
    and fr: "\<And>f. live_frame s0 f \<Longrightarrow> \<not> leaf_frame s0 cr3 f \<Longrightarrow> frames s' f = frames s f"
    and r: "page_refs s' (frame_no (phys_at s0 cr3 v)) = refs_at s0 cr3 H' J' v"
    and rj: "\<And>j. J' v = Some j \<Longrightarrow> page_refs s' j = Some 1"
    and rn: "\<And>j. J v = Some j \<Longrightarrow> J' v \<noteq> Some j \<Longrightarrow> page_refs s' j = None"
    and ro: "\<And>i. i \<noteq> frame_no (phys_at s0 cr3 v) \<Longrightarrow> J v \<noteq> Some i \<Longrightarrow> J' v \<noteq> Some i \<Longrightarrow> page_refs s' i = page_refs s i"
  shows "snap_mem cr3 s0 H' J' s'"
proof -
  let ?U = "user_vas s0 cr3" and ?n = "\<lambda>u. frame_no (phys_at s0 cr3 u)"
  have M: "refs_ok s0 cr3 H J s" "copies_ok s0 cr3 J" using m by (simp_all add: snap_mem_def)
  have same: "entry_at s0 cr3 H' J' u = entry_at s0 cr3 H J u" "refs_at s0 cr3 H' J' u = refs_at s0 cr3 H J u" if "u \<noteq> v" for u
    using HJ [OF that] by (simp_all add: entry_at_def refs_at_def)
  have ju: "J u \<noteq> Some j" if "J v = Some j" "u \<noteq> v" for u j
    using copies_inj [OF M(2)] that by blast
  have ju': "J' u \<noteq> Some j" if "J' v = Some j" "u \<noteq> v" for u j
    using copies_inj [OF c] that by blast
  have free: "page_refs s0 j = None" if "J u = Some j \<or> J' u = Some j" for u j
    using copies_free [OF M(2)] copies_free [OF c] that by blast
  have nf: "J x \<noteq> Some (?n u)" "J' x \<noteq> Some (?n u)" if "u \<in> ?U" for u x
    using free [of x "?n u"] user_vasD(4) [OF P that] by auto
  have "refs_ok s0 cr3 H' J' s'"
    unfolding refs_ok_def
  proof (intro conjI ballI allI impI)
    fix u
    assume u: "u \<in> ?U"
    show "page_refs s' (?n u) = refs_at s0 cr3 H' J' u"
    proof (cases "u = v")
      case False
      then have "page_refs s' (?n u) = page_refs s (?n u)" using ro [of "?n u"] phys_inj(2) [OF P u v] nf [OF u] by simp
      then show ?thesis using M(1) u same(2) [OF False] by (simp add: refs_ok_def)
    qed (use r in simp)
  next
    fix j
    assume "j \<in> ran J'"
    then obtain u where u: "J' u = Some j" by (auto simp: ran_def)
    show "page_refs s' j = Some 1"
    proof (cases "u = v")
      case False
      then have "J u = Some j" using HJ u by simp
      then have a: "page_refs s j = Some 1" "J v \<noteq> Some j" using M(1) ju [of j u] False by (auto simp: refs_ok_def ran_def)
      have b: "J' v \<noteq> Some j" using ju' [of j u] u False by auto
      have "j \<noteq> ?n v" using nf(2) [OF v, of u] u by auto
      with ro [of j] a b show ?thesis by simp
    qed (use u rj in simp)
  next
    fix i
    assume i: "i \<notin> ran J' \<and> i \<notin> ?n ` ?U"
    show "page_refs s' i = page_refs s0 i"
    proof (cases "J v = Some i")
      case True
      then have "page_refs s' i = None" using rn [of i] i by (auto simp: ran_def)
      then show ?thesis using free [of v i] True by simp
    next
      case False
      have "i \<notin> ran J"
      proof
        assume "i \<in> ran J"
        then obtain u where "J u = Some i" "u \<noteq> v" using False by (auto simp: ran_def)
        then show False using HJ [of u] i by (auto simp: ran_def)
      qed
      then have "page_refs s i = page_refs s0 i" using M(1) i by (simp add: refs_ok_def)
      moreover have "page_refs s' i = page_refs s i" using ro [of i] i False v by (auto simp: ran_def)
      ultimately show ?thesis by simp
    qed
  qed
  moreover have "vmm_get_pte s' cr3 u = entry_at s0 cr3 H' J' u" if u: "u \<in> ?U" for u
    using pte [of u] user_vas_same [OF v u] m same(1) [of u] u by (cases "u = v") (auto simp: snap_mem_def)
  moreover have "vmm_get_pte s' cr3 u = vmm_get_pte s0 cr3 u" if "\<forall>v \<in> ?U. \<not> same_page v u" for u
    using pte [of u] m that v by (simp add: snap_mem_def)
  moreover have "frames s' f = frames s0 f" if "live_frame s0 f" "\<not> leaf_frame s0 cr3 f" for f
    using fr [OF that] m that by (simp add: snap_mem_def)
  ultimately show ?thesis using k h c by (simp add: snap_mem_def)
qed

section \<open>Entries\<close>

lemma flag_bits: "bit PTE_PRESENT n \<longleftrightarrow> n = 0" "bit PTE_WRITABLE n \<longleftrightarrow> n = 1" "bit PTE_USER n \<longleftrightarrow> n = 2"
proof -
  have e: "PTE_PRESENT = 2 ^ 0" "PTE_WRITABLE = 2 ^ 1" "PTE_USER = 2 ^ 2" by (simp_all add: PTE_PRESENT_def PTE_WRITABLE_def PTE_USER_def)
  show "bit PTE_PRESENT n \<longleftrightarrow> n = 0" "bit PTE_WRITABLE n \<longleftrightarrow> n = 1" "bit PTE_USER n \<longleftrightarrow> n = 2"
    unfolding e bit_exp_iff by auto
qed

lemma writable_bit: "has_flag e PTE_WRITABLE \<longleftrightarrow> bit e 1"
  using and_exp_eq_0_iff_not_bit [of e 1] by (simp add: has_flag_def PTE_WRITABLE_def)

lemma user_bit: "has_flag e PTE_USER \<longleftrightarrow> bit e 2"
  using and_exp_eq_0_iff_not_bit [of e 2] by (simp add: has_flag_def PTE_USER_def)

lemmas entry_bits = bit_or_iff bit_and_iff bit_not_iff flag_bits PAGE_MASK_bits PHYS_ADDR_MASK_bits

text \<open>What the protection call makes of an entry: \<open>p\<close> is a frame, \<open>f\<close> flags that say present.\<close>

lemma protected_entry:
  assumes "pte_phys p = p" "pte_phys f = 0" "bit f 0" "g = f \<or> g = f AND NOT PTE_WRITABLE"
    and "h = f \<or> h = f AND NOT PTE_WRITABLE" "x = 0 \<or> x = PTE_PRESENT"
  shows "((p OR g) AND PAGE_MASK) OR ((h OR x) AND NOT PAGE_MASK) OR PTE_PRESENT = p OR h"
proof (rule bit_word_eqI)
  fix n
  assume n: "n < LENGTH(64)"
  have gh: "n \<noteq> 1 \<Longrightarrow> bit g n = bit f n" "n \<noteq> 1 \<Longrightarrow> bit h n = bit f n" "n \<noteq> 0 \<Longrightarrow> \<not> bit x n"
    using assms(4-6) n by (auto simp: entry_bits)
  show "bit (((p OR g) AND PAGE_MASK) OR ((h OR x) AND NOT PAGE_MASK) OR PTE_PRESENT) n = bit (p OR h) n"
  proof (cases "n < 12")
    case True
    moreover have "\<not> bit p n" using assms(1) True by (metis PHYS_ADDR_MASK_bits bit_and_iff not_le pte_phys_def)
    moreover have "n = 0 \<Longrightarrow> bit h n" using gh assms(3) by simp
    ultimately show ?thesis using n gh(3) by (cases "n = 0") (simp_all add: entry_bits)
  next
    case False
    then show ?thesis using n gh by (simp add: entry_bits)
  qed
qed

lemma entry_phys:
  assumes "pte_phys p = p" "pte_phys f = 0"
  shows "pte_phys (p OR (f AND x)) = p" "pte_phys (p OR f) = p" "pte_phys (p OR (f OR PTE_WRITABLE)) = p"
proof -
  have "(f AND x) AND PHYS_ADDR_MASK = (f AND PHYS_ADDR_MASK) AND x" by (simp only: and.assoc and.commute [of x])
  then have "pte_phys (f AND x) = 0" using assms(2) by (simp add: pte_phys_def)
  moreover have "pte_phys PTE_WRITABLE = 0" by (simp add: pte_phys_def PHYS_ADDR_MASK_def PTE_WRITABLE_def)
  ultimately show "pte_phys (p OR (f AND x)) = p" "pte_phys (p OR f) = p" "pte_phys (p OR (f OR PTE_WRITABLE)) = p"
    using assms by (simp_all add: pte_phys_or)
qed

lemma user_entry:
  assumes P: "private_aspace cr3 s" and v: "v \<in> user_vas s cr3"
  shows "pte_phys (phys_at s cr3 v) = phys_at s cr3 v" "pte_phys (flags_at s cr3 v) = 0" "bit (flags_at s cr3 v) 0"
    "bit (flags_at s cr3 v) 2" "aligned (phys_at s cr3 v)" "phys_at s cr3 v \<noteq> 0"
proof -
  have sz: "pmm_sized s" "total_pages s \<le> 2 ^ 40" using P by (simp_all add: private_aspace_def tables_wf_def)
  note D = user_vasD [OF P v]
  show "pte_phys (phys_at s cr3 v) = phys_at s cr3 v" "aligned (phys_at s cr3 v)" "phys_at s cr3 v \<noteq> 0"
    using live_frame_phys [OF sz D(1)] by simp_all
  show "pte_phys (flags_at s cr3 v) = 0" by (simp add: flags_at_def)
  show "bit (flags_at s cr3 v) 0" "bit (flags_at s cr3 v) 2"
    using get_pte_present [OF D(5)] D(6) by (simp_all add: flags_at_def pte_flags_def present_bit user_bit entry_bits)
qed

lemma entry_at_facts:
  assumes P: "private_aspace cr3 s0" and m: "snap_mem cr3 s0 H J s" and v: "v \<in> user_vas s0 cr3"
  shows "pte_phys (entry_at s0 cr3 H J v) = (case J v of None \<Rightarrow> phys_at s0 cr3 v | Some j \<Rightarrow> page_addr j)"
    "has_flag (entry_at s0 cr3 H J v) PTE_USER" "has_flag (entry_at s0 cr3 H J v) PTE_PRESENT" "entry_at s0 cr3 H J v \<noteq> 0"
    "J v \<noteq> None \<Longrightarrow> has_flag (entry_at s0 cr3 H J v) PTE_WRITABLE"
    "J v = None \<Longrightarrow> v \<in> H \<Longrightarrow> \<not> has_flag (entry_at s0 cr3 H J v) PTE_WRITABLE"
proof -
  have sz: "pmm_sized s0" "total_pages s0 \<le> 2 ^ 40" using P by (simp_all add: private_aspace_def tables_wf_def)
  note E = user_entry [OF P v]
  have j: "pte_phys (page_addr j) = page_addr j" if "J v = Some j" for j
    using copies_free [of s0 cr3 J v j] m that page_addr_bits [OF sz] by (simp add: snap_mem_def)
  show "pte_phys (entry_at s0 cr3 H J v) = (case J v of None \<Rightarrow> phys_at s0 cr3 v | Some j \<Rightarrow> page_addr j)"
    using entry_phys [OF E(1,2)] entry_phys(3) [OF j E(2)] by (simp add: entry_at_def split: option.split)
  show "has_flag (entry_at s0 cr3 H J v) PTE_USER" "has_flag (entry_at s0 cr3 H J v) PTE_PRESENT"
    using E(3,4) by (simp_all add: entry_at_def present_bit user_bit entry_bits split: option.split)
  then show "entry_at s0 cr3 H J v \<noteq> 0" by (auto simp: has_flag_def)
  show "J v \<noteq> None \<Longrightarrow> has_flag (entry_at s0 cr3 H J v) PTE_WRITABLE"
    by (auto simp: entry_at_def writable_bit entry_bits)
  have "\<not> bit (phys_at s0 cr3 v) 1" using E(5) by (simp add: aligned_bits)
  then show "J v = None \<Longrightarrow> v \<in> H \<Longrightarrow> \<not> has_flag (entry_at s0 cr3 H J v) PTE_WRITABLE"
    by (simp add: entry_at_def writable_bit entry_bits)
qed

section \<open>Steps\<close>

lemma snap_memD:
  assumes "snap_mem cr3 s0 H J s"
  shows "tables_wf s cr3" "pmm_sized s" "total_pages s = total_pages s0" "cow_wf s" "g_cow_tracker_cache s"
    "v \<in> user_vas s0 cr3 \<Longrightarrow> vmm_get_pte s cr3 v = entry_at s0 cr3 H J v"
    "v \<in> user_vas s0 cr3 \<Longrightarrow> page_refs s (frame_no (phys_at s0 cr3 v)) = refs_at s0 cr3 H J v"
    "table_frame s cr3 f = table_frame s0 cr3 f" "has_path s cr3 v = has_path s0 cr3 v"
    "J v = Some j \<Longrightarrow> page_refs s j = Some 1"
  using assms kept_tables [of cr3 s0 s]
  by (auto simp: snap_mem_def tables_kept_def held_ok_def tables_wf_def refs_ok_def ran_def)

lemma live_held:
  assumes "private_aspace cr3 s0" "snap_mem cr3 s0 H J s" "v \<in> user_vas s0 cr3" "refs_at s0 cr3 H J v \<noteq> None"
  shows "live_frame s (phys_at s0 cr3 v)"
proof -
  have "pmm_sized s0" using assms(1) by (simp add: private_aspace_def tables_wf_def)
  from frame_no_live [OF this user_vasD(1) [OF assms(1,3)]] show ?thesis
    using assms(4) snap_memD(7) [OF assms(2,3)] snap_memD(3) [OF assms(2)] by (simp add: live_iff [OF snap_memD(2) [OF assms(2)]])
qed

lemma refs_at_update:
  assumes "private_aspace cr3 s0" "v \<in> user_vas s0 cr3"
  obtains n where "page_refs s0 (frame_no (phys_at s0 cr3 v)) = Some n" "0 < n" "n < 255"
    "\<And>H J. refs_at s0 cr3 H J v = (let r = n + (if v \<in> H then 1 else 0) - (if J v = None then 0 else 1) in if r = 0 then None else Some r)"
  using user_vasD(4) [OF assms] that by (auto simp: refs_at_def)

text \<open>Changing a reference count or a tracker leaves the tables alone.\<close>

lemma tables_kept_refs:
  assumes k: "tables_kept cr3 s0 s" and f: "frames s' = frames s" "pmm_sized s'" "total_pages s' = total_pages s"
    and r: "\<And>t. table_frame s cr3 t \<Longrightarrow> live_frame s t \<Longrightarrow> live_frame s' t"
  shows "tables_kept cr3 s0 s'"
proof (rule kept_trans [OF k])
  show "tables_wf s' cr3" using tables_wf_eq [OF _ tables_eq_frames [OF f(1)] f(2)] k r by (simp add: tables_kept_def)
  show "tabs s' cr3 p = tabs s cr3 p" for p by (rule tabs_same_frames [OF f(1)])
qed (rule f(3))

lemma tables_kept_leaf:
  assumes "tables_kept cr3 s0 s"
  shows "tables_kept cr3 s0 (set_leaf cr3 v w s)"
  by (rule kept_trans [OF assms]) (use assms in \<open>simp_all add: tables_kept_def set_leaf_wf set_leaf_tabs\<close>)

text \<open>Tracker updates touch nothing but the tracker table.\<close>

lemma cow_fields_mm [simp]:
  "page_refs (s\<lparr>g_cow_buckets := b, g_cow_tracker_count := c\<rparr>) = page_refs s"
  "pmm_sized (s\<lparr>g_cow_buckets := b, g_cow_tracker_count := c\<rparr>) = pmm_sized s"
  "live_frame (s\<lparr>g_cow_buckets := b, g_cow_tracker_count := c\<rparr>) f = live_frame s f"
  by (auto simp: page_refs_def pmm_sized_def bitmap_test_bit_def live_frame_def fun_eq_iff)

text \<open>Taking one more reference on a page, and marking it read-only.\<close>

lemma bump_ref_step:
  assumes P: "private_aspace cr3 s0" and m: "snap_mem cr3 s0 H J s" and v: "v \<in> user_vas s0 cr3"
    and n: "refs_at s0 cr3 H J v = Some n" "n < 255" and s': "s' = pmm_page_ref (phys_at s0 cr3 v) (cow_page_tracker_bump True (phys_at s0 cr3 v) s)"
  shows "frames s' = frames s" "pmm_sized s'" "total_pages s' = total_pages s" "tables_kept cr3 s0 s'"
    "page_refs s' = (page_refs s)(frame_no (phys_at s0 cr3 v) \<mapsto> n + 1)"
    "held_ok s0 cr3 (insert v H) s'"
    "tracker_refs s' = (tracker_refs s)(phys_at s0 cr3 v \<mapsto>
        (case tracker_refs s (phys_at s0 cr3 v) of None \<Rightarrow> 1 | Some n \<Rightarrow> min (2 ^ 32 - 1) (n + 1)))"
proof -
  let ?p = "phys_at s0 cr3 v"
  note M = snap_memD [OF m] and E = user_entry [OF P v]
  note T = tracker_get_spec [OF M(4,5) E(5,6)]
  define s1 where "s1 = cow_page_tracker_bump True ?p s"
  from T(1) obtain b c where e: "s1 = s\<lparr>g_cow_buckets := b, g_cow_tracker_count := c\<rparr>" by (auto simp: s1_def)
  have l: "live_frame s1 ?p" "page_refs s1 (frame_no ?p) = Some n" "pmm_sized s1"
    using live_held [OF P m v] n M(2) M(7) [OF v] by (simp_all add: e)
  have s1': "s' = pmm_page_ref ?p s1" by (simp add: s' s1_def)
  note R = ref_effect [OF l(3,1,2) n(2) s1']
  show f: "frames s' = frames s" "pmm_sized s'" "total_pages s' = total_pages s"
    and r: "page_refs s' = (page_refs s)(frame_no ?p \<mapsto> n + 1)" using R by (simp_all add: e)
  show "tables_kept cr3 s0 s'"
  proof (rule tables_kept_refs [OF _ f])
    show "tables_kept cr3 s0 s" using m by (simp add: snap_mem_def)
    show "live_frame s' t" if "live_frame s t" for t by (rule live_frame_mono [OF that f(3)]) (simp add: r)
  qed
  have t: "tracker_refs s' = tracker_refs s1" "cow_wf s' = cow_wf s1" using tracker_same_more [OF R(2)] by simp_all
  show t': "tracker_refs s' = (tracker_refs s)(?p \<mapsto> (case tracker_refs s ?p of None \<Rightarrow> 1 | Some n \<Rightarrow> min (2 ^ 32 - 1) (n + 1)))"
    using t(1) T(3) by (simp add: s1_def)
  have "g_cow_tracker_cache s'" using same_more_cow [OF R(2)] M(5) by (simp add: e)
  then show "held_ok s0 cr3 (insert v H) s'"
    using m v t(2) T(2) t' by (auto simp: held_ok_def snap_mem_def s1_def)
qed

lemma capture_step:
  assumes P: "private_aspace cr3 s0" and m: "snap_mem cr3 s0 H J s" and v: "v \<in> user_vas s0 cr3" "v \<notin> H" "J v = None"
    and s1: "s1 = pmm_page_ref (phys_at s0 cr3 v) (cow_page_tracker_bump True (phys_at s0 cr3 v) s)"
    and s': "s' = (if has_flag (flags_at s0 cr3 v) PTE_WRITABLE
      then snd (vmm_protect_page_by_cr3 cr3 v (flags_at s0 cr3 v AND NOT PTE_WRITABLE) s1) else s1)"
  shows "snap_mem cr3 s0 (insert v H) J s'"
proof -
  let ?p = "phys_at s0 cr3 v" and ?f = "flags_at s0 cr3 v"
  from refs_at_update [OF P v(1)] obtain n where n: "0 < n" "n < 255"
    and ra: "\<And>H J. refs_at s0 cr3 H J v = (let r = n + (if v \<in> H then 1 else 0) - (if J v = None then 0 else 1) in if r = 0 then None else Some r)"
    by metis
  have rv: "refs_at s0 cr3 H J v = Some n" using n v by (simp add: ra)
  note B = bump_ref_step [OF P m v(1) rv n(2) s1] and M = snap_memD [OF m] and E = user_entry [OF P v(1)]
  have e: "vmm_get_pte s1 cr3 v = ?p OR ?f"
    using get_pte_same_frames [OF B(1), of cr3 v] M(6) [OF v(1)] v by (simp add: entry_at_def)
  have e0: "?p OR ?f \<noteq> 0" using entry_at_facts(4) [OF P m v(1)] v by (simp add: entry_at_def)
  have w1: "tables_wf s1 cr3" using B(4) by (simp add: tables_kept_def)
  have hp: "has_path s1 cr3 v" using get_pte_path [of s1 cr3 v] e e0 by simp
  define w where "w = ?p OR (?f AND NOT PTE_WRITABLE)"
  have s2: "s' = (if has_flag ?f PTE_WRITABLE then set_leaf cr3 v w s1 else s1)"
  proof -
    have "vmm_protect_page_by_cr3 cr3 v (?f AND NOT PTE_WRITABLE) s1 = (True, set_leaf cr3 v w s1)"
      using protect_set_leaf [of s1 cr3 v "?f AND NOT PTE_WRITABLE"] e e0
        protected_entry [OF E(1-3), of ?f "?f AND NOT PTE_WRITABLE" 0] by (simp add: w_def)
    then show ?thesis by (simp add: s')
  qed
  have ew: "entry_at s0 cr3 (insert v H) J v = w" using v by (simp add: entry_at_def w_def)
  have pw: "has_flag w PTE_PRESENT" using E(3) by (simp add: w_def present_bit entry_bits)
  have nw: "w = ?p OR ?f" if "\<not> has_flag ?f PTE_WRITABLE"
  proof -
    have "?f AND NOT PTE_WRITABLE = ?f"
      by (intro bit_word_eqI) (use that in \<open>auto simp: entry_bits writable_bit\<close>)
    then show ?thesis by (simp add: w_def)
  qed
  show ?thesis
  proof (rule snap_mem_step [OF m P v(1)])
    show "tables_kept cr3 s0 s'" using B(4) tables_kept_leaf [OF B(4)] by (simp add: s2)
    have "mm_state.more s' = mm_state.more s1" by (simp add: s2)
    then show "held_ok s0 cr3 (insert v H) s'"
      using B(6) tracker_same_more [of s' s1] same_more_cow [of s' s1] by (simp add: held_ok_def)
    show "copies_ok s0 cr3 J" using m by (simp add: snap_mem_def)
    show "(u \<in> insert v H \<longleftrightarrow> u \<in> H) \<and> J u = J u" if "u \<noteq> v" for u using that by simp
    show "vmm_get_pte s' cr3 u = (if same_page v u then entry_at s0 cr3 (insert v H) J v else vmm_get_pte s cr3 u)" for u
      unfolding ew s2 using set_leaf_get [OF w1 hp, of w u] pw nw e get_pte_same_frames [OF B(1), of cr3] get_pte_same_page [of v u s1 cr3]
      by simp
    show "frames s' f = frames s f" if "live_frame s0 f" "\<not> leaf_frame s0 cr3 f" for f
      using that kept_tables(3) [OF B(4)] set_leaf_frames [of s1 cr3 f v w] B(1) by (simp add: s2)
    show "page_refs s' (frame_no ?p) = refs_at s0 cr3 (insert v H) J v" using B(5) v by (simp add: s2 ra)
  qed (use v B(5) in \<open>simp_all add: s2\<close>)
qed

section \<open>Stores\<close>

lemma user_covered:
  assumes P: "private_aspace cr3 s0" and m: "snap_mem cr3 s0 H J s" and u: "has_flag (vmm_get_pte s cr3 va) PTE_USER"
  obtains v where "v \<in> user_vas s0 cr3" "same_page v va" "vmm_get_pte s cr3 va = entry_at s0 cr3 H J v"
proof (cases "\<exists>v \<in> user_vas s0 cr3. same_page v va")
  case True
  then obtain v where v: "v \<in> user_vas s0 cr3" "same_page v va" by blast
  then have "vmm_get_pte s cr3 va = entry_at s0 cr3 H J v" using snap_memD(6) [OF m v(1)] get_pte_same_page [OF v(2), of s cr3] by simp
  with v that show thesis by blast
next
  case False
  then have "vmm_get_pte s cr3 va = vmm_get_pte s0 cr3 va" using m by (simp add: snap_mem_def)
  with u user_vas_cover [OF P, of va] False show thesis by auto
qed

lemma copy_not_live:
  assumes P: "private_aspace cr3 s0" and m: "snap_mem cr3 s0 H J s" and j: "J v = Some j"
  shows "\<not> live_frame s0 (page_addr j)" "\<not> table_frame s0 cr3 (page_addr j)" "live_frame s (page_addr j)" "frame_no (page_addr j) = j"
proof -
  have sz: "pmm_sized s0" "tables_wf s0 cr3" using P by (simp_all add: private_aspace_def tables_wf_def)
  have c: "page_refs s0 j = None" "j \<noteq> 0" "j < total_pages s0" using copies_free [of s0 cr3 J v j] m j by (auto simp: snap_mem_def)
  show "\<not> live_frame s0 (page_addr j)" by (rule not_live_free [OF sz(1) c(3,1)])
  then show "\<not> table_frame s0 cr3 (page_addr j)" using tables_live [OF sz(2)] by (auto simp: table_frame_def)
  show "live_frame s (page_addr j)"
    using c snap_memD(3,10) [OF m] j by (auto simp: live_frame_def)
  show "frame_no (page_addr j) = j" by (rule frame_no_addr [OF sz(1) c(3)])
qed

text \<open>A state with the same tables, references, frames and trackers.\<close>

lemma snap_mem_same:
  assumes m: "snap_mem cr3 s0 H J s" and P: "private_aspace cr3 s0" and q: "tables_eq cr3 s s'" and r: "page_refs s' = page_refs s" "pmm_sized s'" "total_pages s' = total_pages s"
    and o: "mm_state.more s' = mm_state.more s" and f: "\<And>f. live_frame s0 f \<Longrightarrow> \<not> leaf_frame s0 cr3 f \<Longrightarrow> frames s' f = frames s f"
  shows "snap_mem cr3 s0 H J s'"
proof -
  have "tables_kept cr3 s0 s'"
  proof (rule kept_trans)
    show "tables_kept cr3 s0 s" using m by (simp add: snap_mem_def)
    show "tables_wf s' cr3" by (rule tables_wf_eq [OF snap_memD(1) [OF m] q r(2)]) (simp add: live_frame_def r)
    show "tabs s' cr3 p = tabs s cr3 p" if "ok_path p" for p using q that by (simp add: tables_eq_def)
  qed (rule r(3))
  moreover have "held_ok s0 cr3 H s'" using m tracker_same_more [OF o] same_more_cow [OF o] by (simp add: snap_mem_def held_ok_def)
  moreover have "refs_ok s0 cr3 H J s'" using m r(1) by (simp add: snap_mem_def refs_ok_def)
  ultimately show ?thesis using m f tables_eqD(1) [OF q] by (simp add: snap_mem_def)
qed

lemma store_now_step:
  assumes P: "private_aspace cr3 s0" and m: "snap_mem cr3 s0 (user_vas s0 cr3) J s"
  shows "snap_mem cr3 s0 (user_vas s0 cr3) J (snd (store_now cr3 va w s))"
proof (cases "has_flag (vmm_get_pte s cr3 va) PTE_USER \<and> has_flag (vmm_get_pte s cr3 va) PTE_WRITABLE")
  case False
  then have "store_now cr3 va w s = (False, s)" unfolding store_now_def Let_def by (rule if_not_P)
  then show ?thesis using m by simp
next
  case True
  then obtain v where v: "v \<in> user_vas s0 cr3" "vmm_get_pte s cr3 va = entry_at s0 cr3 (user_vas s0 cr3) J v"
    using user_covered [OF P m] by metis
  note E = entry_at_facts [OF P m v(1)]
  from E(6) v True obtain j where j: "J v = Some j" by (cases "J v") auto
  note C = copy_not_live [OF P m j]
  let ?i = "unat (drop_bit 3 (va AND 0xFFF))"
  have s': "store_now cr3 va w s = (True, put_word (page_addr j) ?i w s)"
    using True v(2) E(1) j by (simp add: store_now_def pte_phys_def)
  show ?thesis
    unfolding s' snd_conv
  proof (rule snap_mem_same [OF m P])
    show "tables_eq cr3 s (put_word (page_addr j) ?i w s)"
      by (rule tables_eq_other [of _ _ "page_addr j"]) (use C(2) snap_memD(8) [OF m] in \<open>simp_all add: put_word_def\<close>)
    show "frames (put_word (page_addr j) ?i w s) f = frames s f" if "live_frame s0 f" for f
      using that C(1) by (auto simp: put_word_def)
    show "mm_state.more (put_word (page_addr j) ?i w s) = mm_state.more s" by (simp add: put_word_def)
  qed (use snap_memD(2) [OF m] in simp_all)
qed

lemma zero_reserved:
  assumes P: "private_aspace cr3 s0" and m: "snap_mem cr3 s0 H J s"
  shows "page_refs s 0 \<noteq> None"
proof -
  have "pmm_sized s0" using P by (simp add: private_aspace_def tables_wf_def)
  then have "frame_no (phys_at s0 cr3 v) \<noteq> 0" if "v \<in> user_vas s0 cr3" for v
    using frame_no_live user_vasD(1) [OF P that] by blast
  then have "0 \<notin> (\<lambda>v. frame_no (phys_at s0 cr3 v)) ` user_vas s0 cr3" by (metis imageE)
  moreover have "0 \<notin> ran J" using m by (auto simp: snap_mem_def copies_ok_def)
  ultimately show ?thesis using m P by (simp add: snap_mem_def refs_ok_def private_aspace_def)
qed

lemma writable_back: "(f AND NOT PTE_WRITABLE) OR PTE_WRITABLE = f OR PTE_WRITABLE"
  by (intro bit_word_eqI) (auto simp: entry_bits)

lemma flags_of_entry:
  assumes "pte_phys p = p" "pte_phys f = 0"
  shows "pte_flags (p OR (f AND x)) = f AND x"
proof -
  have "pte_phys p = p \<Longrightarrow> bit p n \<Longrightarrow> bit PHYS_ADDR_MASK n" for p n by (metis bit_and_iff pte_phys_def)
  moreover have "bit f n \<Longrightarrow> \<not> bit PHYS_ADDR_MASK n" for n using assms(2) by (metis bit_0_eq bit_and_iff bot_apply bot_bool_def pte_phys_def)
  ultimately show ?thesis unfolding pte_flags_def using assms(1) by (intro bit_word_eqI) (auto simp: bit_or_iff bit_and_iff bit_not_iff)
qed

lemma cow_effect_mem:
  assumes P: "private_aspace cr3 s0" and m: "snap_mem cr3 s0 (user_vas s0 cr3) J s"
    and v: "v \<in> user_vas s0 cr3" "same_page v va" "vmm_get_pte s cr3 va = entry_at s0 cr3 (user_vas s0 cr3) J v" "J v = None"
    and X: "cow_effect cr3 va j s s'"
  shows "snap_mem cr3 s0 (user_vas s0 cr3) (J(v \<mapsto> j)) s'"
proof -
  let ?U = "user_vas s0 cr3" and ?p = "phys_at s0 cr3 v" and ?f = "flags_at s0 cr3 v"
  note E = entry_at_facts [OF P m v(1)] and M = snap_memD [OF m] and UE = user_entry [OF P v(1)]
  have ph: "pte_phys (vmm_get_pte s cr3 va) = ?p" using E(1) v by simp
  have fl: "pte_flags (vmm_get_pte s cr3 va) OR PTE_WRITABLE = ?f OR PTE_WRITABLE"
    using flags_of_entry [OF UE(1,2)] writable_back v by (simp add: entry_at_def)
  from refs_at_update [OF P v(1)] obtain n where n: "0 < n" "n < 255"
    and ra: "\<And>H J. refs_at s0 cr3 H J v = (let r = n + (if v \<in> H then 1 else 0) - (if J v = None then 0 else 1) in if r = 0 then None else Some r)"
    by metis
  have rv: "page_refs s (frame_no ?p) = Some (n + 1)" using M(7) [OF v(1)] v by (simp add: ra)
  from X have j: "j \<noteq> 0" "j < total_pages s0" "page_refs s j = None" "page_refs s' = (page_refs s)(j \<mapsto> 1, frame_no ?p \<mapsto> n)"
    and fr: "\<And>f. \<not> leaf_frame s cr3 f \<Longrightarrow> f \<noteq> page_addr j \<Longrightarrow> frames s' f = frames s f"
    and pte: "\<And>u. vmm_get_pte s' cr3 u = (if same_page va u then page_addr j OR (?f OR PTE_WRITABLE) else vmm_get_pte s cr3 u)"
    and T: "tables_wf s' cr3" "total_pages s' = total_pages s" "mm_state.more s' = mm_state.more s"
      "\<And>x. ok_path x \<Longrightarrow> tabs s' cr3 x = tabs s cr3 x"
    using rv M(3) unfolding cow_effect_def Let_def ph fl by auto
  have nj: "j \<noteq> frame_no (phys_at s0 cr3 u)" if u: "u \<in> ?U" for u
  proof -
    from refs_at_update [OF P u] obtain k where "0 < k"
      "refs_at s0 cr3 ?U J u = (let r = k + (if u \<in> ?U then 1 else 0) - (if J u = None then 0 else 1) in if r = 0 then None else Some r)" by metis
    then have "page_refs s (frame_no (phys_at s0 cr3 u)) \<noteq> None" using M(7) [OF u] u by simp
    with j(3) show ?thesis by metis
  qed
  have jr: "j \<notin> ran J" using m j(3) by (auto simp: snap_mem_def refs_ok_def)
  then have j0: "page_refs s0 j = None" using nj m j(3) unfolding snap_mem_def refs_ok_def by (metis imageE)
  have sz: "pmm_sized s0" "pmm_sized s" using P M(2) by (simp_all add: private_aspace_def tables_wf_def)
  have jp: "page_addr j \<noteq> f" if "live_frame s0 f" for f using not_live_free [OF sz(1) j(2) j0] that by auto
  show ?thesis
  proof (rule snap_mem_step [OF m P v(1)])
    show "tables_kept cr3 s0 s'" using m T by (auto simp: snap_mem_def tables_kept_def)
    show "held_ok s0 cr3 ?U s'" using m tracker_same_more [OF T(3)] same_more_cow [OF T(3)] by (simp add: snap_mem_def held_ok_def)
    have c: "copies_ok s0 cr3 J" using m by (simp add: snap_mem_def)
    have "inj_on (J(v \<mapsto> j)) (dom (J(v \<mapsto> j)))"
    proof (rule inj_onI)
      fix x y
      assume xy: "x \<in> dom (J(v \<mapsto> j))" "(J(v \<mapsto> j)) x = (J(v \<mapsto> j)) y"
      from xy(1) obtain k where k: "(J(v \<mapsto> j)) x = Some k" by blast
      have z: "J z \<noteq> Some j" for z using jr by (auto simp: ran_def)
      show "x = y"
      proof (cases "x = v \<or> y = v")
        case True
        with k xy(2) z [of x] z [of y] show ?thesis by (auto split: if_splits)
      next
        case False
        with k xy(2) copies_inj [OF c, of x k y] show ?thesis by simp
      qed
    qed
    then show "copies_ok s0 cr3 (J(v \<mapsto> j))" using c v j j0 by (auto simp: copies_ok_def ran_def)
    show "vmm_get_pte s' cr3 u = (if same_page v u then entry_at s0 cr3 ?U (J(v \<mapsto> j)) v else vmm_get_pte s cr3 u)" for u
      using pte [of u] same_page_trans [OF v(2), of u] by (simp add: entry_at_def)
    show "frames s' f = frames s f" if "live_frame s0 f" "\<not> leaf_frame s0 cr3 f" for f
      using fr [of f] that jp [OF that(1)] kept_tables(3) [of cr3 s0 s] m by (auto simp: snap_mem_def)
    show "page_refs s' (frame_no ?p) = refs_at s0 cr3 ?U (J(v \<mapsto> j)) v" using j(4) n v(1) by (simp add: ra)
  qed (use j(4) nj [OF v(1)] v(4) in auto)
qed

text \<open>The frame behind a page user mode can reach is in use, is no table, and belongs to that page only.\<close>

lemma snap_user_frame:
  assumes P: "private_aspace cr3 s0" and m: "snap_mem cr3 s0 H J s" and u: "has_flag (vmm_get_pte s cr3 u) PTE_USER"
  shows "live_frame s (pte_phys (vmm_get_pte s cr3 u))" "\<not> leaf_frame s cr3 (pte_phys (vmm_get_pte s cr3 u))"
    "has_flag (vmm_get_pte s cr3 v) PTE_USER \<Longrightarrow> pte_phys (vmm_get_pte s cr3 v) = pte_phys (vmm_get_pte s cr3 u) \<Longrightarrow> same_page u v"
proof -
  from user_covered [OF P m u] obtain a where a: "a \<in> user_vas s0 cr3" "same_page a u" "vmm_get_pte s cr3 u = entry_at s0 cr3 H J a" by metis
  note A = entry_at_facts(1) [OF P m a(1)]
  have own: "live_frame s (pte_phys (vmm_get_pte s cr3 u)) \<and> \<not> table_frame s cr3 (pte_phys (vmm_get_pte s cr3 u))"
  proof (cases "J a")
    case None
    from refs_at_update [OF P a(1)] obtain n where "0 < n" "refs_at s0 cr3 H J a = (let r = n + (if a \<in> H then 1 else 0)
      - (if J a = None then 0 else 1) in if r = 0 then None else Some r)" by metis
    then have "live_frame s (phys_at s0 cr3 a)" using live_held [OF P m a(1)] None by (simp add: Let_def)
    then show ?thesis using A None a(3) user_vasD(2) [OF P a(1)] snap_memD(8) [OF m] by simp
  next
    case (Some j)
    then show ?thesis using A a(3) copy_not_live(2,3) [OF P m Some] snap_memD(8) [OF m] by simp
  qed
  then show "live_frame s (pte_phys (vmm_get_pte s cr3 u))" "\<not> leaf_frame s cr3 (pte_phys (vmm_get_pte s cr3 u))"
    by (auto simp: leaf_frame_def table_frame_def)
  assume v: "has_flag (vmm_get_pte s cr3 v) PTE_USER" "pte_phys (vmm_get_pte s cr3 v) = pte_phys (vmm_get_pte s cr3 u)"
  from user_covered [OF P m v(1)] obtain b where b: "b \<in> user_vas s0 cr3" "same_page b v" "vmm_get_pte s cr3 v = entry_at s0 cr3 H J b" by metis
  note B = entry_at_facts(1) [OF P m b(1)]
  have "a = b"
  proof (cases "J a")
    case None
    then have ab: "phys_at s0 cr3 a = (case J b of None \<Rightarrow> phys_at s0 cr3 b | Some j \<Rightarrow> page_addr j)"
      using A B a(3) b(3) v(2) by simp
    have "J b = None"
    proof (rule ccontr)
      assume "J b \<noteq> None"
      then obtain j where j: "J b = Some j" by blast
      with ab copy_not_live(1) [OF P m j] user_vasD(1) [OF P a(1)] show False by simp
    qed
    with ab phys_inj(1) [OF P a(1) b(1)] show ?thesis by simp
  next
    case (Some j)
    then have ab: "page_addr j = (case J b of None \<Rightarrow> phys_at s0 cr3 b | Some j \<Rightarrow> page_addr j)"
      using A B a(3) b(3) v(2) by simp
    have "J b \<noteq> None"
    proof
      assume "J b = None"
      with ab copy_not_live(1) [OF P m Some] user_vasD(1) [OF P b(1)] show False by simp
    qed
    then obtain k where k: "J b = Some k" "page_addr k = page_addr j" using ab by auto
    then have "k = j" using copy_not_live(4) [OF P m Some] copy_not_live(4) [OF P m k(1)] by metis
    with copies_inj [of s0 cr3 J a j b] m Some k(1) show ?thesis by (simp add: snap_mem_def)
  qed
  then show "same_page u v" using a(2) b(2) same_page_trans same_page_sym by metis
qed

text \<open>A fault either changes nothing of interest or gives the page a private copy.\<close>

lemma cow_effect_view:
  assumes P: "private_aspace cr3 s0" and m: "snap_mem cr3 s0 H J s" and u: "has_flag (vmm_get_pte s cr3 va) PTE_USER"
    and X: "cow_effect cr3 va j s s'"
  shows "user_view s' cr3 v = user_view s cr3 v"
proof (cases "same_page va v")
  case True
  have sz: "pmm_sized s" "total_pages s \<le> 2 ^ 40" using snap_memD(2,3) [OF m] P by (simp_all add: private_aspace_def)
  have e: "vmm_get_pte s cr3 v = vmm_get_pte s cr3 va" using get_pte_same_page [OF True, of s cr3] by simp
  have x: "vmm_get_pte s' cr3 v = page_addr j OR (pte_flags (vmm_get_pte s cr3 va) OR PTE_WRITABLE)"
    "frames s' (page_addr j) = frames s (pte_phys (vmm_get_pte s cr3 va))" "j < total_pages s"
    using X True by (simp_all add: cow_effect_def Let_def)
  have "pte_phys (pte_flags (vmm_get_pte s cr3 va)) = 0" by (simp add: pte_phys_def pte_flags_def and.assoc)
  then have ph: "pte_phys (vmm_get_pte s' cr3 v) = page_addr j"
    unfolding x(1) using entry_phys(3) page_addr_bits [OF sz x(3)] by blast
  have "\<not> bit PHYS_ADDR_MASK 2" by (simp add: PHYS_ADDR_MASK_bits)
  then have "has_flag (vmm_get_pte s' cr3 v) PTE_USER"
    unfolding x(1) using u by (simp add: user_bit entry_bits pte_flags_def)
  then show ?thesis using ph x(2) u e by (simp add: user_view_def Let_def)
next
  case False
  then have e: "vmm_get_pte s' cr3 v = vmm_get_pte s cr3 v" using X by (simp add: cow_effect_def Let_def)
  show ?thesis
  proof (cases "has_flag (vmm_get_pte s cr3 v) PTE_USER")
    case True
    note F = snap_user_frame [OF P m True]
    have "page_refs s j = None" "j < total_pages s" using X by (simp_all add: cow_effect_def Let_def)
    then have "pte_phys (vmm_get_pte s cr3 v) \<noteq> page_addr j" using F(1) not_live_free [OF snap_memD(2) [OF m]] by metis
    then have "frames s' (pte_phys (vmm_get_pte s cr3 v)) = frames s (pte_phys (vmm_get_pte s cr3 v))"
      using X F(2) by (simp add: cow_effect_def Let_def)
    then show ?thesis by (simp add: user_view_def e Let_def)
  qed (simp add: user_view_def e Let_def)
qed

lemma fault_step:
  assumes P: "private_aspace cr3 s0" and m: "snap_mem cr3 s0 (user_vas s0 cr3) J s"
    and c: "snap_cow_pf_dispatch (Some cr3) va 7 s = (rc, s')"
  shows "(\<exists>J'. snap_mem cr3 s0 (user_vas s0 cr3) J' s') \<and> user_view s' cr3 = user_view s cr3"
proof (cases "g_cow_tracker_count s \<noteq> 0 \<and> has_flag (vmm_get_pte s cr3 va) PTE_USER \<and> \<not> has_flag (vmm_get_pte s cr3 va) PTE_WRITABLE")
  case False
  have "s' = s"
    using c False get_pte_same_page [OF page_va_same, of s cr3 va]
    by (auto simp: snap_cow_pf_dispatch_def cow_fault_handle_def Let_def split: if_splits)
  with m show ?thesis by blast
next
  case True
  let ?U = "user_vas s0 cr3" and ?e = "vmm_get_pte s cr3 va"
  from True obtain v where v: "v \<in> ?U" "same_page v va" "?e = entry_at s0 cr3 ?U J v" using user_covered [OF P m] by metis
  note E = entry_at_facts [OF P m v(1)] and M = snap_memD [OF m]
  have jn: "J v = None" using E(5) True v(3) by (cases "J v") auto
  let ?p = "phys_at s0 cr3 v"
  have ph: "pte_phys ?e = ?p" using E(1) jn v(3) by simp
  from refs_at_update [OF P v(1)] obtain n where n: "0 < n" "n < 255"
    and ra: "\<And>H J. refs_at s0 cr3 H J v = (let r = n + (if v \<in> H then 1 else 0) - (if J v = None then 0 else 1) in if r = 0 then None else Some r)"
    by metis
  have rv: "refs_at s0 cr3 ?U J v = Some (n + 1)" using jn v(1) by (simp add: ra)
  have tr: "tracker_refs s ?p \<noteq> None" using m v(1) by (simp add: snap_mem_def held_ok_def)
  have lv: "live_frame s ?p" using live_held [OF P m v(1)] rv by simp
  have nt: "\<not> table_frame s cr3 ?p" using user_vasD(2) [OF P v(1)] M(8) by simp
  obtain p s1 where al: "pmm_alloc_page s = (p, s1)" by fastforce
  have sm: "total_pages s \<le> 2 ^ 40" using P M(3) by (simp add: private_aspace_def)
  show ?thesis
  proof (cases "p = NULL")
    case True
    have "s' = s1"
      using c al True \<open>g_cow_tracker_count s \<noteq> 0 \<and> _ \<and> _\<close> get_pte_same_page [OF page_va_same, of s cr3 va] tr ph user_not_zero [of ?e]
      by (auto simp: snap_cow_pf_dispatch_def cow_fault_handle_def Let_def tracker_refs_def pte_phys_def)
    moreover have "snap_mem cr3 s0 ?U J s1 \<and> user_view s1 cr3 = user_view s cr3"
      using M(2) al
    proof (cases rule: alloc_page_cases)
      case (page i)
      have "i = 0" using page(1,3) True page_addr_zero [OF M(2)] by simp
      with page(2) zero_reserved [OF P m] show ?thesis by simp
    next
      case none
      have f: "frames s1 = frames s" "mm_state.more s1 = mm_state.more s" using more_mm [OF none(7)] by simp_all
      have "user_view s1 cr3 = user_view s cr3" by (simp add: fun_eq_iff user_view_def get_pte_same_frames [OF f(1)] f(1) Let_def)
      moreover have "snap_mem cr3 s0 ?U J s1" by (rule snap_mem_same [OF m P tables_eq_frames [OF f(1)]]) (use none f in simp_all)
      ultimately show ?thesis by simp
    qed
    ultimately show ?thesis by blast
  next
    case False
    have "(7 :: u64) AND 2 \<noteq> 0" "(7 :: u64) AND 1 \<noteq> 0" by simp_all
    moreover have "page_refs s (frame_no ?p) = Some (n + 1)" "2 \<le> n + 1" using M(7) [OF v(1)] rv n by simp_all
    ultimately obtain s'' j where f: "cow_fault_handle (Some cr3) va 7 s = (0, s'')" "cow_effect cr3 va j s s''"
      using cow_fault_effect [OF M(1) sm _ _ refl user_not_zero _ _ _ _ _ _ _ al False, of 7 va "n + 1"] True tr lv nt ph by metis
    have "s'' = s'" using c f(1) True by (simp add: snap_cow_pf_dispatch_def)
    then have X: "cow_effect cr3 va j s s'" using f(2) by simp
    have "user_view s' cr3 = user_view s cr3" using cow_effect_view [OF P m _ X] True by blast
    moreover have "snap_mem cr3 s0 ?U (J(v \<mapsto> j)) s'" by (rule cow_effect_mem [OF P m v jn X])
    ultimately show ?thesis by blast
  qed
qed

definition user_run :: "u64 \<Rightarrow> (u64 \<times> u64) list \<Rightarrow> 'b cow_state_scheme \<Rightarrow> 'b cow_state_scheme" where
  "user_run cr3 xs s = fold (\<lambda>x s. snd (user_store cr3 x s)) xs s"

lemma store_step:
  assumes P: "private_aspace cr3 s0" and m: "snap_mem cr3 s0 (user_vas s0 cr3) J s"
  shows "\<exists>J'. snap_mem cr3 s0 (user_vas s0 cr3) J' (snd (user_store cr3 x s))"
proof -
  obtain ok s1 where 1: "store_now cr3 (fst x) (snd x) s = (ok, s1)" by fastforce
  have m1: "snap_mem cr3 s0 (user_vas s0 cr3) J s1" using store_now_step [OF P m, of "fst x" "snd x"] 1 by simp
  obtain rc s2 where 2: "snap_cow_pf_dispatch (Some cr3) (fst x) 7 s1 = (rc, s2)" by fastforce
  from fault_step [OF P m1 2] obtain J' where m2: "snap_mem cr3 s0 (user_vas s0 cr3) J' s2" by blast
  show ?thesis
    using 1 2 m1 m2 store_now_step [OF P m2, of "fst x" "snd x"]
    by (cases ok) (auto simp: user_store_def)
qed

lemma user_run_mem:
  assumes P: "private_aspace cr3 s0"
  shows "snap_mem cr3 s0 (user_vas s0 cr3) J s \<Longrightarrow> \<exists>J'. snap_mem cr3 s0 (user_vas s0 cr3) J' (user_run cr3 xs s)"
proof (induction xs arbitrary: s J)
  case (Cons x xs)
  from store_step [OF P Cons.prems, of x] obtain J' where "snap_mem cr3 s0 (user_vas s0 cr3) J' (snd (user_store cr3 x s))" by blast
  from Cons.IH [OF this] show ?case by (simp add: user_run_def)
qed (auto simp: user_run_def)

section \<open>Restoring\<close>

definition captured :: "'b mm_state_scheme \<Rightarrow> u64 \<Rightarrow> u64 \<Rightarrow> snap_captured_page" where
  "captured s cr3 v = \<lparr>cp_virt = v, cp_phys = phys_at s cr3 v, cp_flags = flags_at s cr3 v\<rparr>"

lemma restore_step:
  assumes P: "private_aspace cr3 s0" and m: "snap_mem cr3 s0 H J s" and v: "v \<in> H" "skip = 0 \<or> v \<noteq> skip"
    and env: "env_slab env = (\<lambda>_. True)"
  shows "snap_mem cr3 s0 H (J(v := None)) (restore_page env cr3 skip (captured s0 cr3 v) s)"
proof -
  have vU: "v \<in> user_vas s0 cr3" using m v(1) by (auto simp: snap_mem_def held_ok_def)
  let ?p = "phys_at s0 cr3 v" and ?f = "flags_at s0 cr3 v"
  define w where "w = ?p OR (?f AND NOT PTE_WRITABLE)"
  note E = entry_at_facts [OF P m vU] and M = snap_memD [OF m] and UE = user_entry [OF P vU]
  have pte: "vmm_get_pte s cr3 v = entry_at s0 cr3 H J v" by (rule M(6) [OF vU])
  have ew: "entry_at s0 cr3 H (J(v := None)) v = w" using v by (simp add: entry_at_def w_def)
  have pw: "has_flag w PTE_PRESENT" using UE(3) by (simp add: w_def present_bit entry_bits)
  have rf: "(?f AND NOT PTE_WRITABLE) OR PTE_PRESENT = ?f AND NOT PTE_WRITABLE"
    by (intro bit_word_eqI) (use UE(3) in \<open>auto simp: entry_bits\<close>)
  have k: "tables_kept cr3 s0 s" using m by (simp add: snap_mem_def)
  have c0: "copies_ok s0 cr3 (J(v := None))"
  proof -
    have c: "copies_ok s0 cr3 J" using m by (simp add: snap_mem_def)
    then show ?thesis by (auto simp: copies_ok_def ran_def inj_on_def split: if_splits)
  qed
  from refs_at_update [OF P vU] obtain n where n: "0 < n" "n < 255"
    and ra: "\<And>H J. refs_at s0 cr3 H J v = (let r = n + (if v \<in> H then 1 else 0) - (if J v = None then 0 else 1) in if r = 0 then None else Some r)"
    by metis
  have skip: "\<not> (skip \<noteq> 0 \<and> v = skip)" using v(2) by auto
  show ?thesis
  proof (cases "J v")
    case None
    have "restore_page env cr3 skip (captured s0 cr3 v) s = set_leaf cr3 v w s"
      using UE(6) skip E(1,4) None protect_set_leaf [of s cr3 v "?f AND NOT PTE_WRITABLE"] v(1)
        protected_entry [OF UE(1-3), of "?f AND NOT PTE_WRITABLE" "?f AND NOT PTE_WRITABLE" 0]
      by (auto simp: restore_page_def captured_def pte pte_phys_def [symmetric] rf entry_at_def w_def)
    moreover have "snap_mem cr3 s0 H (J(v := None)) (set_leaf cr3 v w s)"
    proof (rule snap_mem_step [OF m P vU tables_kept_leaf [OF k] _ c0])
      have "mm_state.more (set_leaf cr3 v w s) = mm_state.more s" by simp
      then show "held_ok s0 cr3 H (set_leaf cr3 v w s)"
        using m tracker_same_more [of "set_leaf cr3 v w s" s] same_more_cow [of "set_leaf cr3 v w s" s] by (simp add: snap_mem_def held_ok_def)
      show "vmm_get_pte (set_leaf cr3 v w s) cr3 u = (if same_page v u then entry_at s0 cr3 H (J(v := None)) v else vmm_get_pte s cr3 u)" for u
        unfolding ew using set_leaf_get [OF M(1), of v w u] get_pte_path [of s cr3 v] pte E(4) pw by simp
      show "frames (set_leaf cr3 v w s) f = frames s f" if "\<not> leaf_frame s0 cr3 f" for f
        using that kept_tables(3) [OF k] set_leaf_frames [of s cr3 f v w] by simp
    qed (use None M(7) [OF vU] in \<open>simp_all add: ra\<close>)
    ultimately show ?thesis by simp
  next
    case (Some j)
    note C = copy_not_live [OF P m Some]
    define s1 where "s1 = set_leaf cr3 v 0 s"
    define s2 where "s2 = pmm_page_unref (page_addr j) s1"
    define s3 where "s3 = pmm_page_ref ?p s2"
    define s4 where "s4 = cow_page_tracker_bump True ?p s3"
    define s5 where "s5 = set_leaf cr3 v w s4"
    have rv: "page_refs s (frame_no ?p) = Some n" using M(7) [OF vU] v(1) Some n by (simp add: ra)
    have lp: "live_frame s ?p" by (rule live_held [OF P m vU]) (use v(1) Some n in \<open>simp add: ra\<close>)
    have jp: "frame_no ?p \<noteq> j" using user_vasD(4) [OF P vU] copies_free [of s0 cr3 J v j] m Some by (auto simp: snap_mem_def)
    have k1: "tables_kept cr3 s0 s1" unfolding s1_def by (rule tables_kept_leaf [OF k])
    have l1: "live_frame s1 (page_addr j)" "page_refs s1 (frame_no (page_addr j)) = Some 1" "pmm_sized s1"
      using C(3,4) M(2) M(10) [OF Some] by (simp_all add: s1_def)
    note U = unref_effect [OF l1(3,1,2) s2_def]
    have r2: "page_refs s2 = (page_refs s)(j := None)" using U(5) C(4) by (simp add: s1_def)
    have k2: "tables_kept cr3 s0 s2"
    proof (rule tables_kept_refs [OF k1 U(1,3,4)])
      fix t
      assume t: "table_frame s1 cr3 t" "live_frame s1 t"
      then have "t \<noteq> page_addr j" using C(2) kept_tables(1) [OF k1] by auto
      then have "frame_no t \<noteq> j" using frame_no_inj [OF l1(3) t(2) l1(1)] C(4) by simp
      then show "live_frame s2 t" using t(2) U(4,5) C(4) by (simp add: live_iff [OF l1(3)] live_iff [OF U(3)])
    qed
    have l2: "page_refs s2 (frame_no ?p) = Some n" "live_frame s2 ?p"
      using lp rv jp r2 U(4) by (simp_all add: live_iff [OF M(2)] live_iff [OF U(3)] s1_def)
    note R = ref_effect [OF U(3) l2(2,1) n(2) s3_def]
    have r3: "page_refs s3 = (page_refs s)(j := None, frame_no ?p \<mapsto> n + 1)" using R(5) r2 by simp
    have k3: "tables_kept cr3 s0 s3"
      by (rule tables_kept_refs [OF k2 R(1,3,4)]) (use R(4,5) in \<open>auto elim!: live_frame_mono\<close>)
    have o3: "mm_state.more s3 = mm_state.more s" using R(2) U(2) by (simp add: s1_def)
    have w3: "cow_wf s3" "g_cow_tracker_cache s3" "tracker_refs s3 = tracker_refs s"
      using tracker_same_more [OF o3] same_more_cow [OF o3] M(4,5) by simp_all
    note T = tracker_get_spec [OF w3(1,2) UE(5,6)]
    from T(1) obtain b c where e4: "s4 = s3\<lparr>g_cow_buckets := b, g_cow_tracker_count := c\<rparr>" by (auto simp: s4_def)
    have k4: "tables_kept cr3 s0 s4"
      by (rule tables_kept_refs [OF k3]) (use R(3) in \<open>simp_all add: e4\<close>)
    have f4: "frames s4 = frames s1" using R(1) U(1) by (simp add: e4)
    have hp: "has_path s4 cr3 v" using kept_tables(2) [OF k4] user_vasD(3) [OF P vU] by simp
    have nt: "\<not> (vmm_get_pte s cr3 v \<noteq> 0 \<and> vmm_get_pte s cr3 v AND PHYS_ADDR_MASK = ?p)"
      using E(1) Some C(1) user_vasD(1) [OF P vU] by (auto simp: pte pte_phys_def [symmetric])
    have "restore_page env cr3 skip (captured s0 cr3 v) s = s5"
      unfolding restore_page_def captured_def snap_captured_page.simps Let_def if_not_P [OF UE(6)] if_not_P [OF skip] if_not_P [OF nt]
      using E(1,4) Some pte map_set_leaf [OF hp, of ?p "?f AND NOT PTE_WRITABLE"] env
      by (simp add: rf unmap_set_leaf pte_phys_def [symmetric] s1_def [symmetric] s2_def [symmetric] s3_def [symmetric] s4_def [symmetric] s5_def w_def)
    moreover have "snap_mem cr3 s0 H (J(v := None)) s5"
    proof (rule snap_mem_step [OF m P vU _ _ c0])
      show "tables_kept cr3 s0 s5" unfolding s5_def by (rule tables_kept_leaf [OF k4])
      have o5: "mm_state.more s5 = mm_state.more s4" by (simp add: s5_def)
      have "cow_wf s4" "g_cow_tracker_cache s4" "tracker_refs s4 = (tracker_refs s)(?p \<mapsto>
          (case tracker_refs s ?p of None \<Rightarrow> 1 | Some n \<Rightarrow> min (2 ^ 32 - 1) (n + 1)))"
        using T(2,3) w3(2,3) by (simp_all add: s4_def [symmetric] e4)
      then show "held_ok s0 cr3 H s5"
        using m tracker_same_more [OF o5] same_more_cow [OF o5] by (auto simp: snap_mem_def held_ok_def)
      have w4: "tables_wf s4 cr3" using k4 by (simp add: tables_kept_def)
      show "vmm_get_pte s5 cr3 u = (if same_page v u then entry_at s0 cr3 H (J(v := None)) v else vmm_get_pte s cr3 u)" for u
        unfolding ew s5_def set_leaf_get [OF w4 hp] get_pte_same_frames [OF f4] s1_def
        using set_leaf_get [OF M(1), of v 0 u] get_pte_path [of s cr3 v] pte E(4) pw by simp
      show "frames s5 f = frames s f" if "\<not> leaf_frame s0 cr3 f" for f
        using that kept_tables(3) [OF k] kept_tables(3) [OF k4] set_leaf_frames [of s4 cr3 f v w] set_leaf_frames [of s cr3 f v 0] f4
        by (simp add: s5_def s1_def)
      have r5: "page_refs s5 = (page_refs s)(j := None, frame_no ?p \<mapsto> n + 1)" using r3 by (simp add: s5_def e4)
      then show "page_refs s5 (frame_no ?p) = refs_at s0 cr3 H (J(v := None)) v" using v(1) by (simp add: ra)
      show "page_refs s5 i = None" if "J v = Some i" for i using r5 that Some jp by simp
      show "page_refs s5 i = page_refs s i" if "i \<noteq> frame_no ?p" "J v \<noteq> Some i" for i using r5 that Some by simp
    qed simp_all
    ultimately show ?thesis by simp
  qed
qed

lemma restore_pages_mem:
  assumes P: "private_aspace cr3 s0" and env: "env_slab env = (\<lambda>_. True)"
  shows "snap_mem cr3 s0 H J s \<Longrightarrow> set vs \<subseteq> H \<Longrightarrow> skip = 0 \<or> skip \<notin> set vs \<Longrightarrow>
    snap_mem cr3 s0 H (\<lambda>v. if v \<in> set vs then None else J v) (restore_pages env cr3 skip (map (captured s0 cr3) vs) s)"
proof (induction vs arbitrary: s J)
  case (Cons v vs)
  let ?s = "restore_page env cr3 skip (captured s0 cr3 v) s"
  have 1: "snap_mem cr3 s0 H (J(v := None)) ?s" by (rule restore_step [OF P Cons.prems(1) _ _ env]) (use Cons.prems in auto)
  have "(\<lambda>u. if u \<in> set vs then None else (J(v := None)) u) = (\<lambda>u. if u \<in> set (v # vs) then None else J u)" by auto
  with Cons.IH [OF 1] Cons.prems show ?case by (auto simp: restore_pages_def)
qed (simp add: restore_pages_def)

text \<open>The active stack page is skipped.\<close>

lemma restore_page_skip: "skip \<noteq> 0 \<Longrightarrow> restore_page env cr3 skip (captured s0 cr3 skip) s = s"
  by (simp add: restore_page_def captured_def)

lemma restore_pages_skip:
  assumes "skip \<noteq> 0"
  shows "restore_pages env cr3 skip (map (captured s0 cr3) vs) s = restore_pages env cr3 skip (map (captured s0 cr3) (removeAll skip vs)) s"
  by (induction vs arbitrary: s) (auto simp: restore_pages_def restore_page_skip [OF assms])

lemma restore_all:
  assumes P: "private_aspace cr3 s0" and env: "env_slab env = (\<lambda>_. True)"
    and m: "snap_mem cr3 s0 (user_vas s0 cr3) J s" and vs: "set vs = user_vas s0 cr3"
  shows "snap_mem cr3 s0 (user_vas s0 cr3) (\<lambda>v. if v = skip \<and> skip \<noteq> 0 then J v else None)
    (restore_pages env cr3 skip (map (captured s0 cr3) vs) s)"
proof -
  define ws where "ws = (if skip = 0 then vs else removeAll skip vs)"
  have e: "restore_pages env cr3 skip (map (captured s0 cr3) vs) s = restore_pages env cr3 skip (map (captured s0 cr3) ws) s"
    by (cases "skip = 0") (simp_all add: ws_def restore_pages_skip [symmetric])
  have d: "J v = None" if "v \<notin> user_vas s0 cr3" for v using m that by (auto simp: snap_mem_def copies_ok_def dom_def)
  have J: "(\<lambda>v. if v \<in> set ws then None else J v) = (\<lambda>v. if v = skip \<and> skip \<noteq> 0 then J v else None)"
    using d vs by (auto simp: ws_def)
  show ?thesis
    unfolding e J [symmetric] by (rule restore_pages_mem [OF P env m]) (use vs in \<open>auto simp: ws_def split: if_splits\<close>)
qed

section \<open>Releasing\<close>

lemma release_step:
  assumes P: "private_aspace cr3 s0" and m: "snap_mem cr3 s0 H J s" and v: "v \<in> H"
  shows "snap_mem cr3 s0 (H - {v}) J (release_page cr3 (captured s0 cr3 v) s)
    \<and> (\<forall>f. \<not> leaf_frame s0 cr3 f \<longrightarrow> frames (release_page cr3 (captured s0 cr3 v) s) f = frames s f)"
proof -
  have vU: "v \<in> user_vas s0 cr3" using m v by (auto simp: snap_mem_def held_ok_def)
  let ?p = "phys_at s0 cr3 v" and ?f = "flags_at s0 cr3 v"
  note E = entry_at_facts [OF P m vU] and M = snap_memD [OF m] and UE = user_entry [OF P vU]
  have pte: "vmm_get_pte s cr3 v = entry_at s0 cr3 H J v" by (rule M(6) [OF vU])
  define w where "w = entry_at s0 cr3 (H - {v}) J v"
  have c0: "cr3 \<noteq> 0"
    using tables_live [OF M(1), of "[]" cr3] live_frame_phys(3) [OF M(2)] P M(3) by (simp add: ok_path_def private_aspace_def)
  have k: "tables_kept cr3 s0 s" using m by (simp add: snap_mem_def)
  define s1 where "s1 = (if J v = None \<and> has_flag ?f PTE_WRITABLE then set_leaf cr3 v w s else s)"
  have n1: "\<not> bit (phys_at s0 cr3 v) 1" using UE(5) by (simp add: aligned_bits)
  have g1: "vmm_get_pte s1 cr3 u = (if same_page v u then w else vmm_get_pte s cr3 u)" for u
  proof (cases "J v = None \<and> has_flag ?f PTE_WRITABLE")
    case True
    have "has_flag w PTE_PRESENT" using True UE(3) by (simp add: w_def entry_at_def present_bit entry_bits)
    with True show ?thesis using set_leaf_get [OF M(1), of v w u] get_pte_path [of s cr3 v] pte E(4) by (simp add: s1_def)
  next
    case False
    have "?f AND NOT PTE_WRITABLE = ?f" if "\<not> has_flag ?f PTE_WRITABLE"
      by (intro bit_word_eqI) (use that in \<open>auto simp: entry_bits writable_bit\<close>)
    then have "w = entry_at s0 cr3 H J v" using False by (auto simp: w_def entry_at_def split: option.split)
    then show ?thesis using False pte get_pte_same_page [of v u s cr3] by (auto simp: s1_def)
  qed
  have sel: "(let live_pte = vmm_get_pte s cr3 v in
       if live_pte \<noteq> 0 \<and> has_flag live_pte PTE_PRESENT \<and> live_pte AND PHYS_ADDR_MASK = ?p
          \<and> has_flag ?f PTE_WRITABLE \<and> \<not> has_flag live_pte PTE_WRITABLE
       then snd (vmm_protect_page_by_cr3 cr3 v ?f s) else s) = s1"
  proof (cases "J v")
    case None
    have "entry_at s0 cr3 H J v = ?p OR (?f AND NOT PTE_WRITABLE)" using None v by (simp add: entry_at_def)
    then have "vmm_protect_page_by_cr3 cr3 v ?f s = (True, set_leaf cr3 v w s)"
      using protect_set_leaf [of s cr3 v ?f] pte E(4) protected_entry [OF UE(1-3), of "?f AND NOT PTE_WRITABLE" ?f 0] None
      by (simp add: w_def entry_at_def)
    then show ?thesis using E(1,3,4,6) None v by (simp add: pte pte_phys_def [symmetric] s1_def)
  next
    case (Some j)
    have "page_addr j \<noteq> ?p" using copy_not_live(1) [OF P m Some] user_vasD(1) [OF P vU] by auto
    then show ?thesis using E(1) Some by (simp add: pte pte_phys_def [symmetric] s1_def)
  qed
  have k1: "tables_kept cr3 s0 s1" using k tables_kept_leaf [OF k] by (simp add: s1_def)
  have o1: "mm_state.more s1 = mm_state.more s" "page_refs s1 = page_refs s" "pmm_sized s1" using M(2) by (simp_all add: s1_def)
  have t1: "cow_wf s1" "g_cow_tracker_cache s1" "tracker_refs s1 = tracker_refs s"
    using tracker_same_more [OF o1(1)] same_more_cow [OF o1(1)] M(4,5) by simp_all
  define s2 where "s2 = cow_page_tracker_put ?p s1"
  note T = tracker_put_spec [OF t1(1,2) UE(5,6)]
  from T(1) obtain b c where e2: "s2 = s1\<lparr>g_cow_buckets := b, g_cow_tracker_count := c\<rparr>" by (auto simp: s2_def)
  from refs_at_update [OF P vU] obtain n where n: "0 < n" "n < 255"
    and ra: "\<And>H J. refs_at s0 cr3 H J v = (let r = n + (if v \<in> H then 1 else 0) - (if J v = None then 0 else 1) in if r = 0 then None else Some r)"
    by metis
  define r where "r = n + 1 - (if J v = None then 0 else 1)"
  have rv: "refs_at s0 cr3 H J v = Some r" "0 < r" using v n by (simp_all add: ra r_def)
  have l2: "page_refs s2 (frame_no ?p) = Some r" "live_frame s2 ?p" "pmm_sized s2"
    using M(7) [OF vU] rv o1 live_held [OF P m vU] by (simp_all add: e2 live_iff [OF o1(3)] live_iff [OF M(2)]) (simp_all add: s1_def)
  define s3 where "s3 = pmm_page_unref ?p s2"
  note U = unref_effect [OF l2(3,2,1) s3_def]
  have r3: "page_refs s3 = (page_refs s)(frame_no ?p := (if r \<le> 1 then None else Some (r - 1)))" using U(5) o1(2) by (simp add: e2)
  have k2: "tables_kept cr3 s0 s2" by (rule tables_kept_refs [OF k1]) (use o1 in \<open>simp_all add: e2\<close>)
  have "release_page cr3 (captured s0 cr3 v) s = s3"
    unfolding release_page_def captured_def snap_captured_page.simps sel using c0 by (simp add: s2_def s3_def)
  moreover have f3: "frames s3 = frames s1" using U(1) by (simp add: e2)
  then have ff: "frames s3 f = frames s f" if "\<not> leaf_frame s0 cr3 f" for f
    using that kept_tables(3) [OF k] set_leaf_frames [of s cr3 f v w] by (simp add: s1_def)
  moreover have "snap_mem cr3 s0 (H - {v}) J s3"
  proof (rule snap_mem_step [OF m P vU])
    show "tables_kept cr3 s0 s3"
    proof (rule tables_kept_refs [OF k2 U(1,3,4)])
      fix t
      assume t: "table_frame s2 cr3 t" "live_frame s2 t"
      then have "t \<noteq> ?p" using user_vasD(2) [OF P vU] kept_tables(1) [OF k2] by auto
      then have "frame_no t \<noteq> frame_no ?p" using frame_no_inj [OF l2(3) t(2) l2(2)] by simp
      then show "live_frame s3 t" using t(2) U(4,5) by (simp add: live_iff [OF l2(3)] live_iff [OF U(3)])
    qed
    have o3: "mm_state.more s3 = mm_state.more s2" using U(2) .
    have "cow_wf s2" "g_cow_tracker_cache s2" using T(2) t1(2) by (simp_all add: s2_def [symmetric] e2)
    moreover have "tracker_refs s2 (phys_at s0 cr3 u) \<noteq> None" if u: "u \<in> H - {v}" for u
    proof -
      have uU: "u \<in> user_vas s0 cr3" using u m by (auto simp: snap_mem_def held_ok_def)
      then have "phys_at s0 cr3 u \<noteq> ?p" using phys_inj(1) [OF P uU vU] u by simp
      moreover have "tracker_refs s (phys_at s0 cr3 u) \<noteq> None" using u m by (simp add: snap_mem_def held_ok_def)
      ultimately show ?thesis using T(3) t1(3) by (simp add: s2_def split: option.split)
    qed
    ultimately show "held_ok s0 cr3 (H - {v}) s3"
      using m tracker_same_more [OF o3] same_more_cow [OF o3] by (auto simp: snap_mem_def held_ok_def)
    show "copies_ok s0 cr3 J" using m by (simp add: snap_mem_def)
    show "vmm_get_pte s3 cr3 u = (if same_page v u then entry_at s0 cr3 (H - {v}) J v else vmm_get_pte s cr3 u)" for u
      unfolding get_pte_same_frames [OF f3] using g1 [of u] by (simp add: w_def)
    show "frames s3 f = frames s f" if "\<not> leaf_frame s0 cr3 f" for f by (rule ff [OF that])
    show "page_refs s3 (frame_no ?p) = refs_at s0 cr3 (H - {v}) J v" using r3 n by (auto simp: ra r_def)
    show "page_refs s3 j = Some 1" if j: "J v = Some j" for j
      using r3 M(10) [OF j] copies_free [of s0 cr3 J v j] m j user_vasD(4) [OF P vU] by (auto simp: snap_mem_def)
  qed (use r3 in auto)
  ultimately show ?thesis by simp
qed

lemma release_pages_mem:
  assumes P: "private_aspace cr3 s0"
  shows "snap_mem cr3 s0 H J s \<Longrightarrow> set vs \<subseteq> H \<Longrightarrow> distinct vs \<Longrightarrow>
    snap_mem cr3 s0 (H - set vs) J (release_pages cr3 (map (captured s0 cr3) vs) s)
    \<and> (\<forall>f. \<not> leaf_frame s0 cr3 f \<longrightarrow> frames (release_pages cr3 (map (captured s0 cr3) vs) s) f = frames s f)"
proof (induction vs arbitrary: s H)
  case (Cons v vs)
  let ?s = "release_page cr3 (captured s0 cr3 v) s"
  have 1: "snap_mem cr3 s0 (H - {v}) J ?s" "\<forall>f. \<not> leaf_frame s0 cr3 f \<longrightarrow> frames ?s f = frames s f"
    using release_step [OF P Cons.prems(1), of v] Cons.prems(2) by simp_all
  have "H - {v} - set vs = H - set (v # vs)" by auto
  with Cons.IH [OF 1(1)] Cons.prems 1(2) show ?case by (simp add: release_pages_def subset_Diff_insert)
qed (simp add: release_pages_def)

end
