(* ===== verification/Snap_Capture.thy ===== *)
theory Snap_Capture
  imports Snap_Pages
begin

text \<open>
  What a snapshot of an address space is worth. The walk of kernel/snap/capture.c records every user
  page; restoring and releasing the record gives back exactly the address space, the contents and the
  references there were before; releasing it without restoring keeps what the program has written. A
  page the program may not write loses that protection.
\<close>

section \<open>The walk captures every user page\<close>

lemma loop_ok_cover:
  assumes step: "\<And>i D st. i \<in> set is \<Longrightarrow> I D st \<Longrightarrow> D \<inter> X i = {} \<Longrightarrow> \<exists>st'. f i st = (0, st') \<and> I (D \<union> X i) st'"
    and X: "\<And>i j. i \<in> set is \<Longrightarrow> j \<in> set is \<Longrightarrow> i \<noteq> j \<Longrightarrow> X i \<inter> X j = {}"
  shows "distinct is \<Longrightarrow> I D st \<Longrightarrow> \<forall>i \<in> set is. D \<inter> X i = {} \<Longrightarrow>
    \<exists>st'. loop_ok f is st = (0, st') \<and> I (D \<union> \<Union> (X ` set is)) st'"
  using step X
proof (induction "is" arbitrary: D st)
  case (Cons i "is")
  from Cons.prems(4) [of i D st] Cons.prems(2,3) obtain st1 where 1: "f i st = (0, st1)" "I (D \<union> X i) st1" by auto
  have d: "\<forall>k \<in> set is. (D \<union> X i) \<inter> X k = {}"
  proof
    fix k
    assume k: "k \<in> set is"
    then have "i \<noteq> k" using Cons.prems(1) by auto
    then show "(D \<union> X i) \<inter> X k = {}" using Cons.prems(3) Cons.prems(5) [of i k] k by auto
  qed
  from Cons.IH [OF _ 1(2) d] Cons.prems(1,4,5) obtain st2 where "loop_ok f is st1 = (0, st2)" "I (D \<union> X i \<union> \<Union> (X ` set is)) st2"
    by (metis distinct.simps(2) list.set_intros(2))
  with 1 show ?case by (simp add: Un_assoc)
qed simp

text \<open>The pages of the visited index tuples.\<close>

definition vas_of :: "'b mm_state_scheme \<Rightarrow> u64 \<Rightarrow> (nat \<times> nat \<times> nat \<times> nat) set \<Rightarrow> u64 set" where
  "vas_of s0 cr3 D = {v \<in> user_vas s0 cr3. \<exists>i j k l. (i, j, k, l) \<in> D \<and> v = virt_of i j k l}"

definition walk_inv ::
  "u64 \<Rightarrow> 'b cow_state_scheme \<Rightarrow> 'a page_list_scheme \<Rightarrow> (nat \<times> nat \<times> nat \<times> nat) set
    \<Rightarrow> 'a page_list_scheme \<times> 'b cow_state_scheme \<Rightarrow> bool" where
  "walk_inv cr3 s0 te0 D st \<longleftrightarrow> D \<subseteq> {..<256} \<times> {..<512} \<times> {..<512} \<times> {..<512}
    \<and> snap_mem cr3 s0 (vas_of s0 cr3 D) (\<lambda>_. None) (snd st)
    \<and> (\<exists>vs. distinct vs \<and> set vs = vas_of s0 cr3 D \<and> pl_pages (fst st) = map (captured s0 cr3) vs)
    \<and> pl_page_cap (fst st) \<le> SNAP_PAGES_PER_TASK_MAX \<and> page_list.more (fst st) = page_list.more te0"

lemma vas_of_none:
  "(\<And>i j k l. (i, j, k, l) \<in> X \<Longrightarrow> virt_of i j k l \<notin> user_vas s0 cr3) \<Longrightarrow> vas_of s0 cr3 (D \<union> X) = vas_of s0 cr3 D"
  by (auto simp: vas_of_def)

lemma walk_inv_skip:
  assumes "walk_inv cr3 s0 te0 D st" "X \<subseteq> {..<256} \<times> {..<512} \<times> {..<512} \<times> {..<512}"
    and "\<And>i j k l. (i, j, k, l) \<in> X \<Longrightarrow> virt_of i j k l \<notin> user_vas s0 cr3"
  shows "walk_inv cr3 s0 te0 (D \<union> X) st"
  using assms(1,2) vas_of_none [OF assms(3), where D = D] by (auto simp: walk_inv_def)

lemma virt_of_inj:
  assumes "i < 512" "j < 512" "k < 512" "l < 512" "i' < 512" "j' < 512" "k' < 512" "l' < 512" "virt_of i j k l = virt_of i' j' k' l'"
  shows "(i, j, k, l) = (i', j', k', l')"
  using virt_of_index [OF assms(1-4)] virt_of_index [OF assms(5-8)] assms(9) by simp

lemma record_page_ok:
  assumes "env_kmalloc env = (\<lambda>_. True)" "pl_page_cap te \<le> SNAP_PAGES_PER_TASK_MAX" "length (pl_pages te) < SNAP_PAGES_PER_TASK_MAX"
  obtains te' where "snap_record_page env v p f te = (0, te')" "pl_pages te' = pl_pages te @ [\<lparr>cp_virt = v, cp_phys = p, cp_flags = f\<rparr>]"
    "pl_page_cap te' \<le> SNAP_PAGES_PER_TASK_MAX" "page_list.more te' = page_list.more te"
proof -
  let ?te = "snd (snap_record_page env v p f te)"
  have "fst (snap_record_page env v p f te) = 0"
    using assms by (auto simp: snap_record_page_def snap_pages_grow_def Let_def)
  moreover have "pl_pages ?te = pl_pages te @ [\<lparr>cp_virt = v, cp_phys = p, cp_flags = f\<rparr>]"
    "pl_page_cap ?te \<le> SNAP_PAGES_PER_TASK_MAX" "page_list.more ?te = page_list.more te"
    using assms by (auto simp: snap_record_page_def snap_pages_grow_def Let_def)
  ultimately show thesis using that [of ?te] by (metis prod.collapse)
qed

lemma virt_low: "i < 512 \<Longrightarrow> j < 512 \<Longrightarrow> k < 512 \<Longrightarrow> l < 512 \<Longrightarrow> \<not> virt_of i j k l \<ge> 0xFFFF800000000000"
proof -
  assume a: "i < 512" "j < 512" "k < 512" "l < 512"
  have "take_bit 48 (virt_of i j k l) = virt_of i j k l"
  proof (rule bit_word_eqI)
    show "bit (take_bit 48 (virt_of i j k l)) n = bit (virt_of i j k l) n" for n
      using virt_of_bits(5) [OF a, of n] by (cases "48 \<le> n") (simp_all add: bit_take_bit_iff)
  qed
  then have "unat (virt_of i j k l) = take_bit 48 (unat (virt_of i j k l))" by (metis unsigned_take_bit_eq)
  then have "unat (virt_of i j k l) < 2 ^ 48" by (metis take_bit_nat_less_exp)
  then show ?thesis by (simp add: word_le_nat_alt)
qed

lemma snap_mem_tabs: "snap_mem cr3 s0 H J s \<Longrightarrow> ok_path p \<Longrightarrow> tabs s cr3 p = tabs s0 cr3 p"
  unfolding snap_mem_def tables_kept_def by blast

lemma walk_leaf:
  assumes P: "private_aspace cr3 s0" and env: "env_kmalloc env = (\<lambda>_. True)" "env_slab env = (\<lambda>_. True)"
    and few: "card (user_vas s0 cr3) \<le> SNAP_PAGES_PER_TASK_MAX" "finite (user_vas s0 cr3)"
    and ix: "i < 256" "j < 512" "k < 512" "l < 512" and pt: "tabs s0 cr3 [i, j, k] = Some pt"
    and inv: "walk_inv cr3 s0 te0 D st" and new: "D \<inter> {(i, j, k, l)} = {}"
  shows "\<exists>st'. capture_leaf env cr3 cr3 (virt_of i j k l) pt l st = (0, st') \<and> walk_inv cr3 s0 te0 (D \<union> {(i, j, k, l)}) st'"
proof -
  obtain te s where st: "st = (te, s)" by fastforce
  let ?v = "virt_of i j k l" and ?H = "vas_of s0 cr3 D"
  have i5: "i < 512" using ix by simp
  note V = virt_of_index [OF i5 ix(2-4)]
  from inv obtain vs where m: "snap_mem cr3 s0 ?H (\<lambda>_. None) s" and vs: "distinct vs" "set vs = ?H" "pl_pages te = map (captured s0 cr3) vs"
    and cap: "pl_page_cap te \<le> SNAP_PAGES_PER_TASK_MAX" and D: "D \<subseteq> {..<256} \<times> {..<512} \<times> {..<512} \<times> {..<512}"
    and mo: "page_list.more te = page_list.more te0"
    by (auto simp: walk_inv_def st)
  have ok: "ok_path [i, j, k]" using i5 ix by (auto simp: ok_path_def)
  have tb: "tabs s cr3 [i, j, k] = Some pt" using snap_mem_tabs [OF m ok] pt by (simp only:)
  have leaf: "vmm_get_pte s cr3 ?v = (if has_flag (frames s pt l) PTE_PRESENT then frames s pt l else 0)"
    unfolding get_pte_leaf leaf_def V tb option.case ..
  have nD: "?v \<notin> ?H"
  proof
    assume "?v \<in> ?H"
    then obtain i' j' k' l' where t: "(i', j', k', l') \<in> D" "?v = virt_of i' j' k' l'" by (auto simp: vas_of_def)
    then have "i' < 256" "j' < 512" "k' < 512" "l' < 512" using D by auto
    with virt_of_inj [OF i5 ix(2-4), of i' j' k' l'] t new show False by simp
  qed
  show ?thesis
  proof (cases "?v \<in> user_vas s0 cr3")
    case False
    have c: "\<not> same_page u ?v" if u: "u \<in> user_vas s0 cr3" for u
      using virt_canonical [of u ?v] user_vas_bits [OF u] virt_of_bits(5) [OF i5 ix(2-4)] u False by metis
    then have "vmm_get_pte s cr3 ?v = vmm_get_pte s0 cr3 ?v" using m by (simp add: snap_mem_def)
    moreover have "\<not> has_flag (vmm_get_pte s0 cr3 ?v) PTE_USER" using False ix by (auto simp: user_vas_def)
    ultimately have "capture_leaf env cr3 cr3 ?v pt l st = (0, st)" using leaf by (auto simp: capture_leaf_def st Let_def split: if_splits)
    moreover have "walk_inv cr3 s0 te0 (D \<union> {(i, j, k, l)}) st" by (rule walk_inv_skip [OF inv]) (use ix False in auto)
    ultimately show ?thesis by blast
  next
    case True
    have e: "vmm_get_pte s cr3 ?v = vmm_get_pte s0 cr3 ?v"
      using snap_memD(6) [OF m True] nD by (simp add: entry_at_def entry_captured)
    have u: "has_flag (vmm_get_pte s0 cr3 ?v) PTE_USER" using True by (simp add: user_vas_def)
    then have pr: "has_flag (frames s pt l) PTE_PRESENT" "frames s pt l = vmm_get_pte s0 cr3 ?v" using leaf e by (auto simp: has_flag_def split: if_splits)
    have "length vs = card ?H" using vs distinct_card by metis
    moreover have "?H \<subseteq> user_vas s0 cr3" by (auto simp: vas_of_def)
    then have "?H \<subset> user_vas s0 cr3" using nD True by blast
    ultimately have "length (pl_pages te) < SNAP_PAGES_PER_TASK_MAX" using psubset_card_mono [OF few(2), of ?H] few(1) vs(3) by simp
    from record_page_ok [OF env(1) cap this] obtain te' where te': "snap_record_page env ?v (phys_at s0 cr3 ?v) (flags_at s0 cr3 ?v) te = (0, te')"
      "pl_pages te' = pl_pages te @ [captured s0 cr3 ?v]" "pl_page_cap te' \<le> SNAP_PAGES_PER_TASK_MAX" "page_list.more te' = page_list.more te"
      unfolding captured_def by metis
    define s1 where "s1 = pmm_page_ref (phys_at s0 cr3 ?v) (cow_page_tracker_bump True (phys_at s0 cr3 ?v) s)"
    define s' where "s' = (if has_flag (flags_at s0 cr3 ?v) PTE_WRITABLE
      then snd (vmm_protect_page_by_cr3 cr3 ?v (flags_at s0 cr3 ?v AND NOT PTE_WRITABLE) s1) else s1)"
    have c: "capture_leaf env cr3 cr3 ?v pt l st = (0, te', s')"
      using pr u virt_low [OF i5 ix(2-4)] te'(1) env(2)
      by (simp add: capture_leaf_def st Let_def phys_at_def [symmetric] flags_at_def [symmetric] pte_phys_def [symmetric] pte_flags_def [symmetric] s1_def s'_def)
    have H: "vas_of s0 cr3 (D \<union> {(i, j, k, l)}) = insert ?v ?H" using True by (auto simp: vas_of_def)
    have "snap_mem cr3 s0 (insert ?v ?H) (\<lambda>_. None) s'" by (rule capture_step [OF P m True nD refl s1_def s'_def])
    moreover have "distinct (vs @ [?v])" "set (vs @ [?v]) = insert ?v ?H" "pl_pages te' = map (captured s0 cr3) (vs @ [?v])"
      using vs nD te'(2) by auto
    ultimately have "walk_inv cr3 s0 te0 (D \<union> {(i, j, k, l)}) (te', s')"
      unfolding walk_inv_def H using D ix te'(3,4) mo by (auto intro!: exI [of _ "vs @ [?v]"])
    with c show ?thesis by blast
  qed
qed

lemma no_large:
  "private_aspace cr3 s \<Longrightarrow> ok_path p \<Longrightarrow> p \<noteq> [] \<Longrightarrow> length p < 3 \<Longrightarrow> tabs s cr3 p = Some f \<Longrightarrow> i < 512
    \<Longrightarrow> has_flag (frames s f i) PTE_PRESENT \<Longrightarrow> \<not> has_flag (frames s f i) PTE_LARGEPAGE"
  unfolding private_aspace_def by blast

text \<open>The next table by the mask of the walk and by the mask of the other routines.\<close>

lemma table_masks:
  assumes P: "private_aspace cr3 s0" and m: "snap_mem cr3 s0 H J s" and p: "ok_path (p @ [i])" "p = [] \<or> length p < 3"
    and t: "tabs s0 cr3 p = Some f"
  shows "if has_flag (frames s f i) PTE_PRESENT then tabs s0 cr3 (p @ [i]) = Some (frames s f i AND PHYS_ADDR_MASK)
      \<and> (p \<noteq> [] \<longrightarrow> \<not> has_flag (frames s f i) PTE_LARGEPAGE)
    else tabs s0 cr3 (p @ [i]) = None"
proof -
  have okp: "ok_path p" using p(1) ok_path_butlast by blast
  have wf: "tables_wf s0 cr3" "pmm_sized s0" "total_pages s0 \<le> 2 ^ 40" using P by (simp_all add: private_aspace_def tables_wf_def)
  have l: "live_frame s0 f" by (rule tables_live [OF wf(1) okp t])
  have "\<not> leaf_frame s0 cr3 f"
  proof
    assume "leaf_frame s0 cr3 f"
    then obtain q where "ok_path q" "length q = 3" "tabs s0 cr3 q = Some f" by (auto simp: leaf_frame_def)
    then have "q = p" using tables_inj [OF wf(1) _ okp _ t] by blast
    with p(2) \<open>length q = 3\<close> show False by auto
  qed
  then have fr: "frames s f = frames s0 f" using m l by (simp add: snap_mem_def)
  have i: "i < 512" using p(1) by (simp add: ok_path_def)
  have e: "tabs s0 cr3 (p @ [i]) = (if has_flag (frames s0 f i) PTE_PRESENT then Some (frames s0 f i AND PAGE_MASK) else None)"
    by (simp add: tabs_append t)
  show ?thesis
  proof (cases "has_flag (frames s f i) PTE_PRESENT")
    case True
    then have t2: "tabs s0 cr3 (p @ [i]) = Some (frames s0 f i AND PAGE_MASK)" using e fr by simp
    from live_frame_phys(1) [OF wf(2,3) tables_live [OF wf(1) p(1) t2]]
    have "(frames s0 f i AND PAGE_MASK) AND PHYS_ADDR_MASK = frames s0 f i AND PAGE_MASK" by (simp add: pte_phys_def)
    moreover have "PAGE_MASK AND PHYS_ADDR_MASK = PHYS_ADDR_MASK" by (simp add: PAGE_MASK_def PHYS_ADDR_MASK_def)
    ultimately have "frames s0 f i AND PAGE_MASK = frames s0 f i AND PHYS_ADDR_MASK" by (simp add: and.assoc)
    moreover have "p \<noteq> [] \<Longrightarrow> \<not> has_flag (frames s0 f i) PTE_LARGEPAGE"
      using no_large [OF P okp _ _ t i] p(2) True fr by auto
    ultimately show ?thesis using True t2 fr by simp
  next
    case False
    then show ?thesis using e fr by simp
  qed
qed

lemma no_table_no_page:
  assumes "i < 256" "j < 512" "k < 512" "l < 512" "tabs s0 cr3 [i, j, k] = None"
  shows "virt_of i j k l \<notin> user_vas s0 cr3"
proof -
  have "i < 512" using assms by simp
  note V = virt_of_index [OF this assms(2-4)]
  have "vmm_get_pte s0 cr3 (virt_of i j k l) = 0" unfolding get_pte_leaf leaf_def V assms(5) by simp
  then show ?thesis by (simp add: user_vas_def has_flag_def)
qed

text \<open>One level of the walk on top of the one below it.\<close>

lemma walk_level:
  assumes P: "private_aspace cr3 s0" and p: "ok_path p" "length p < 3" "tabs s0 cr3 p = Some t" and n: "n \<le> 512"
    and X: "\<And>i. i < n \<Longrightarrow> X i \<subseteq> {..<256} \<times> {..<512} \<times> {..<512} \<times> {..<512}" "\<And>i j. i \<noteq> j \<Longrightarrow> X i \<inter> X j = {}"
    and none: "\<And>i x. i < n \<Longrightarrow> tabs s0 cr3 (p @ [i]) = None \<Longrightarrow> x \<in> X i \<Longrightarrow> (case x of (a, b, c, d) \<Rightarrow> virt_of a b c d \<notin> user_vas s0 cr3)"
    and below: "\<And>i f D st. i < n \<Longrightarrow> tabs s0 cr3 (p @ [i]) = Some f \<Longrightarrow> walk_inv cr3 s0 te0 D st \<Longrightarrow> D \<inter> X i = {} \<Longrightarrow>
      \<exists>st'. g i f st = (0, st') \<and> walk_inv cr3 s0 te0 (D \<union> X i) st'"
    and f: "\<And>i st. f i st = (let e = frames (snd st) t i in if \<not> has_flag e PTE_PRESENT then (0, st)
        else if large \<and> has_flag e PTE_LARGEPAGE then (0, st) else g i (e AND PHYS_ADDR_MASK) st)"
    and lg: "large \<Longrightarrow> p \<noteq> []"
    and inv: "walk_inv cr3 s0 te0 D st" "\<forall>i < n. D \<inter> X i = {}"
  shows "\<exists>st'. loop_ok f [0..<n] st = (0, st') \<and> walk_inv cr3 s0 te0 (D \<union> (\<Union>i < n. X i)) st'"
proof -
  have "\<exists>st'. loop_ok f [0..<n] st = (0, st') \<and> walk_inv cr3 s0 te0 (D \<union> \<Union> (X ` set [0..<n])) st'"
  proof (rule loop_ok_cover [where I = "walk_inv cr3 s0 te0"])
    fix i D st
    assume i: "i \<in> set [0..<n]" and I: "walk_inv cr3 s0 te0 D st" "D \<inter> X i = {}"
    have ok: "ok_path (p @ [i])" using p i n by (auto simp: ok_path_def)
    have m: "snap_mem cr3 s0 (vas_of s0 cr3 D) (\<lambda>_. None) (snd st)" using I by (simp add: walk_inv_def)
    have pl: "p = [] \<or> length p < 3" using p by simp
    note T = table_masks [OF P m ok pl p(3)]
    show "\<exists>st'. f i st = (0, st') \<and> walk_inv cr3 s0 te0 (D \<union> X i) st'"
    proof (cases "has_flag (frames (snd st) t i) PTE_PRESENT")
      case True
      then have "f i st = g i (frames (snd st) t i AND PHYS_ADDR_MASK) st" using T lg by (auto simp: f Let_def)
      with below [OF _ _ I, of "frames (snd st) t i AND PHYS_ADDR_MASK"] T True i show ?thesis by simp
    next
      case False
      then have "f i st = (0, st)" "tabs s0 cr3 (p @ [i]) = None" using T by (simp_all add: f Let_def)
      moreover have "walk_inv cr3 s0 te0 (D \<union> X i) st"
        by (rule walk_inv_skip [OF I(1)]) (use X(1) [of i] none [of i] calculation(2) i in auto)
      ultimately show ?thesis by blast
    qed
  next
    show "X i \<inter> X j = {}" if "i \<noteq> j" for i j using X(2) that .
    show "\<forall>i \<in> set [0..<n]. D \<inter> X i = {}" using inv(2) by simp
  qed (simp_all add: inv(1))
  moreover have "set [0..<n] = {..<n}" by auto
  ultimately show ?thesis by simp
qed

lemma path_some_none: "tabs s cr3 p = None \<Longrightarrow> tabs s cr3 (p @ q) = None"
  by (induction q rule: rev_induct) (simp_all flip: append_assoc add: tabs_append)

text \<open>The conditions under which the walk cannot fail: memory is available and the pages fit.\<close>

definition walk_ok :: "snap_env \<Rightarrow> u64 \<Rightarrow> 'b cow_state_scheme \<Rightarrow> bool" where
  "walk_ok env cr3 s0 \<longleftrightarrow> private_aspace cr3 s0 \<and> env_kmalloc env = (\<lambda>_. True) \<and> env_slab env = (\<lambda>_. True)
    \<and> card (user_vas s0 cr3) \<le> SNAP_PAGES_PER_TASK_MAX \<and> finite (user_vas s0 cr3)"

lemma walk_pt_inv:
  assumes ok: "walk_ok env cr3 s0" and ix: "i < 256" "j < 512" "k < 512" and pt: "tabs s0 cr3 [i, j, k] = Some pt"
    and inv: "walk_inv cr3 s0 te0 D st" and new: "D \<inter> ({i} \<times> {j} \<times> {k} \<times> {..<512}) = {}"
  shows "\<exists>st'. walk_pt env cr3 cr3 i j k pt st = (0, st') \<and> walk_inv cr3 s0 te0 (D \<union> {i} \<times> {j} \<times> {k} \<times> {..<512}) st'"
proof -
  have P: "private_aspace cr3 s0" "env_kmalloc env = (\<lambda>_. True)" "env_slab env = (\<lambda>_. True)"
    "card (user_vas s0 cr3) \<le> SNAP_PAGES_PER_TASK_MAX" "finite (user_vas s0 cr3)"
    using ok by (simp_all add: walk_ok_def)
  have "\<exists>st'. walk_pt env cr3 cr3 i j k pt st = (0, st') \<and> walk_inv cr3 s0 te0 (D \<union> \<Union> ((\<lambda>l. {(i, j, k, l)}) ` set [0..<512])) st'"
    unfolding walk_pt_def
  proof (rule loop_ok_cover [where I = "walk_inv cr3 s0 te0"])
    fix l D st
    assume "l \<in> set [0..<512]" and I: "walk_inv cr3 s0 te0 D st" "D \<inter> {(i, j, k, l)} = {}"
    then have l: "l < 512" by simp
    show "\<exists>st'. capture_leaf env cr3 cr3 (virt_of i j k l) pt l st = (0, st') \<and> walk_inv cr3 s0 te0 (D \<union> {(i, j, k, l)}) st'"
      by (rule walk_leaf [OF P ix l pt I])
  next
    show "\<forall>l \<in> set [0..<512]. D \<inter> {(i, j, k, l)} = {}" using new by auto
  qed (use inv in simp_all)
  moreover have "\<Union> ((\<lambda>l. {(i, j, k, l)}) ` set [0..<512]) = {i} \<times> {j} \<times> {k} \<times> {..<512}" by auto
  ultimately show ?thesis by simp
qed

lemma walk_pd_inv:
  assumes ok: "walk_ok env cr3 s0" and ix: "i < 256" "j < 512" and pd: "tabs s0 cr3 [i, j] = Some pd"
    and inv: "walk_inv cr3 s0 te0 D st" and new: "D \<inter> ({i} \<times> {j} \<times> {..<512} \<times> {..<512}) = {}"
  shows "\<exists>st'. walk_pd env cr3 cr3 i j pd st = (0, st') \<and> walk_inv cr3 s0 te0 (D \<union> {i} \<times> {j} \<times> {..<512} \<times> {..<512}) st'"
proof -
  have P: "private_aspace cr3 s0" using ok by (simp add: walk_ok_def)
  have okp: "ok_path [i, j]" using ix by (auto simp: ok_path_def)
  have "\<exists>st'. walk_pd env cr3 cr3 i j pd st = (0, st')
      \<and> walk_inv cr3 s0 te0 (D \<union> (\<Union>k < 512. {i} \<times> {j} \<times> {k} \<times> {..<512})) st'"
    unfolding walk_pd_def
  proof (rule walk_level [OF P okp _ pd, where g = "walk_pt env cr3 cr3 i j" and large = True])
    fix k x
    assume k: "k < (512 :: nat)" and t: "tabs s0 cr3 ([i, j] @ [k]) = None" and x: "x \<in> {i} \<times> {j} \<times> {k} \<times> {..<(512 :: nat)}"
    show "case x of (a, b, c, d) \<Rightarrow> virt_of a b c d \<notin> user_vas s0 cr3"
      using no_table_no_page [OF ix k, of _ s0 cr3] t x by auto
  next
    fix k f D and st :: "'b page_list_scheme \<times> 'a cow_state_scheme"
    assume k: "k < (512 :: nat)" and t: "tabs s0 cr3 ([i, j] @ [k]) = Some f"
      and I: "walk_inv cr3 s0 te0 D st" "D \<inter> {i} \<times> {j} \<times> {k} \<times> {..<512} = {}"
    have "tabs s0 cr3 [i, j, k] = Some f" using t by (simp only: append.simps)
    from walk_pt_inv [OF ok ix k this I] show "\<exists>st'. walk_pt env cr3 cr3 i j k f st = (0, st')
      \<and> walk_inv cr3 s0 te0 (D \<union> {i} \<times> {j} \<times> {k} \<times> {..<512}) st'" .
  next
    show "\<forall>k < 512. D \<inter> {i} \<times> {j} \<times> {k} \<times> {..<512} = {}" using new by auto
  qed (use ix inv in \<open>auto simp: Let_def\<close>)
  moreover have "(\<Union>k < (512 :: nat). {i} \<times> {j} \<times> {k} \<times> {..<512}) = {i} \<times> {j} \<times> {..<512} \<times> {..<(512 :: nat)}" by auto
  ultimately show ?thesis by simp
qed

lemma walk_pdpt_inv:
  assumes ok: "walk_ok env cr3 s0" and ix: "i < 256" and pdpt: "tabs s0 cr3 [i] = Some pdpt"
    and inv: "walk_inv cr3 s0 te0 D st" and new: "D \<inter> ({i} \<times> {..<512} \<times> {..<512} \<times> {..<512}) = {}"
  shows "\<exists>st'. walk_pdpt env cr3 cr3 i pdpt st = (0, st') \<and> walk_inv cr3 s0 te0 (D \<union> {i} \<times> {..<512} \<times> {..<512} \<times> {..<512}) st'"
proof -
  have P: "private_aspace cr3 s0" using ok by (simp add: walk_ok_def)
  have okp: "ok_path [i]" using ix by (auto simp: ok_path_def)
  have "\<exists>st'. walk_pdpt env cr3 cr3 i pdpt st = (0, st')
      \<and> walk_inv cr3 s0 te0 (D \<union> (\<Union>j < 512. {i} \<times> {j} \<times> {..<512} \<times> {..<512})) st'"
    unfolding walk_pdpt_def
  proof (rule walk_level [OF P okp _ pdpt, where g = "walk_pd env cr3 cr3 i" and large = True])
    fix j x
    assume j: "j < (512 :: nat)" and t: "tabs s0 cr3 ([i] @ [j]) = None" and x: "x \<in> {i} \<times> {j} \<times> {..<(512 :: nat)} \<times> {..<(512 :: nat)}"
    have "tabs s0 cr3 [i, j, k] = None" for k using path_some_none [OF t, of "[k]"] by (simp only: append.simps)
    with no_table_no_page [OF ix j, of _ _ s0 cr3] x show "case x of (a, b, c, d) \<Rightarrow> virt_of a b c d \<notin> user_vas s0 cr3"
      by auto
  next
    fix j f D and st :: "'b page_list_scheme \<times> 'a cow_state_scheme"
    assume j: "j < (512 :: nat)" and t: "tabs s0 cr3 ([i] @ [j]) = Some f"
      and I: "walk_inv cr3 s0 te0 D st" "D \<inter> {i} \<times> {j} \<times> {..<512} \<times> {..<512} = {}"
    have "tabs s0 cr3 [i, j] = Some f" using t by (simp only: append.simps)
    from walk_pd_inv [OF ok ix j this I] show "\<exists>st'. walk_pd env cr3 cr3 i j f st = (0, st')
      \<and> walk_inv cr3 s0 te0 (D \<union> {i} \<times> {j} \<times> {..<512} \<times> {..<512}) st'" .
  next
    show "\<forall>j < 512. D \<inter> {i} \<times> {j} \<times> {..<512} \<times> {..<512} = {}" using new by auto
  qed (use ix inv in \<open>auto simp: Let_def\<close>)
  moreover have "(\<Union>j < (512 :: nat). {i} \<times> {j} \<times> {..<512 :: nat} \<times> {..<512 :: nat}) = {i} \<times> {..<512 :: nat} \<times> {..<512 :: nat} \<times> {..<(512 :: nat)}" by auto
  ultimately show ?thesis by simp
qed

lemma walk_user_inv:
  assumes ok: "walk_ok env cr3 s0" and inv: "walk_inv cr3 s0 te0 {} st"
  shows "\<exists>st'. snap_walk_user_half env cr3 cr3 st = (0, st') \<and> walk_inv cr3 s0 te0 ({..<256} \<times> {..<512} \<times> {..<512} \<times> {..<512}) st'"
proof -
  have P: "private_aspace cr3 s0" using ok by (simp add: walk_ok_def)
  have okp: "ok_path []" by (simp add: ok_path_def)
  have "\<exists>st'. snap_walk_user_half env cr3 cr3 st = (0, st')
      \<and> walk_inv cr3 s0 te0 ({} \<union> (\<Union>i < 256. {i} \<times> {..<512} \<times> {..<512} \<times> {..<512})) st'"
    unfolding snap_walk_user_half_def
  proof (rule walk_level [OF P okp _ _, where g = "walk_pdpt env cr3 cr3" and large = False and t = cr3])
    fix i x
    assume i: "i < (256 :: nat)" and t: "tabs s0 cr3 ([] @ [i]) = None" and x: "x \<in> {i} \<times> {..<512 :: nat} \<times> {..<512 :: nat} \<times> {..<(512 :: nat)}"
    have "tabs s0 cr3 [i, j, k] = None" for j k using path_some_none [OF t, of "[j, k]"] by (simp only: append.simps)
    with no_table_no_page [OF i, of _ _ _ s0 cr3] x show "case x of (a, b, c, d) \<Rightarrow> virt_of a b c d \<notin> user_vas s0 cr3"
      by auto
  next
    fix i f D and st :: "'b page_list_scheme \<times> 'a cow_state_scheme"
    assume i: "i < (256 :: nat)" and t: "tabs s0 cr3 ([] @ [i]) = Some f"
      and I: "walk_inv cr3 s0 te0 D st" "D \<inter> {i} \<times> {..<512} \<times> {..<512} \<times> {..<512} = {}"
    have "tabs s0 cr3 [i] = Some f" using t by (simp only: append.simps)
    from walk_pdpt_inv [OF ok i this I] show "\<exists>st'. walk_pdpt env cr3 cr3 i f st = (0, st')
      \<and> walk_inv cr3 s0 te0 (D \<union> {i} \<times> {..<512} \<times> {..<512} \<times> {..<512}) st'" .
  qed (use inv in \<open>auto simp: Let_def\<close>)
  moreover have "(\<Union>i < (256 :: nat). {i} \<times> {..<512 :: nat} \<times> {..<512 :: nat} \<times> {..<512 :: nat}) = {..<256} \<times> {..<512 :: nat} \<times> {..<512 :: nat} \<times> {..<(512 :: nat)}" by auto
  ultimately show ?thesis by simp
qed

lemma walk_captures:
  assumes ok: "walk_ok env cr3 s" and c: "cow_wf s" "g_cow_tracker_cache s" and te: "pl_pages te = []" "pl_page_cap te = 0"
  obtains te' s' vs where "snap_walk_user_half env cr3 cr3 (te, s) = (0, te', s')" "distinct vs" "set vs = user_vas s cr3"
    "pl_pages te' = map (captured s cr3) vs" "snap_mem cr3 s (user_vas s cr3) (\<lambda>_. None) s'" "page_list.more te' = page_list.more te"
proof -
  have "walk_inv cr3 s te {} (te, s)"
    using snap_mem_init [of cr3 s] ok c te by (simp add: walk_inv_def vas_of_def walk_ok_def)
  from walk_user_inv [OF ok this] obtain te' s' where w: "snap_walk_user_half env cr3 cr3 (te, s) = (0, te', s')"
    and I: "walk_inv cr3 s te ({..<256} \<times> {..<512} \<times> {..<512} \<times> {..<512}) (te', s')" by auto
  have "vas_of s cr3 ({..<256} \<times> {..<512} \<times> {..<512} \<times> {..<512}) = user_vas s cr3" by (auto simp: vas_of_def user_vas_def)
  with w I that show thesis by (auto simp: walk_inv_def)
qed

section \<open>What the program sees\<close>

text \<open>A store on memory as the program sees it, and the stores of a run that succeed.\<close>

definition view_store :: "u64 \<times> u64 \<Rightarrow> (u64 \<Rightarrow> (nat \<Rightarrow> u64) option) \<Rightarrow> u64 \<Rightarrow> (nat \<Rightarrow> u64) option" where
  "view_store x V = (\<lambda>v. if same_page (fst x) v
    then map_option (\<lambda>f. f(unat (drop_bit 3 (fst x AND 0xFFF)) := snd x)) (V v) else V v)"

fun done_stores :: "u64 \<Rightarrow> (u64 \<times> u64) list \<Rightarrow> 'b cow_state_scheme \<Rightarrow> (u64 \<times> u64) list" where
  "done_stores cr3 [] s = []"
| "done_stores cr3 (x # xs) s = (case user_store cr3 x s of (ok, s') \<Rightarrow> (if ok then [x] else []) @ done_stores cr3 xs s')"

lemma store_now_view:
  assumes P: "private_aspace cr3 s0" and m: "snap_mem cr3 s0 (user_vas s0 cr3) J s" and c: "store_now cr3 va w s = (True, s')"
  shows "user_view s' cr3 = view_store (va, w) (user_view s cr3)"
proof
  fix v
  let ?p = "pte_phys (vmm_get_pte s cr3 va)" and ?i = "unat (drop_bit 3 (va AND 0xFFF))"
  have u: "has_flag (vmm_get_pte s cr3 va) PTE_USER" and s': "s' = put_word ?p ?i w s"
    using c by (auto simp: store_now_def Let_def pte_phys_def split: if_splits)
  note F = snap_user_frame [OF P m u]
  have fr: "frames s' = (frames s)(?p := (frames s ?p)(?i := w))" unfolding s' by (simp add: put_word_def)
  have "\<not> table_frame s cr3 ?p"
  proof -
    from user_covered [OF P m u] obtain a where a: "a \<in> user_vas s0 cr3" "vmm_get_pte s cr3 va = entry_at s0 cr3 (user_vas s0 cr3) J a" by metis
    show ?thesis using entry_at_facts(1) [OF P m a(1)] a copy_not_live(2) [OF P m, of a] user_vasD(2) [OF P a(1)] snap_memD(8) [OF m]
      by (cases "J a") simp_all
  qed
  then have "tables_eq cr3 s s'" by (intro tables_eq_other [of _ _ ?p]) (simp_all add: fr)
  then have e: "vmm_get_pte s' cr3 v = vmm_get_pte s cr3 v" by (simp add: tables_eqD(1))
  show "user_view s' cr3 v = view_store (va, w) (user_view s cr3) v"
  proof (cases "same_page va v")
    case True
    then have "vmm_get_pte s cr3 v = vmm_get_pte s cr3 va" using get_pte_same_page [OF True, of s cr3] by simp
    then show ?thesis using True u by (simp add: user_view_def Let_def view_store_def e fr)
  next
    case False
    then have "has_flag (vmm_get_pte s cr3 v) PTE_USER \<Longrightarrow> pte_phys (vmm_get_pte s cr3 v) \<noteq> ?p" using F(3) by blast
    then show ?thesis using False fr by (simp add: user_view_def Let_def view_store_def e)
  qed
qed

lemma store_view:
  assumes P: "private_aspace cr3 s0" and m: "snap_mem cr3 s0 (user_vas s0 cr3) J s" and c: "user_store cr3 x s = (ok, s')"
  shows "user_view s' cr3 = (if ok then view_store x (user_view s cr3) else user_view s cr3)"
proof (cases "fst (store_now cr3 (fst x) (snd x) s)")
  case True
  then have "store_now cr3 (fst x) (snd x) s = (True, s')" "ok"
    using c by (cases "store_now cr3 (fst x) (snd x) s"; auto simp: user_store_def)+
  then show ?thesis using store_now_view [OF P m, of "fst x" "snd x" s'] by simp
next
  case False
  have n: "store_now cr3 a b t = (False, t)" if "\<not> fst (store_now cr3 a b t)" for a b and t :: "'a cow_state_scheme"
    using that by (auto simp: store_now_def Let_def split: if_splits)
  obtain rc s2 where 2: "snap_cow_pf_dispatch (Some cr3) (fst x) 7 s = (rc, s2)" by fastforce
  from fault_step [OF P m 2] obtain J' where m2: "snap_mem cr3 s0 (user_vas s0 cr3) J' s2" "user_view s2 cr3 = user_view s cr3" by blast
  have e: "(ok, s') = (if vmm_get_pte s cr3 (fst x) = 0 then (False, s) else if rc = 0 then store_now cr3 (fst x) (snd x) s2 else (False, s2))"
    unfolding c [symmetric] by (simp add: user_store_def n [OF False] 2)
  show ?thesis
  proof (cases "vmm_get_pte s cr3 (fst x) \<noteq> 0 \<and> rc = 0 \<and> fst (store_now cr3 (fst x) (snd x) s2)")
    case True
    then have "store_now cr3 (fst x) (snd x) s2 = (True, s')" "ok" using e by (cases "store_now cr3 (fst x) (snd x) s2"; simp)+
    then show ?thesis using store_now_view [OF P m2(1), of "fst x" "snd x" s'] m2(2) by simp
  next
    case False
    then have "\<not> ok \<and> (s' = s \<or> s' = s2)" using e n [of "fst x" "snd x" s2] by (auto split: if_splits)
    then show ?thesis using m2(2) by auto
  qed
qed

lemma run_view:
  assumes P: "private_aspace cr3 s0"
  shows "snap_mem cr3 s0 (user_vas s0 cr3) J s \<Longrightarrow> user_view (user_run cr3 xs s) cr3 = fold view_store (done_stores cr3 xs s) (user_view s cr3)"
proof (induction xs arbitrary: s J)
  case (Cons x xs)
  obtain ok s' where c: "user_store cr3 x s = (ok, s')" by fastforce
  from store_step [OF P Cons.prems(1), of x] c obtain J' where "snap_mem cr3 s0 (user_vas s0 cr3) J' s'" by auto
  from Cons.IH [OF this] store_view [OF P Cons.prems(1) c] c show ?case by (simp add: user_run_def)
qed (simp add: user_run_def)

lemma view_init:
  assumes P: "private_aspace cr3 s0" and m: "snap_mem cr3 s0 H (\<lambda>_. None) s"
  shows "user_view s cr3 = user_view s0 cr3"
proof
  fix u
  have sz: "tables_wf s0 cr3" using P by (simp add: private_aspace_def)
  show "user_view s cr3 u = user_view s0 cr3 u"
  proof (cases "\<exists>v \<in> user_vas s0 cr3. same_page v u")
    case True
    then obtain v where v: "v \<in> user_vas s0 cr3" "same_page v u" by blast
    note E = entry_at_facts [OF P m v(1)] and D = user_vasD [OF P v(1)]
    have "vmm_get_pte s cr3 u = entry_at s0 cr3 H (\<lambda>_. None) v" "vmm_get_pte s0 cr3 u = vmm_get_pte s0 cr3 v"
      using snap_memD(6) [OF m v(1)] get_pte_same_page [OF v(2), of s cr3] get_pte_same_page [OF v(2), of s0 cr3] by simp_all
    moreover have "\<not> leaf_frame s0 cr3 (phys_at s0 cr3 v)" using D(2) by (auto simp: leaf_frame_def table_frame_def)
    then have "frames s (phys_at s0 cr3 v) = frames s0 (phys_at s0 cr3 v)" using m D(1) by (simp add: snap_mem_def)
    ultimately show ?thesis using E(1,2) D(6) by (simp add: user_view_def Let_def phys_at_def)
  next
    case False
    then have e: "vmm_get_pte s cr3 u = vmm_get_pte s0 cr3 u" using m by (simp add: snap_mem_def)
    have "\<not> has_flag (vmm_get_pte s0 cr3 u) PTE_USER" using user_vas_cover [OF P, of u] False by blast
    then show ?thesis by (simp add: user_view_def Let_def e)
  qed
qed

lemma release_view:
  assumes P: "private_aspace cr3 s0" and m: "snap_mem cr3 s0 H J s" and m': "snap_mem cr3 s0 H' J s'"
    and f: "\<forall>f. \<not> leaf_frame s0 cr3 f \<longrightarrow> frames s' f = frames s f"
  shows "user_view s' cr3 = user_view s cr3"
proof
  fix u
  show "user_view s' cr3 u = user_view s cr3 u"
  proof (cases "\<exists>v \<in> user_vas s0 cr3. same_page v u")
    case True
    then obtain v where v: "v \<in> user_vas s0 cr3" "same_page v u" by blast
    note E = entry_at_facts [OF P m v(1)] and E' = entry_at_facts [OF P m' v(1)]
    have e: "vmm_get_pte s cr3 u = entry_at s0 cr3 H J v" "vmm_get_pte s' cr3 u = entry_at s0 cr3 H' J v"
      using snap_memD(6) [OF m v(1)] snap_memD(6) [OF m' v(1)] get_pte_same_page [OF v(2), of s cr3] get_pte_same_page [OF v(2), of s' cr3] by simp_all
    have "leaf_frame s0 cr3 = leaf_frame s cr3" using kept_tables(3) [of cr3 s0 s] m by (auto simp: snap_mem_def fun_eq_iff)
    then have "\<not> leaf_frame s0 cr3 (pte_phys (vmm_get_pte s cr3 u))" using snap_user_frame(2) [OF P m, of u] e E(2) by simp
    then have "frames s' (pte_phys (vmm_get_pte s cr3 u)) = frames s (pte_phys (vmm_get_pte s cr3 u))" using f by blast
    then show ?thesis using e E(1,2) E'(1,2) by (simp add: user_view_def Let_def)
  next
    case False
    then have e: "vmm_get_pte s cr3 u = vmm_get_pte s0 cr3 u" "vmm_get_pte s' cr3 u = vmm_get_pte s0 cr3 u" using m m' by (simp_all add: snap_mem_def)
    have "\<not> has_flag (vmm_get_pte s0 cr3 u) PTE_USER" using user_vas_cover [OF P, of u] False by blast
    then show ?thesis by (simp add: user_view_def Let_def e)
  qed
qed

section \<open>Aborting and committing\<close>

lemma snap_mem_undone:
  assumes P: "private_aspace cr3 s" and m: "snap_mem cr3 s {} J s'" and J: "\<And>v. J v \<noteq> None \<Longrightarrow> v = skip \<and> skip \<noteq> 0"
  shows "skip = 0 \<or> \<not> same_page skip v \<Longrightarrow> vmm_get_pte s' cr3 v = vmm_get_pte s cr3 v"
    "skip = 0 \<or> \<not> same_page skip v \<Longrightarrow> user_view s' cr3 v = user_view s cr3 v"
    "skip = 0 \<Longrightarrow> page_refs s' = page_refs s"
proof -
  show pte: "vmm_get_pte s' cr3 v = vmm_get_pte s cr3 v" if "skip = 0 \<or> \<not> same_page skip v" for v
  proof (cases "\<exists>u \<in> user_vas s cr3. same_page u v")
    case True
    then obtain u where u: "u \<in> user_vas s cr3" "same_page u v" by blast
    then have "J u = None" using J [of u] that by blast
    then have "vmm_get_pte s' cr3 u = vmm_get_pte s cr3 u" using snap_memD(6) [OF m u(1)] by (simp add: entry_at_def entry_captured)
    then show ?thesis using get_pte_same_page [OF u(2), of s cr3] get_pte_same_page [OF u(2), of s' cr3] by simp
  next
    case False
    then show ?thesis using m by (simp add: snap_mem_def)
  qed
  show "user_view s' cr3 v = user_view s cr3 v" if "skip = 0 \<or> \<not> same_page skip v"
  proof (cases "has_flag (vmm_get_pte s cr3 v) PTE_USER")
    case True
    then have "live_frame s (phys_at s cr3 v)" "\<not> table_frame s cr3 (phys_at s cr3 v)" using P by (simp_all add: private_aspace_def)
    then have "frames s' (phys_at s cr3 v) = frames s (phys_at s cr3 v)"
      using m by (auto simp: snap_mem_def leaf_frame_def table_frame_def)
    then show ?thesis using True by (simp add: user_view_def pte [OF that] phys_at_def)
  qed (simp add: user_view_def pte [OF that] Let_def)
  show "page_refs s' = page_refs s" if "skip = 0"
  proof
    fix i
    have J0: "J = (\<lambda>_. None)" using J that by fastforce
    show "page_refs s' i = page_refs s i"
    proof (cases "i \<in> (\<lambda>v. frame_no (phys_at s cr3 v)) ` user_vas s cr3")
      case True
      then obtain u where u: "u \<in> user_vas s cr3" "i = frame_no (phys_at s cr3 u)" by blast
      from user_vasD(4) [OF P u(1)] obtain n where "page_refs s i = Some n" "0 < n" using u(2) by auto
      then show ?thesis using snap_memD(7) [OF m u(1)] u(2) by (simp add: refs_at_def J0)
    next
      case False
      then show ?thesis using m by (simp add: snap_mem_def refs_ok_def J0)
    qed
  qed
qed

text \<open>
  C29: A snapshot can be undone exactly. When the walk captures an address space whose pages are its
  own, it succeeds; whatever stores the program then performs, restoring the recorded pages and
  releasing the snapshot gives back every page table entry and every page content there was before,
  and, when no page is skipped, the reference counts of all physical pages. The page that holds the
  active stack is left alone when it is named as the page to skip.
\<close>

theorem snapshot_abort_restores:
  assumes ok: "walk_ok env cr3 s" and c: "cow_wf s" "g_cow_tracker_cache s" and te: "pl_pages te = []" "pl_page_cap te = 0"
  shows "\<exists>te' s1. snap_walk_user_half env cr3 cr3 (te, s) = (0, te', s1)
    \<and> (\<forall>xs skip. let s4 = release_pages cr3 (pl_pages te') (restore_pages env cr3 skip (pl_pages te') (user_run cr3 xs s1)) in
        (\<forall>v. skip = 0 \<or> \<not> same_page skip v \<longrightarrow> vmm_get_pte s4 cr3 v = vmm_get_pte s cr3 v \<and> user_view s4 cr3 v = user_view s cr3 v)
        \<and> (skip = 0 \<longrightarrow> page_refs s4 = page_refs s))"
proof -
  from walk_captures [OF ok c te] obtain te' s1 vs where w: "snap_walk_user_half env cr3 cr3 (te, s) = (0, te', s1)"
    "distinct vs" "set vs = user_vas s cr3" "pl_pages te' = map (captured s cr3) vs" "snap_mem cr3 s (user_vas s cr3) (\<lambda>_. None) s1"
    by metis
  have P: "private_aspace cr3 s" and env: "env_slab env = (\<lambda>_. True)" using ok by (simp_all add: walk_ok_def)
  show ?thesis
  proof (intro exI conjI allI)
    fix xs skip
    from user_run_mem [OF P w(5)] obtain J where m2: "snap_mem cr3 s (user_vas s cr3) J (user_run cr3 xs s1)" by blast
    let ?J = "\<lambda>v. if v = skip \<and> skip \<noteq> 0 then J v else None"
    define s4 where "s4 = release_pages cr3 (pl_pages te') (restore_pages env cr3 skip (pl_pages te') (user_run cr3 xs s1))"
    have M: "snap_mem cr3 s {} ?J s4"
      using release_pages_mem [OF P restore_all [OF P env m2 w(3)] _ w(2)] w(3,4) by (simp add: s4_def)
    have "v = skip \<and> skip \<noteq> 0" if "?J v \<noteq> None" for v using that by (simp split: if_splits)
    note U = snap_mem_undone [OF P M this]
    have "(\<forall>v. skip = 0 \<or> \<not> same_page skip v \<longrightarrow> vmm_get_pte s4 cr3 v = vmm_get_pte s cr3 v \<and> user_view s4 cr3 v = user_view s cr3 v)
        \<and> (skip = 0 \<longrightarrow> page_refs s4 = page_refs s)"
      using U by blast
    then show "let s4 = release_pages cr3 (pl_pages te') (restore_pages env cr3 skip (pl_pages te') (user_run cr3 xs s1)) in
        (\<forall>v. skip = 0 \<or> \<not> same_page skip v \<longrightarrow> vmm_get_pte s4 cr3 v = vmm_get_pte s cr3 v \<and> user_view s4 cr3 v = user_view s cr3 v)
        \<and> (skip = 0 \<longrightarrow> page_refs s4 = page_refs s)"
      by (simp add: s4_def [symmetric] Let_def)
  qed (rule w(1))
qed


section \<open>A captured address space\<close>

text \<open>Two user pages: one writable at \<open>0x400000\<close>, one read-only at \<open>0x401000\<close>.\<close>

definition demo_frames :: "u64 \<Rightarrow> nat \<Rightarrow> u64" where
  "demo_frames f i = (if f = 0x2000 \<and> i = 0 then 0x3007 else if f = 0x3000 \<and> i = 0 then 0x4007 else if f = 0x4000 \<and> i = 2 then 0x5007
    else if f = 0x5000 \<and> i = 0 then 0x8007 else if f = 0x5000 \<and> i = 1 then 0x9005 else 0)"

definition demo_space :: cow_state where
  "demo_space = \<lparr>bitmap = [0x3F, 0xF3], pp_refcounts = [0, 0, 1, 1, 1, 1, 0, 0, 1, 1, 0, 0], total_pages = 12, used_pages = 8,
    usable_memory = 0xA000, last_used_index = 3, g_debug_pmm_fail_nth = 0, frames = demo_frames,
    address_space_pool = 0x2000 # replicate 31 0, next_address_space_idx = 0, kernel_space = 0x2000,
    g_cow_buckets = (\<lambda>_. []), g_cow_tracker_cache = True, g_cow_tracker_count = 0\<rparr>"

definition demo_env :: snap_env where
  "demo_env = \<lparr>env_kmalloc = (\<lambda>_. True), env_slab = (\<lambda>_. True)\<rparr>"

definition demo_list :: page_list where
  "demo_list = \<lparr>pl_pages = [], pl_page_cap = 0\<rparr>"

lemma demo_present: "has_flag (demo_frames f i) PTE_PRESENT \<longleftrightarrow> (f, i) \<in> {(0x2000, 0), (0x3000, 0), (0x4000, 2), (0x5000, 0), (0x5000, 1)}"
  by (auto simp: demo_frames_def has_flag_def PTE_PRESENT_def)

lemma demo_tabs:
  assumes "tabs demo_space 0x2000 p = Some f" "length p \<le> 3"
  shows "(p, f) \<in> {([], 0x2000), ([0], 0x3000), ([0, 0], 0x4000), ([0, 0, 2], 0x5000)}"
proof -
  have fr: "frames demo_space = demo_frames" by (simp add: demo_space_def)
  have step: "tabs demo_space a (i # is) = (if (a, i) \<in> {(0x2000, 0), (0x3000, 0), (0x4000, 2), (0x5000, 0), (0x5000, 1)}
    then tabs demo_space (demo_frames a i AND PAGE_MASK) is else None)" for a i "is"
    by (simp only: tabs.simps fr demo_present)
  have n: "demo_frames 0x2000 0 AND PAGE_MASK = 0x3000" "demo_frames 0x3000 0 AND PAGE_MASK = 0x4000" "demo_frames 0x4000 2 AND PAGE_MASK = 0x5000"
    by (simp_all add: demo_frames_def PAGE_MASK_def)
  consider "p = []" | i where "p = [i]" | i j where "p = [i, j]" | i j k where "p = [i, j, k]"
    using assms(2) by (cases p; cases "tl p"; cases "tl (tl p)") auto
  then show ?thesis
    using assms(1) by cases (auto simp: step n simp del: tabs.simps(2) split: if_splits)
qed

lemma demo_leaf:
  "vmm_get_pte demo_space 0x2000 v = (if path3 v = [0, 0, 2] \<and> pt_index v < 2 then demo_frames 0x5000 (pt_index v) else 0)"
proof (cases "path3 v = [0, 0, 2]")
  case True
  have "tabs demo_space 0x2000 [0, 0, 2] = Some 0x5000"
    by (simp add: demo_space_def demo_frames_def has_flag_def PTE_PRESENT_def PAGE_MASK_def)
  then have "vmm_get_pte demo_space 0x2000 v = (if has_flag (demo_frames 0x5000 (pt_index v)) PTE_PRESENT then demo_frames 0x5000 (pt_index v) else 0)"
    unfolding get_pte_leaf leaf_def True by (simp only: option.case) (simp add: demo_space_def)
  then show ?thesis unfolding demo_present using True by (auto simp: less_2_cases_iff)
next
  case False
  have "tabs demo_space 0x2000 (path3 v) = None"
  proof (rule ccontr)
    assume "tabs demo_space 0x2000 (path3 v) \<noteq> None"
    then obtain f where "tabs demo_space 0x2000 (path3 v) = Some f" by blast
    from demo_tabs [OF this] False show False by (auto simp: path3_def)
  qed
  then show ?thesis unfolding get_pte_leaf leaf_def using False by simp
qed

lemma demo_entries: "demo_frames 0x5000 0 = 0x8007" "demo_frames 0x5000 (Suc 0) = 0x9005" "demo_frames 0x5000 1 = 0x9005"
  by (simp_all add: demo_frames_def)

lemma demo_refs:
  "page_refs demo_space 0 = Some 0" "page_refs demo_space 2 = Some 1" "page_refs demo_space 3 = Some 1" "page_refs demo_space 4 = Some 1"
  "page_refs demo_space 5 = Some 1" "page_refs demo_space 8 = Some 1" "page_refs demo_space 9 = Some 1" "page_refs demo_space 10 = None"
  by code_simp+

lemma demo_live: "live_frame demo_space 0x2000" "live_frame demo_space 0x3000" "live_frame demo_space 0x4000" "live_frame demo_space 0x5000"
  "live_frame demo_space 0x8000" "live_frame demo_space 0x9000"
proof -
  have a: "live_frame demo_space (page_addr i)" if "page_refs demo_space i \<noteq> None" "i < 12" "i \<noteq> 0" for i
    using that by (auto simp: live_frame_def demo_space_def)
  have "page_addr 2 = 0x2000" "page_addr 3 = 0x3000" "page_addr 4 = 0x4000" "page_addr 5 = 0x5000" "page_addr 8 = 0x8000" "page_addr 9 = 0x9000"
    by (simp_all add: page_addr_def)
  then show "live_frame demo_space 0x2000" "live_frame demo_space 0x3000" "live_frame demo_space 0x4000" "live_frame demo_space 0x5000"
    "live_frame demo_space 0x8000" "live_frame demo_space 0x9000"
    using a [of 2] a [of 3] a [of 4] a [of 5] a [of 8] a [of 9] demo_refs by simp_all
qed

lemma demo_sized: "pmm_sized demo_space"
  by (simp add: pmm_sized_def demo_space_def)

lemma demo_private: "private_aspace 0x2000 demo_space"
proof -
  have wf: "tables_wf demo_space 0x2000"
    unfolding tables_wf_def
  proof (intro conjI allI impI)
    fix p f assume a: "ok_path p \<and> tabs demo_space 0x2000 p = Some f"
    then have "length p \<le> 3" by (simp add: ok_path_def)
    from demo_tabs [OF conjunct2 [OF a] this] show "live_frame demo_space f" using demo_live by auto
  next
    fix p q f assume a: "ok_path p \<and> ok_path q \<and> tabs demo_space 0x2000 p = Some f \<and> tabs demo_space 0x2000 q = Some f"
    then have "length p \<le> 3" "length q \<le> 3" "tabs demo_space 0x2000 p = Some f" "tabs demo_space 0x2000 q = Some f" by (simp_all add: ok_path_def)
    from demo_tabs [OF this(3,1)] demo_tabs [OF this(4,2)] show "p = q" by auto
  qed (rule demo_sized)
  have large: "\<not> has_flag (frames demo_space f i) PTE_LARGEPAGE" for f i
    by (simp add: demo_space_def demo_frames_def has_flag_def PTE_LARGEPAGE_def)
  have user: "v \<in> {v. path3 v = [0, 0, 2] \<and> pt_index v < 2}" if "has_flag (vmm_get_pte demo_space 0x2000 v) PTE_USER" for v
    using that unfolding demo_leaf by (auto simp: has_flag_def split: if_splits)
  have ph: "phys_at demo_space 0x2000 v = (if pt_index v = 0 then 0x8000 else 0x9000)" if "path3 v = [0, 0, 2]" "pt_index v < 2" for v
    using that unfolding phys_at_def demo_leaf by (auto simp: demo_entries pte_phys_def PHYS_ADDR_MASK_def less_2_cases_iff)
  have nt: "\<not> table_frame demo_space 0x2000 f" if "f = 0x8000 \<or> f = 0x9000" for f
    using that demo_tabs by (fastforce simp: table_frame_def ok_path_def)
  have fn: "frame_no 0x8000 = 8" "frame_no 0x9000 = 9" by (simp_all add: frame_no_def)
  show ?thesis
    unfolding private_aspace_def
  proof (intro conjI allI impI)
    fix v assume "has_flag (vmm_get_pte demo_space 0x2000 v) PTE_USER"
    then have v: "path3 v = [0, 0, 2]" "pt_index v < 2" using user by auto
    show "pml4_index v < 256" using v(1) by (simp add: path3_def)
    show "live_frame demo_space (phys_at demo_space 0x2000 v)" "\<not> table_frame demo_space 0x2000 (phys_at demo_space 0x2000 v)"
      "\<exists>n. page_refs demo_space (frame_no (phys_at demo_space 0x2000 v)) = Some n \<and> 0 < n \<and> n < 255"
      unfolding ph [OF v] using demo_live nt demo_refs fn by auto
  next
    fix u v assume a: "has_flag (vmm_get_pte demo_space 0x2000 u) PTE_USER \<and> has_flag (vmm_get_pte demo_space 0x2000 v) PTE_USER
      \<and> phys_at demo_space 0x2000 u = phys_at demo_space 0x2000 v"
    then have b: "path3 u = [0, 0, 2]" "pt_index u < 2" "path3 v = [0, 0, 2]" "pt_index v < 2" using user by auto
    with a ph [OF b(1,2)] ph [OF b(3,4)] have "pt_index u = pt_index v" by (auto split: if_splits)
    with b show "same_page u v" by (simp add: same_page_def)
  qed (use wf large demo_refs in \<open>simp_all add: demo_space_def\<close>)
qed

lemma demo_user_vas: "user_vas demo_space 0x2000 = {0x400000, 0x401000}"
proof -
  have v: "virt_of 0 0 2 0 = 0x400000" "virt_of 0 0 2 (Suc 0) = 0x401000" by (simp_all add: virt_of_def)
  have u: "has_flag (vmm_get_pte demo_space 0x2000 (virt_of i j k l)) PTE_USER \<longleftrightarrow> i = 0 \<and> j = 0 \<and> k = 2 \<and> l < 2"
    if "i < 512" "j < 512" "k < 512" "l < 512" for i j k l
    unfolding demo_leaf virt_of_index [OF that] by (auto simp: demo_entries has_flag_def PTE_USER_def less_2_cases_iff)
  have "v \<in> user_vas demo_space 0x2000 \<longleftrightarrow> (\<exists>l < 2. v = virt_of 0 0 2 l)" for v
  proof
    assume "v \<in> user_vas demo_space 0x2000"
    then obtain i j k l where x: "i < 256" "j < 512" "k < 512" "l < 512" "v = virt_of i j k l" "has_flag (vmm_get_pte demo_space 0x2000 v) PTE_USER"
      by (auto simp: user_vas_def)
    then show "\<exists>l < 2. v = virt_of 0 0 2 l" using u [of i j k l] by auto
  next
    assume "\<exists>l < 2. v = virt_of 0 0 2 l"
    then obtain l where l: "l < 2" "v = virt_of 0 0 2 l" by blast
    then have "has_flag (vmm_get_pte demo_space 0x2000 v) PTE_USER" using u [of 0 0 2 l] by simp
    moreover have "(0 :: nat) < 256 \<and> (0 :: nat) < 512 \<and> (2 :: nat) < 512 \<and> l < 512" using l by simp
    ultimately show "v \<in> user_vas demo_space 0x2000" unfolding user_vas_def using l(2) by blast
  qed
  then show ?thesis using v by (auto simp: less_2_cases_iff set_eq_iff)
qed

lemma demo_walk_ok: "walk_ok demo_env 0x2000 demo_space"
  using demo_private by (simp add: walk_ok_def demo_user_vas demo_env_def)

lemma demo_cow: "cow_wf demo_space" "g_cow_tracker_cache demo_space" "pl_pages demo_list = []" "pl_page_cap demo_list = 0"
proof -
  have "tracked demo_space = []" by (simp add: tracked_def demo_space_def)
  then show "cow_wf demo_space" by (simp add: cow_wf_def) (simp add: demo_space_def)
qed (simp_all add: demo_space_def demo_list_def)

lemma demo_pte: "vmm_get_pte demo_space 0x2000 0x400000 = 0x8007" "vmm_get_pte demo_space 0x2000 0x401000 = 0x9005"
  by (simp_all add: demo_leaf path3_def pml4_index_def pdpt_index_def pd_index_def pt_index_def demo_entries)

lemma snapshot_abort_restores_witness:
  "\<exists>te' s1. snap_walk_user_half demo_env 0x2000 0x2000 (demo_list, demo_space) = (0, te', s1)
    \<and> (let s4 = release_pages 0x2000 (pl_pages te') (restore_pages demo_env 0x2000 0 (pl_pages te') (user_run 0x2000 [(0x400000, 42)] s1))
       in vmm_get_pte s4 0x2000 0x400000 = 0x8007 \<and> page_refs s4 8 = Some 1 \<and> page_refs s4 10 = None)"
proof -
  from snapshot_abort_restores [OF demo_walk_ok demo_cow] obtain te' s1
    where w: "snap_walk_user_half demo_env 0x2000 0x2000 (demo_list, demo_space) = (0, te', s1)"
    and r: "\<And>xs skip. let s4 = release_pages 0x2000 (pl_pages te') (restore_pages demo_env 0x2000 skip (pl_pages te') (user_run 0x2000 xs s1)) in
        (\<forall>v. skip = 0 \<or> \<not> same_page skip v \<longrightarrow> vmm_get_pte s4 0x2000 v = vmm_get_pte demo_space 0x2000 v \<and> user_view s4 0x2000 v = user_view demo_space 0x2000 v)
        \<and> (skip = 0 \<longrightarrow> page_refs s4 = page_refs demo_space)"
    by blast
  from r [of 0 "[(0x400000, 42)]"] w show ?thesis by (simp add: Let_def demo_pte demo_refs)
qed


section \<open>Read-only pages\<close>

lemma capture_read_only:
  assumes P: "private_aspace cr3 s" and env: "env_slab env = (\<lambda>_. True)"
    and v: "v \<in> user_vas s cr3" "\<not> has_flag (vmm_get_pte s cr3 v) PTE_WRITABLE"
    and cap: "v = virt_of i j k l" "i < 256" "j < 512" "k < 512" "l < 512" "tabs s cr3 [i, j, k] = Some pt"
      "capture_leaf env cr3 cr3 v pt l (te, s) = (0, te', s1)"
  shows "s1 = pmm_page_ref (phys_at s cr3 v) (cow_page_tracker_bump True (phys_at s cr3 v) s)"
proof -
  let ?e = "vmm_get_pte s cr3 v" and ?p = "phys_at s cr3 v"
  note D = user_vasD [OF P v(1)] and UE = user_entry [OF P v(1)]
  have i5: "i < 512" using cap(2) by simp
  note V = virt_of_index [OF i5 cap(3-5)]
  have leaf: "?e = (if has_flag (frames s pt l) PTE_PRESENT then frames s pt l else 0)"
    unfolding get_pte_leaf leaf_def cap(1) V cap(6) option.case ..
  then have fr: "frames s pt l = ?e" "has_flag ?e PTE_PRESENT" using D(6) UE(3) by (auto simp: has_flag_def split: if_splits)
  have fl: "\<not> has_flag (flags_at s cr3 v) PTE_WRITABLE"
    using v(2) by (simp add: flags_at_def pte_flags_def writable_bit entry_bits)
  obtain rc te2 where r: "snap_record_page env v ?p (flags_at s cr3 v) te = (rc, te2)" by fastforce
  have nv: "\<not> v \<ge> 0xFFFF800000000000" unfolding cap(1) by (rule virt_low [OF i5 cap(3-5)])
  have "capture_leaf env cr3 cr3 v pt l (te, s) = (if rc < 0 then (rc, te2, s) else (0, te2, pmm_page_ref ?p (cow_page_tracker_bump True ?p s)))"
    using r fl env nv fr D(6)
    by (simp add: capture_leaf_def Let_def phys_at_def [symmetric] flags_at_def [symmetric] pte_phys_def [symmetric] pte_flags_def [symmetric])
  then show ?thesis using cap(7) by (simp split: if_splits)
qed

text \<open>Releasing a recorded page leaves an address that shows another frame alone.\<close>

lemma release_page_untouched:
  assumes s: "pmm_sized s" "cow_wf s" "g_cow_tracker_cache s" and p: "aligned (cp_phys c)" "cp_phys c \<noteq> 0"
    and o: "pte_phys (vmm_get_pte s cr3 (cp_virt c)) \<noteq> cp_phys c"
  shows "vmm_get_pte (release_page cr3 c s) cr3 u = vmm_get_pte s cr3 u"
proof (rule get_pte_same_frames)
  have "release_page cr3 c s = pmm_page_unref (cp_phys c) (cow_page_tracker_put (cp_phys c) s)"
    using o by (auto simp: release_page_def Let_def pte_phys_def)
  moreover from tracker_put_spec(1) [OF s(2,3) p] obtain b n where
    t: "cow_page_tracker_put (cp_phys c) s = s\<lparr>g_cow_buckets := b, g_cow_tracker_count := n\<rparr>" by blast
  ultimately show "frames (release_page cr3 c s) = frames s"
    using free_page_spec [OF _ p(2) refl, of "s\<lparr>g_cow_buckets := b, g_cow_tracker_count := n\<rparr>"] s(1)
      more_mm [of "release_page cr3 c s" "s\<lparr>g_cow_buckets := b, g_cow_tracker_count := n\<rparr>"]
    by (simp add: pmm_page_unref_def)
qed

text \<open>
  C31: The capture also tracks pages the program may not write, and the fault handler gives write
  permission to every tracked page. A store to a read-only user page is refused before the capture;
  once the page is captured the same store succeeds when a page can be allocated, and the page stays
  writable after the snapshot has been released.
\<close>

theorem capture_loses_read_only:
  assumes P: "private_aspace cr3 s" and c: "cow_wf s" "g_cow_tracker_cache s" and env: "env_slab env = (\<lambda>_. True)"
    and v: "v \<in> user_vas s cr3" "\<not> has_flag (vmm_get_pte s cr3 v) PTE_WRITABLE" and no: "tracker_refs s (phys_at s cr3 v) = None"
    and cap: "v = virt_of i j k l" "i < 256" "j < 512" "k < 512" "l < 512" "tabs s cr3 [i, j, k] = Some pt"
      "capture_leaf env cr3 cr3 v pt l (te, s) = (0, te', s1)"
    and mem: "g_cow_tracker_count s1 \<noteq> 0" "fst (pmm_alloc_page s1) \<noteq> NULL"
  shows "user_store cr3 (v, w) s = (False, s)
    \<and> (\<exists>s2. user_store cr3 (v, w) s1 = (True, s2) \<and> has_flag (vmm_get_pte (release_page cr3 (captured s cr3 v) s2) cr3 v) PTE_WRITABLE)"
proof -
  let ?e = "vmm_get_pte s cr3 v" and ?p = "phys_at s cr3 v"
  note D = user_vasD [OF P v(1)] and UE = user_entry [OF P v(1)]
  have fl: "\<not> has_flag (flags_at s cr3 v) PTE_WRITABLE"
    using v(2) by (simp add: flags_at_def pte_flags_def writable_bit entry_bits)
  have s1: "s1 = pmm_page_ref ?p (cow_page_tracker_bump True ?p s)" by (rule capture_read_only [OF P env v cap])
  have m: "snap_mem cr3 s {v} (\<lambda>_. None) s1"
    using capture_step [OF P snap_mem_init [OF P c] v(1) _ _ s1] fl by simp
  note E = entry_at_facts [OF P m v(1)] and M = snap_memD [OF m]
  have e1: "vmm_get_pte s1 cr3 v = entry_at s cr3 {v} (\<lambda>_. None) v" by (rule M(6) [OF v(1)])
  from D(4) obtain n where n: "page_refs s (frame_no ?p) = Some n" "0 < n" by blast
  then have n: "refs_at s cr3 {v} (\<lambda>_. None) v = Some (n + 1)" "0 < n" by (simp_all add: refs_at_def)
  have sm: "total_pages s1 \<le> 2 ^ 40" using P M(3) by (simp add: private_aspace_def)
  have ph: "pte_phys (vmm_get_pte s1 cr3 v) = ?p" using E(1) e1 by simp
  have x: "tracker_refs s1 ?p \<noteq> None" "live_frame s1 ?p" "\<not> table_frame s1 cr3 ?p" "page_refs s1 (frame_no ?p) = Some (n + 1)" "2 \<le> n + 1"
    using m live_held [OF P m v(1)] n D(2) M(7) [OF v(1)] M(8) by (simp_all add: snap_mem_def held_ok_def)
  obtain pg s1' where al: "pmm_alloc_page s1 = (pg, s1')" "pg \<noteq> NULL" using mem(2) by (cases "pmm_alloc_page s1") simp
  have "(7 :: u64) AND 2 \<noteq> 0" "(7 :: u64) AND 1 \<noteq> 0" by simp_all
  then obtain s' a where f: "cow_fault_handle (Some cr3) v 7 s1 = (0, s')" "cow_effect cr3 v a s1 s'"
    using cow_fault_effect [OF M(1) sm _ _ refl _ _ _ _ _ _ _ _ al, of 7 v "n + 1"] e1 E(2,4) E(6) x ph by (metis singletonI)
  have d: "snap_cow_pf_dispatch (Some cr3) v 7 s1 = (0, s')" using f(1) mem(1) by (simp add: snap_cow_pf_dispatch_def)
  let ?pte = "page_addr a OR (pte_flags (vmm_get_pte s1 cr3 v) OR PTE_WRITABLE)"
  have X: "vmm_get_pte s' cr3 v = ?pte" "tables_wf s' cr3" "mm_state.more s' = mm_state.more s1" "a < total_pages s1" "page_refs s1 a = None"
    "\<And>x. ok_path x \<Longrightarrow> tabs s' cr3 x = tabs s1 cr3 x"
    using f(2) by (simp_all add: cow_effect_def Let_def same_page_def)
  have pa: "pte_phys ?pte = page_addr a"
    using entry_phys(3) page_addr_bits [OF M(2) sm X(4)] by (simp add: pte_phys_def pte_flags_def and.assoc)
  have fl2: "has_flag ?pte PTE_USER" "has_flag ?pte PTE_WRITABLE"
    using E(2) e1 by (simp_all add: user_bit writable_bit entry_bits pte_flags_def)
  define s2 where "s2 = put_word (page_addr a) (unat (drop_bit 3 (v AND 0xFFF))) w s'"
  have "store_now cr3 v w s1 = (False, s1)" using E(6) e1 by (simp add: store_now_def)
  moreover have "store_now cr3 v w s' = (True, s2)" using fl2 pa by (simp add: store_now_def X(1) s2_def pte_phys_def)
  ultimately have st: "user_store cr3 (v, w) s1 = (True, s2)" using d e1 E(4) by (simp add: user_store_def)
  have na: "\<not> live_frame s1 (page_addr a)" by (rule not_live_free [OF M(2) X(4,5)])
  then have "\<not> table_frame s' cr3 (page_addr a)" using tables_live [OF M(1)] X(6) by (auto simp: table_frame_def)
  then have "tables_eq cr3 s' s2" by (intro tables_eq_other [of _ _ "page_addr a"]) (simp_all add: s2_def put_word_def)
  then have e2: "vmm_get_pte s2 cr3 v = ?pte" using X(1) by (simp add: tables_eqD(1))
  have o: "mm_state.more s2 = mm_state.more s1" using X(3) by (simp add: s2_def put_word_def)
  have "vmm_get_pte (release_page cr3 (captured s cr3 v) s2) cr3 v = ?pte"
    unfolding e2 [symmetric]
  proof (rule release_page_untouched)
    show "cow_wf s2" "g_cow_tracker_cache s2" using same_more_cow [OF o] tracker_same_more [OF o] M(4,5) by simp_all
    show "pte_phys (vmm_get_pte s2 cr3 (cp_virt (captured s cr3 v))) \<noteq> cp_phys (captured s cr3 v)"
      using na x(2) pa e2 by (auto simp: captured_def)
  qed (use X(2) UE(5,6) in \<open>simp_all add: s2_def tables_wf_def captured_def\<close>)
  then have "has_flag (vmm_get_pte (release_page cr3 (captured s cr3 v) s2) cr3 v) PTE_WRITABLE" using fl2(2) by simp
  moreover have "user_store cr3 (v, w) s = (False, s)"
  proof -
    have "store_now cr3 v w s = (False, s)" using v(2) by (simp add: store_now_def)
    moreover have "snap_cow_pf_dispatch (Some cr3) v 7 s = (rc, s'') \<Longrightarrow> rc \<noteq> 0 \<and> s'' = s" for rc s''
      using no get_pte_same_page [OF page_va_same, of s cr3 v]
      by (auto simp: snap_cow_pf_dispatch_def cow_fault_handle_def Let_def tracker_refs_def phys_at_def pte_phys_def split: if_splits)
    ultimately show ?thesis by (auto simp: user_store_def split: prod.split)
  qed
  ultimately show ?thesis using st by blast
qed

lemma capture_loses_read_only_witness:
  "\<exists>te' s1 s2. capture_leaf demo_env 0x2000 0x2000 0x401000 0x5000 1 (demo_list, demo_space) = (0, te', s1)
    \<and> fst (user_store 0x2000 (0x401000, 42) demo_space) = False \<and> user_store 0x2000 (0x401000, 42) s1 = (True, s2)
    \<and> has_flag (vmm_get_pte (release_page 0x2000 (captured demo_space 0x2000 0x401000) s2) 0x2000 0x401000) PTE_WRITABLE"
proof -
  let ?c = "capture_leaf demo_env 0x2000 0x2000 0x401000 0x5000 1 (demo_list, demo_space)"
  have "fst ?c = 0" by code_simp
  then obtain te' s1 where c: "?c = (0, te', s1)" by (metis prod.collapse)
  have v: "(0x401000 :: u64) = virt_of 0 0 2 1" by (simp add: virt_of_def)
  have t: "tabs demo_space 0x2000 [0, 0, 2] = Some 0x5000"
    by (simp add: demo_space_def demo_frames_def has_flag_def PTE_PRESENT_def PAGE_MASK_def)
  have u: "0x401000 \<in> user_vas demo_space 0x2000" "\<not> has_flag (vmm_get_pte demo_space 0x2000 0x401000) PTE_WRITABLE"
    by (simp_all add: demo_user_vas demo_pte has_flag_def PTE_WRITABLE_def)
  have n: "tracker_refs demo_space (phys_at demo_space 0x2000 0x401000) = None"
    by (simp add: tracker_refs_def cow_lookup_locked_def demo_space_def)
  have e: "env_slab demo_env = (\<lambda>_. True)" by (simp add: demo_env_def)
  have ph: "phys_at demo_space 0x2000 0x401000 = 0x9000" by (simp add: phys_at_def demo_pte pte_phys_def PHYS_ADDR_MASK_def)
  have "s1 = pmm_page_ref 0x9000 (cow_page_tracker_bump True 0x9000 demo_space)"
    using capture_read_only [OF demo_private e u v _ _ _ _ t c] by (simp add: ph)
  moreover have "g_cow_tracker_count (pmm_page_ref 0x9000 (cow_page_tracker_bump True 0x9000 demo_space)) \<noteq> 0" by code_simp
  moreover have "fst (pmm_alloc_page (pmm_page_ref 0x9000 (cow_page_tracker_bump True 0x9000 demo_space))) \<noteq> NULL" by code_simp
  ultimately show ?thesis
    using capture_loses_read_only [OF demo_private demo_cow(1,2) e u n v _ _ _ _ t c, of 42] c by auto
qed

end
