(* ===== verification/Runq.thy ===== *)
theory Runq
  imports Linked_Lists "HOL-Library.Multiset"
begin

text \<open>
  Run queues (arch/x86_64/cpu/sched/runq.c, work_steal.c and \<^verbatim>\<open>sched_enqueue_ready\<close> of sched.c).
  Every processor has a doubly linked list of ready tasks and a singly linked list of starved ones;
  an idle processor steals from the tail of the longest list of another one. The task fields the
  queues use are functions from task pointers, and a run queue is named by the number of its
  processor. The theory shows that the pointer operations implement queues of tasks, and that
  stealing moves tasks without losing, duplicating or reordering them.
\<close>

section \<open>Model\<close>

datatype task_state = TASK_STATE_ZOMBIE | TASK_STATE_READY | TASK_STATE_RUNNING | TASK_STATE_BLOCKED
  | TASK_STATE_CHAN_WAIT | TASK_STATE_STARVED | TASK_STATE_BARRIER_WAIT

definition RUNQ_MAGIC :: u32 where "RUNQ_MAGIC = 0xCAFE2010"
definition RUNQ_EPOCH_NEVER :: u64 where "RUNQ_EPOCH_NEVER = - 1"

abbreviation WORK_STEAL_MAX_ATTEMPTS :: nat where "WORK_STEAL_MAX_ATTEMPTS \<equiv> 4"

record runq =
  rq_magic :: u32
  rq_cpu_id :: u32
  ready_head :: ptr
  ready_tail :: ptr
  ready_count :: u32
  starved_head :: ptr
  rq_current :: ptr
  steal_successes :: u64
  steal_failures :: u64
  context_switches :: u64
  last_epoch_tick_ticks :: u64
  idle_task :: ptr

record runq_state =
  tstate :: "ptr \<Rightarrow> task_state"
  runq_next :: "ptr \<Rightarrow> ptr"
  runq_prev :: "ptr \<Rightarrow> ptr"
  cpu_pinned :: "ptr \<Rightarrow> int"
  last_ran_cpu :: "ptr \<Rightarrow> u32"
  runqs :: "nat \<Rightarrow> runq"
  g_cpu_count :: nat

definition upd_rq :: "nat \<Rightarrow> (runq \<Rightarrow> runq) \<Rightarrow> 'a runq_state_scheme \<Rightarrow> 'a runq_state_scheme" where
  "upd_rq c f s = s\<lparr>runqs := (runqs s)(c := f (runqs s c))\<rparr>"

definition set_next :: "ptr \<Rightarrow> ptr \<Rightarrow> 'a runq_state_scheme \<Rightarrow> 'a runq_state_scheme" where
  "set_next t p s = s\<lparr>runq_next := (runq_next s)(t := p)\<rparr>"

definition set_prev :: "ptr \<Rightarrow> ptr \<Rightarrow> 'a runq_state_scheme \<Rightarrow> 'a runq_state_scheme" where
  "set_prev t p s = s\<lparr>runq_prev := (runq_prev s)(t := p)\<rparr>"

definition set_state :: "ptr \<Rightarrow> task_state \<Rightarrow> 'a runq_state_scheme \<Rightarrow> 'a runq_state_scheme" where
  "set_state t x s = s\<lparr>tstate := (tstate s)(t := x)\<rparr>"

definition runq_init :: "nat \<Rightarrow> u32 \<Rightarrow> 'a runq_state_scheme \<Rightarrow> 'a runq_state_scheme" where
  "runq_init c cpu_id s = upd_rq c (\<lambda>_. \<lparr>rq_magic = RUNQ_MAGIC, rq_cpu_id = cpu_id, ready_head = NULL, ready_tail = NULL,
    ready_count = 0, starved_head = NULL, rq_current = NULL, steal_successes = 0, steal_failures = 0,
    context_switches = 0, last_epoch_tick_ticks = RUNQ_EPOCH_NEVER, idle_task = NULL\<rparr>) s"

definition runq_enqueue_ready :: "nat \<Rightarrow> ptr \<Rightarrow> 'a runq_state_scheme \<Rightarrow> 'a runq_state_scheme" where
  "runq_enqueue_ready c t s =
    (if t = NULL then s
     else
      let s = set_next t NULL s;
          s = set_prev t (ready_tail (runqs s c)) s;
          s = (if ready_tail (runqs s c) \<noteq> NULL then set_next (ready_tail (runqs s c)) t s
               else upd_rq c (\<lambda>q. q\<lparr>ready_head := t\<rparr>) s);
          s = upd_rq c (\<lambda>q. q\<lparr>ready_tail := t\<rparr>) s;
          s = upd_rq c (\<lambda>q. q\<lparr>ready_count := ready_count q + 1\<rparr>) s
      in set_state t TASK_STATE_READY s)"

definition runq_dequeue_ready :: "nat \<Rightarrow> 'a runq_state_scheme \<Rightarrow> ptr \<times> 'a runq_state_scheme" where
  "runq_dequeue_ready c s =
    (if ready_head (runqs s c) = NULL then (NULL, s)
     else
      let t = ready_head (runqs s c);
          s = upd_rq c (\<lambda>q. q\<lparr>ready_head := runq_next s t\<rparr>) s;
          s = (if ready_head (runqs s c) \<noteq> NULL then set_prev (ready_head (runqs s c)) NULL s
               else upd_rq c (\<lambda>q. q\<lparr>ready_tail := NULL\<rparr>) s);
          s = set_prev t NULL (set_next t NULL s);
          s = (if ready_count (runqs s c) > 0 then upd_rq c (\<lambda>q. q\<lparr>ready_count := ready_count q - 1\<rparr>) s else s)
      in (t, s))"

text \<open>Taking a task out of the ready list, common to the two functions that follow.\<close>

definition ready_unlink :: "nat \<Rightarrow> ptr \<Rightarrow> 'a runq_state_scheme \<Rightarrow> 'a runq_state_scheme" where
  "ready_unlink c t s =
    (let s = (if runq_prev s t \<noteq> NULL then set_next (runq_prev s t) (runq_next s t) s
              else if ready_head (runqs s c) = t then upd_rq c (\<lambda>q. q\<lparr>ready_head := runq_next s t\<rparr>) s else s)
     in if runq_next s t \<noteq> NULL then set_prev (runq_next s t) (runq_prev s t) s
        else if ready_tail (runqs s c) = t then upd_rq c (\<lambda>q. q\<lparr>ready_tail := runq_prev s t\<rparr>) s else s)"

definition runq_remove :: "nat \<Rightarrow> ptr \<Rightarrow> 'a runq_state_scheme \<Rightarrow> 'a runq_state_scheme option" where
  "runq_remove c t s =
    (if t = NULL then Some s
     else
      let s = ready_unlink c t s;
          r = (if starved_head (runqs s c) = t then Some (upd_rq c (\<lambda>q. q\<lparr>starved_head := runq_next s t\<rparr>) s)
               else case find_next (runq_next s) (\<lambda>p. runq_next s p = t) (starved_head (runqs s c)) of
                 None \<Rightarrow> None
               | Some p \<Rightarrow> Some (if p \<noteq> NULL then set_next p (runq_next s t) s else s))
      in map_option (\<lambda>s. set_prev t NULL (set_next t NULL s)) r)"

definition runq_push_starved :: "nat \<Rightarrow> ptr \<Rightarrow> 'a runq_state_scheme \<Rightarrow> 'a runq_state_scheme" where
  "runq_push_starved c t s =
    (if t = NULL then s
     else
      let s = set_prev t NULL s;
          s = set_next t (starved_head (runqs s c)) s;
          s = upd_rq c (\<lambda>q. q\<lparr>starved_head := t\<rparr>) s
      in set_state t TASK_STATE_STARVED s)"

definition runq_move_to_starved :: "nat \<Rightarrow> ptr \<Rightarrow> 'a runq_state_scheme \<Rightarrow> 'a runq_state_scheme" where
  "runq_move_to_starved c t s =
    (if t = NULL then s
     else
      let s = ready_unlink c t s;
          s = (if ready_count (runqs s c) > 0 then upd_rq c (\<lambda>q. q\<lparr>ready_count := ready_count q - 1\<rparr>) s else s)
      in runq_push_starved c t s)"

partial_function (option) refill_loop :: "nat \<Rightarrow> ptr \<Rightarrow> u32 \<Rightarrow> 'a runq_state_scheme \<Rightarrow> (u32 \<times> 'a runq_state_scheme) option" where
  "refill_loop c p n s =
    (if p = NULL then Some (n, s)
     else
      let nx = runq_next s p;
          s = set_next p NULL (set_prev p NULL s)
      in refill_loop c nx (n + 1) (runq_enqueue_ready c p s))"

declare refill_loop.simps [code]

definition runq_refill_starved :: "nat \<Rightarrow> 'a runq_state_scheme \<Rightarrow> (u32 \<times> 'a runq_state_scheme) option" where
  "runq_refill_starved c s =
    (if starved_head (runqs s c) = NULL then Some (0, s)
     else refill_loop c (starved_head (runqs s c)) 0 (upd_rq c (\<lambda>q. q\<lparr>starved_head := NULL\<rparr>) s))"

definition sched_target_cpu :: "'a runq_state_scheme \<Rightarrow> ptr \<Rightarrow> nat" where
  "sched_target_cpu s t =
    (if cpu_pinned s t \<ge> 0 \<and> nat (cpu_pinned s t) < g_cpu_count s then nat (cpu_pinned s t)
     else if last_ran_cpu s t \<noteq> 0xFFFFFFFF \<and> unat (last_ran_cpu s t) < g_cpu_count s then unat (last_ran_cpu s t)
     else 0)"

definition sched_enqueue_ready :: "ptr \<Rightarrow> 'a runq_state_scheme \<Rightarrow> 'a runq_state_scheme" where
  "sched_enqueue_ready t s = (if t = NULL then s else runq_enqueue_ready (sched_target_cpu s t) t s)"

section \<open>Work stealing\<close>

fun busiest_from :: "nat \<Rightarrow> 'a runq_state_scheme \<Rightarrow> nat list \<Rightarrow> u32 \<Rightarrow> nat option \<Rightarrow> nat option" where
  "busiest_from thief s [] best_count best_cpu = best_cpu"
| "busiest_from thief s (i # is) best_count best_cpu =
    (if i = thief then busiest_from thief s is best_count best_cpu
     else if ready_count (runqs s i) > best_count then busiest_from thief s is (ready_count (runqs s i)) (Some i)
     else busiest_from thief s is best_count best_cpu)"

definition pick_busiest :: "nat \<Rightarrow> 'a runq_state_scheme \<Rightarrow> nat option" where
  "pick_busiest thief s = busiest_from thief s [0..<g_cpu_count s] 1 None"

definition stealable :: "nat \<Rightarrow> 'a runq_state_scheme \<Rightarrow> ptr \<Rightarrow> bool" where
  "stealable thief s t \<longleftrightarrow> cpu_pinned s t < 0 \<or> cpu_pinned s t = sint (rq_cpu_id (runqs s thief))"

text \<open>Moving one task from the list of the victim to the front of the list of the thief.\<close>

definition victim_unlink :: "nat \<Rightarrow> ptr \<Rightarrow> 'a runq_state_scheme \<Rightarrow> 'a runq_state_scheme" where
  "victim_unlink victim cursor s =
    (let nx = runq_next s cursor;
         s = (if runq_prev s cursor \<noteq> NULL then set_next (runq_prev s cursor) nx s
              else upd_rq victim (\<lambda>q. q\<lparr>ready_head := nx\<rparr>) s);
         s = (if nx \<noteq> NULL then set_prev nx (runq_prev s cursor) s
              else upd_rq victim (\<lambda>q. q\<lparr>ready_tail := runq_prev s cursor\<rparr>) s)
     in if ready_count (runqs s victim) > 0 then upd_rq victim (\<lambda>q. q\<lparr>ready_count := ready_count q - 1\<rparr>) s else s)"

definition thief_push :: "nat \<Rightarrow> ptr \<Rightarrow> 'a runq_state_scheme \<Rightarrow> 'a runq_state_scheme" where
  "thief_push thief cursor s =
    (let s = set_prev cursor NULL s;
         s = set_next cursor (ready_head (runqs s thief)) s;
         s = (if ready_head (runqs s thief) \<noteq> NULL then set_prev (ready_head (runqs s thief)) cursor s
              else upd_rq thief (\<lambda>q. q\<lparr>ready_tail := cursor\<rparr>) s);
         s = upd_rq thief (\<lambda>q. q\<lparr>ready_head := cursor\<rparr>) s
     in upd_rq thief (\<lambda>q. q\<lparr>ready_count := ready_count q + 1\<rparr>) s)"

partial_function (option) splice_loop ::
  "nat \<Rightarrow> nat \<Rightarrow> u32 \<Rightarrow> u32 \<Rightarrow> ptr \<Rightarrow> 'a runq_state_scheme \<Rightarrow> (u32 \<times> 'a runq_state_scheme) option" where
  "splice_loop victim thief n stolen cursor s =
    (if cursor = NULL \<or> \<not> stolen < n then Some (stolen, s)
     else
      let pv = runq_prev s cursor
      in if \<not> stealable thief s cursor then splice_loop victim thief n stolen pv s
         else splice_loop victim thief n (stolen + 1) pv (thief_push thief cursor (victim_unlink victim cursor s)))"

declare splice_loop.simps [code]

definition splice_tail_to_thief :: "nat \<Rightarrow> nat \<Rightarrow> u32 \<Rightarrow> 'a runq_state_scheme \<Rightarrow> (u32 \<times> 'a runq_state_scheme) option" where
  "splice_tail_to_thief victim thief n s =
    (if n = 0 \<or> ready_count (runqs s victim) = 0 then Some (0, s)
     else splice_loop victim thief n 0 (ready_tail (runqs s victim)) s)"

text \<open>
  The attempts of \<^verbatim>\<open>sched_steal_from_busiest\<close>. The list gives what each trylock answers; a shorter
  list counts as locks that are free.
\<close>

fun steal_attempts :: "nat \<Rightarrow> nat \<Rightarrow> bool list \<Rightarrow> 'a runq_state_scheme \<Rightarrow> (u32 \<times> 'a runq_state_scheme) option" where
  "steal_attempts 0 thief locks s = Some (0, s)"
| "steal_attempts (Suc k) thief locks s =
    (case pick_busiest thief s of
      None \<Rightarrow> Some (0, s)
    | Some victim \<Rightarrow>
       if locks \<noteq> [] \<and> \<not> hd locks
       then steal_attempts k thief (tl locks) (upd_rq thief (\<lambda>q. q\<lparr>steal_failures := steal_failures q + 1\<rparr>) s)
       else if ready_count (runqs s victim) \<le> 1 then steal_attempts k thief (tl locks) s
       else
        let n = ready_count (runqs s victim) div 2; n = (if n = 0 then 1 else n) in
        case splice_tail_to_thief victim thief n s of
          None \<Rightarrow> None
        | Some (stolen, s) \<Rightarrow>
           if stolen > 0 then Some (stolen, upd_rq thief (\<lambda>q. q\<lparr>steal_successes := steal_successes q + 1\<rparr>) s)
           else steal_attempts k thief (tl locks) (upd_rq thief (\<lambda>q. q\<lparr>steal_failures := steal_failures q + 1\<rparr>) s))"

definition sched_steal_from_busiest :: "nat \<Rightarrow> bool list \<Rightarrow> 'a runq_state_scheme \<Rightarrow> (u32 \<times> 'a runq_state_scheme) option" where
  "sched_steal_from_busiest thief locks s = steal_attempts WORK_STEAL_MAX_ATTEMPTS thief locks s"

section \<open>Queues of tasks\<close>

text \<open>\<open>xs\<close> are the ready tasks of processor \<open>c\<close> in order, \<open>ys\<close> its starved tasks.\<close>

definition rq_ok :: "'a runq_state_scheme \<Rightarrow> nat \<Rightarrow> ptr list \<Rightarrow> ptr list \<Rightarrow> bool" where
  "rq_ok s c xs ys \<longleftrightarrow> dseg (runq_next s) (runq_prev s) NULL xs NULL \<and> ready_head (runqs s c) = hd0 xs NULL
    \<and> ready_tail (runqs s c) = last0 NULL xs \<and> ready_count (runqs s c) = of_nat (length xs) \<and> length xs < 2 ^ 32
    \<and> sseg (runq_next s) ys NULL \<and> starved_head (runqs s c) = hd0 ys NULL \<and> distinct (xs @ ys)"

definition on_cpu :: "(nat \<Rightarrow> ptr list) \<Rightarrow> (nat \<Rightarrow> ptr list) \<Rightarrow> nat \<Rightarrow> ptr set" where
  "on_cpu Q S c = set (Q c) \<union> set (S c)"

definition queued :: "nat \<Rightarrow> (nat \<Rightarrow> ptr list) \<Rightarrow> (nat \<Rightarrow> ptr list) \<Rightarrow> ptr set" where
  "queued n Q S = (\<Union>c < n. on_cpu Q S c)"

definition queues_ok :: "'a runq_state_scheme \<Rightarrow> (nat \<Rightarrow> ptr list) \<Rightarrow> (nat \<Rightarrow> ptr list) \<Rightarrow> bool" where
  "queues_ok s Q S \<longleftrightarrow> (\<forall>c < g_cpu_count s. rq_ok s c (Q c) (S c))
    \<and> (\<forall>c < g_cpu_count s. \<forall>d < g_cpu_count s. c \<noteq> d \<longrightarrow> on_cpu Q S c \<inter> on_cpu Q S d = {})"

lemmas runq_sets = upd_rq_def set_next_def set_prev_def set_state_def

lemma queues_okD:
  assumes "queues_ok s Q S" "c < g_cpu_count s"
  shows "rq_ok s c (Q c) (S c)" "d < g_cpu_count s \<Longrightarrow> d \<noteq> c \<Longrightarrow> on_cpu Q S d \<inter> on_cpu Q S c = {}"
  using assms unfolding queues_ok_def by blast+

lemma rq_ok_frame:
  assumes "rq_ok s c xs ys" "runqs s' c = runqs s c"
    and "\<And>p. p \<in> set xs \<union> set ys \<Longrightarrow> runq_next s' p = runq_next s p \<and> runq_prev s' p = runq_prev s p"
  shows "rq_ok s' c xs ys"
proof -
  have "dseg (runq_next s') (runq_prev s') NULL xs NULL = dseg (runq_next s) (runq_prev s) NULL xs NULL"
    by (rule dseg_cong) (use assms(3) in blast)
  moreover have "sseg (runq_next s') ys NULL = sseg (runq_next s) ys NULL"
    by (rule sseg_cong) (use assms(3) in blast)
  ultimately show ?thesis using assms(1,2) by (simp add: rq_ok_def)
qed

lemma rq_nonnull: "rq_ok s c xs ys \<Longrightarrow> NULL \<notin> set xs \<union> set ys"
  using dseg_nonnull sseg_nonnull unfolding rq_ok_def by blast

lemma rq_empty: "rq_ok s c xs ys \<Longrightarrow> (ready_head (runqs s c) = NULL \<longleftrightarrow> xs = []) \<and> (ready_tail (runqs s c) = NULL \<longleftrightarrow> xs = [])
    \<and> (starved_head (runqs s c) = NULL \<longleftrightarrow> ys = [])"
  using rq_nonnull [of s c xs ys] hd0_in [of xs NULL] last0_in [of xs NULL] hd0_in [of ys NULL]
  unfolding rq_ok_def by (cases "xs = []"; cases "ys = []") auto

text \<open>A step on the queue of one processor; \<open>N\<close> are the tasks it may bring in.\<close>

lemma queues_step:
  assumes q: "queues_ok s Q S" "c < g_cpu_count s" and n: "g_cpu_count s' = g_cpu_count s"
    and r: "rq_ok s' c xs ys" "set xs \<union> set ys \<subseteq> on_cpu Q S c \<union> N"
    and o: "\<And>d. d \<noteq> c \<Longrightarrow> runqs s' d = runqs s d"
    and p: "\<And>p. p \<notin> on_cpu Q S c \<union> N \<Longrightarrow> runq_next s' p = runq_next s p \<and> runq_prev s' p = runq_prev s p"
    and N: "\<And>d. d < g_cpu_count s \<Longrightarrow> d \<noteq> c \<Longrightarrow> N \<inter> on_cpu Q S d = {}"
  shows "queues_ok s' (Q(c := xs)) (S(c := ys))"
proof -
  let ?Q = "Q(c := xs)" and ?S = "S(c := ys)"
  have oc: "on_cpu ?Q ?S d = (if d = c then set xs \<union> set ys else on_cpu Q S d)" for d by (simp add: on_cpu_def)
  have dis: "on_cpu Q S d \<inter> (on_cpu Q S c \<union> N) = {}" if "d < g_cpu_count s" "d \<noteq> c" for d
    using queues_okD(2) [OF q that] N [OF that] by blast
  have "rq_ok s' d (?Q d) (?S d)" if d: "d < g_cpu_count s" for d
  proof (cases "d = c")
    case False
    have "rq_ok s' d (Q d) (S d)"
      by (rule rq_ok_frame [OF queues_okD(1) [OF q(1) d] o [OF False]]) (use p dis [OF d False] in \<open>auto simp: on_cpu_def\<close>)
    with False show ?thesis by simp
  qed (use r(1) in simp)
  moreover have "on_cpu ?Q ?S a \<inter> on_cpu ?Q ?S b = {}" if "a < g_cpu_count s" "b < g_cpu_count s" "a \<noteq> b" for a b
    using that dis [of a] dis [of b] r(2) queues_okD(2) [OF q(1), of b a] unfolding oc by (cases "a = c"; cases "b = c"; simp; blast)
  ultimately show ?thesis unfolding queues_ok_def n by blast
qed

lemma enqueue_eqs:
  assumes "t \<noteq> NULL"
  shows "runq_next (runq_enqueue_ready c t s) =
      (if ready_tail (runqs s c) \<noteq> NULL then (runq_next s)(t := NULL, ready_tail (runqs s c) := t) else (runq_next s)(t := NULL))"
    "runq_prev (runq_enqueue_ready c t s) = (runq_prev s)(t := ready_tail (runqs s c))"
    "runqs (runq_enqueue_ready c t s) = (runqs s)(c := (if ready_tail (runqs s c) \<noteq> NULL then runqs s c
      else (runqs s c)\<lparr>ready_head := t\<rparr>)\<lparr>ready_tail := t, ready_count := ready_count (runqs s c) + 1\<rparr>)"
  using assms by (simp_all add: runq_enqueue_ready_def Let_def runq_sets)

lemma enqueue_rq_ok:
  assumes r: "rq_ok s c xs ys" and t: "t \<noteq> NULL" "t \<notin> set xs \<union> set ys" "Suc (length xs) < 2 ^ 32"
  shows "rq_ok (runq_enqueue_ready c t s) c (xs @ [t]) ys"
    "p \<notin> set xs \<union> {t} \<Longrightarrow> runq_next (runq_enqueue_ready c t s) p = runq_next s p \<and> runq_prev (runq_enqueue_ready c t s) p = runq_prev s p"
    "d \<noteq> c \<Longrightarrow> runqs (runq_enqueue_ready c t s) d = runqs s d"
proof -
  let ?s = "runq_enqueue_ready c t s"
  from r have d: "dseg (runq_next s) (runq_prev s) NULL xs NULL" "distinct (xs @ ys)" "ready_tail (runqs s c) = last0 NULL xs"
    and y: "sseg (runq_next s) ys NULL" by (simp_all add: rq_ok_def)
  have z: "last0 NULL xs = NULL \<longleftrightarrow> xs = []" using rq_empty [OF r] d(3) by simp
  have nx: "runq_next ?s = (if xs = [] then (runq_next s)(t := NULL) else (runq_next s)(t := NULL, last xs := t))"
    and pv: "runq_prev ?s = (runq_prev s)(t := last0 NULL xs)"
    using z d(3) enqueue_eqs [OF t(1), of c s] by (simp_all add: last0_def)
  have "dseg (runq_next ?s) (runq_prev ?s) NULL (xs @ [t]) NULL"
    by (rule dseg_snoc [OF d(1) _ t(1) nx pv]) (use d(2) t(2) in auto)
  moreover have "sseg (runq_next ?s) ys NULL"
  proof (subst sseg_cong [of ys _ "runq_next s"])
    fix x
    assume x: "x \<in> set ys"
    have 1: "x \<noteq> t" using x t(2) by blast
    have 2: "xs \<noteq> [] \<Longrightarrow> x \<noteq> last xs" using x d(2) by (metis last_in_set disjoint_iff distinct_append)
    show "runq_next ?s x = runq_next s x" unfolding nx using 1 2 by simp
  qed (rule y)
  moreover have "ready_head (runqs ?s c) = hd0 (xs @ [t]) NULL" "ready_tail (runqs ?s c) = t" "starved_head (runqs ?s c) = hd0 ys NULL"
    "ready_count (runqs ?s c) = of_nat (Suc (length xs))"
    using r z enqueue_eqs(3) [OF t(1), of c s] by (simp_all add: rq_ok_def hd0_def)
  ultimately show "rq_ok ?s c (xs @ [t]) ys" using d(2) t(2,3) by (simp add: rq_ok_def)
  show "p \<notin> set xs \<union> {t} \<Longrightarrow> runq_next ?s p = runq_next s p \<and> runq_prev ?s p = runq_prev s p"
    unfolding nx pv using last_in_set [of xs] by (cases "xs = []") auto
  show "d \<noteq> c \<Longrightarrow> runqs ?s d = runqs s d"
    using enqueue_eqs(3) [OF t(1), of c s] by simp
qed

lemma runq_fields [simp]:
  "g_cpu_count (runq_enqueue_ready c t s) = g_cpu_count s" "cpu_pinned (runq_enqueue_ready c t s) = cpu_pinned s"
  "last_ran_cpu (runq_enqueue_ready c t s) = last_ran_cpu s" "runq_state.more (runq_enqueue_ready c t s) = runq_state.more s"
  "t \<noteq> NULL \<Longrightarrow> tstate (runq_enqueue_ready c t s) = (tstate s)(t := TASK_STATE_READY)"
  "rq_current (runqs (runq_enqueue_ready c t s) d) = rq_current (runqs s d)"
  "idle_task (runqs (runq_enqueue_ready c t s) d) = idle_task (runqs s d)"
  "rq_cpu_id (runqs (runq_enqueue_ready c t s) d) = rq_cpu_id (runqs s d)"
  by (simp_all add: runq_enqueue_ready_def Let_def runq_sets)

lemma enqueue_queues:
  assumes q: "queues_ok s Q S" "c < g_cpu_count s" and t: "t \<noteq> NULL" "t \<notin> queued (g_cpu_count s) Q S" "Suc (length (Q c)) < 2 ^ 32"
  shows "queues_ok (runq_enqueue_ready c t s) (Q(c := Q c @ [t])) S"
proof -
  have tn: "t \<notin> on_cpu Q S d" if "d < g_cpu_count s" for d using t(2) that by (auto simp: queued_def)
  note E = enqueue_rq_ok [OF queues_okD(1) [OF q] t(1) _ t(3)]
  have "queues_ok (runq_enqueue_ready c t s) (Q(c := Q c @ [t])) (S(c := S c))"
    by (rule queues_step [OF q _ E(1), where N = "{t}"])
      (use tn q(2) E(2,3) in \<open>auto simp: on_cpu_def\<close>)
  then show ?thesis by simp
qed

lemma dequeue_eqs:
  assumes h: "ready_head (runqs s c) \<noteq> NULL" and c: "runq_dequeue_ready c s = (p, s')"
  defines "t \<equiv> ready_head (runqs s c)"
  shows "p = t" "runq_next s' = (runq_next s)(t := NULL)"
    "runq_prev s' = (if runq_next s t \<noteq> NULL then (runq_prev s)(runq_next s t := NULL, t := NULL) else (runq_prev s)(t := NULL))"
    "runqs s' = (runqs s)(c := (runqs s c)\<lparr>ready_head := runq_next s t,
      ready_tail := (if runq_next s t \<noteq> NULL then ready_tail (runqs s c) else NULL),
      ready_count := (if ready_count (runqs s c) > 0 then ready_count (runqs s c) - 1 else ready_count (runqs s c))\<rparr>)"
    "g_cpu_count s' = g_cpu_count s" "cpu_pinned s' = cpu_pinned s" "last_ran_cpu s' = last_ran_cpu s"
    "runq_state.more s' = runq_state.more s" "tstate s' = tstate s"
proof -
  have e: "p = fst (runq_dequeue_ready c s)" "s' = snd (runq_dequeue_ready c s)" using c by simp_all
  show "p = t" "runq_next s' = (runq_next s)(t := NULL)"
    "runq_prev s' = (if runq_next s t \<noteq> NULL then (runq_prev s)(runq_next s t := NULL, t := NULL) else (runq_prev s)(t := NULL))"
    "runqs s' = (runqs s)(c := (runqs s c)\<lparr>ready_head := runq_next s t,
      ready_tail := (if runq_next s t \<noteq> NULL then ready_tail (runqs s c) else NULL),
      ready_count := (if ready_count (runqs s c) > 0 then ready_count (runqs s c) - 1 else ready_count (runqs s c))\<rparr>)"
    "g_cpu_count s' = g_cpu_count s" "cpu_pinned s' = cpu_pinned s" "last_ran_cpu s' = last_ran_cpu s"
    "runq_state.more s' = runq_state.more s" "tstate s' = tstate s"
    unfolding e t_def using h by (simp_all add: runq_dequeue_ready_def Let_def runq_sets)
qed

lemma dequeue_rq_ok:
  assumes r: "rq_ok s c (t # xs) ys" and c: "runq_dequeue_ready c s = (p, s')"
  shows "p = t" "rq_ok s' c xs ys" "q \<notin> set (t # xs) \<Longrightarrow> runq_next s' q = runq_next s q \<and> runq_prev s' q = runq_prev s q"
    "d \<noteq> c \<Longrightarrow> runqs s' d = runqs s d"
proof -
  from r have d: "dseg (runq_next s) (runq_prev s) NULL (t # xs) NULL" "distinct (t # xs @ ys)" and y: "sseg (runq_next s) ys NULL"
    and h: "ready_head (runqs s c) = t" "t \<noteq> NULL" "runq_next s t = hd0 xs NULL" by (simp_all add: rq_ok_def)
  have z: "hd0 xs NULL = NULL \<longleftrightarrow> xs = []" using rq_nonnull [OF r] hd0_in [of xs NULL] by (cases "xs = []") auto
  have n: "(of_nat (Suc (length xs)) :: u32) > 0"
    using r by (simp add: rq_ok_def word_less_nat_alt unat_of_nat take_bit_eq_mod del: of_nat_Suc)
  have "ready_head (runqs s c) \<noteq> NULL" using h by simp
  note E = dequeue_eqs [OF this c, unfolded h(1)]
  show "p = t" by (rule E(1))
  have nx: "runq_next s' = (runq_next s)(t := NULL)"
    and pv: "runq_prev s' = (if xs = [] then (runq_prev s)(t := NULL) else (runq_prev s)(hd xs := NULL, t := NULL))"
    using E(2,3) h(3) z by (simp_all add: hd0_def)
  have "dseg (runq_next s') (runq_prev s') NULL xs NULL"
  proof (cases "xs = []")
    case False
    have "dseg (runq_next s) ((runq_prev s)(hd xs := NULL)) NULL xs NULL"
      by (rule dseg_retarget_first [of _ _ t]) (use d False in auto)
    then show ?thesis by (subst dseg_cong [of xs _ "runq_next s" _ "(runq_prev s)(hd xs := NULL)"]) (use d nx pv False in auto)
  qed simp
  moreover have "sseg (runq_next s') ys NULL"
    by (subst sseg_cong [of ys _ "runq_next s"]) (use y nx d in auto)
  moreover have "ready_head (runqs s' c) = hd0 xs NULL" "ready_tail (runqs s' c) = last0 NULL xs" "starved_head (runqs s' c) = hd0 ys NULL"
    "ready_count (runqs s' c) = of_nat (length xs)"
    using E(4) h(3) z r n by (simp_all add: rq_ok_def) (simp add: last0_def)
  ultimately show "rq_ok s' c xs ys" using r by (simp add: rq_ok_def)
  show "q \<notin> set (t # xs) \<Longrightarrow> runq_next s' q = runq_next s q \<and> runq_prev s' q = runq_prev s q"
    unfolding nx pv using hd_in_set [of xs] by (cases "xs = []") auto
  show "d \<noteq> c \<Longrightarrow> runqs s' d = runqs s d"
    using E(4) by simp
qed

lemma dequeue_fields:
  assumes "runq_dequeue_ready c s = (p, s')"
  shows "g_cpu_count s' = g_cpu_count s" "cpu_pinned s' = cpu_pinned s" "last_ran_cpu s' = last_ran_cpu s"
    "runq_state.more s' = runq_state.more s" "tstate s' = tstate s" "rq_current (runqs s' d) = rq_current (runqs s d)"
    "idle_task (runqs s' d) = idle_task (runqs s d)" "rq_cpu_id (runqs s' d) = rq_cpu_id (runqs s d)"
proof -
  have "s' = s \<or> ready_head (runqs s c) \<noteq> NULL" using assms by (auto simp: runq_dequeue_ready_def)
  then show "g_cpu_count s' = g_cpu_count s" "cpu_pinned s' = cpu_pinned s" "last_ran_cpu s' = last_ran_cpu s"
    "runq_state.more s' = runq_state.more s" "tstate s' = tstate s" "rq_current (runqs s' d) = rq_current (runqs s d)"
    "idle_task (runqs s' d) = idle_task (runqs s d)" "rq_cpu_id (runqs s' d) = rq_cpu_id (runqs s d)"
    by (auto simp: dequeue_eqs(4-9) [OF _ assms])
qed

lemma dequeue_queues:
  assumes q: "queues_ok s Q S" "c < g_cpu_count s" and d: "runq_dequeue_ready c s = (p, s')"
  shows "p = hd0 (Q c) NULL" "queues_ok s' (Q(c := tl (Q c))) S"
proof -
  note R = queues_okD(1) [OF q]
  have "p = hd0 (Q c) NULL \<and> queues_ok s' (Q(c := tl (Q c))) S"
  proof (cases "Q c")
    case Nil
    then have "p = NULL" "s' = s" using rq_empty [OF R] d by (simp_all add: runq_dequeue_ready_def)
    then show ?thesis using Nil q by (simp add: fun_upd_idem)
  next
    case (Cons t xs)
    note D = dequeue_rq_ok [OF R [unfolded Cons] d]
    have "queues_ok s' (Q(c := xs)) (S(c := S c))"
      by (rule queues_step [OF q _ D(2), where N = "{}"]) (use D(3,4) Cons dequeue_fields(1) [OF d] in \<open>auto simp: on_cpu_def\<close>)
    then show ?thesis using D(1) Cons by simp
  qed
  then show "p = hd0 (Q c) NULL" "queues_ok s' (Q(c := tl (Q c))) S" by simp_all
qed

section \<open>Starved tasks\<close>

lemma push_starved_eqs:
  assumes "t \<noteq> NULL"
  shows "runq_next (runq_push_starved c t s) = (runq_next s)(t := starved_head (runqs s c))"
    "runq_prev (runq_push_starved c t s) = (runq_prev s)(t := NULL)"
    "runqs (runq_push_starved c t s) = (runqs s)(c := (runqs s c)\<lparr>starved_head := t\<rparr>)"
    "tstate (runq_push_starved c t s) = (tstate s)(t := TASK_STATE_STARVED)"
    "g_cpu_count (runq_push_starved c t s) = g_cpu_count s" "cpu_pinned (runq_push_starved c t s) = cpu_pinned s"
    "last_ran_cpu (runq_push_starved c t s) = last_ran_cpu s" "runq_state.more (runq_push_starved c t s) = runq_state.more s"
  using assms by (simp_all add: runq_push_starved_def Let_def runq_sets)

lemma push_starved_rq_ok:
  assumes r: "rq_ok s c xs ys" and t: "t \<noteq> NULL" "t \<notin> set xs \<union> set ys"
  shows "rq_ok (runq_push_starved c t s) c xs (t # ys)"
proof -
  let ?s = "runq_push_starved c t s"
  note E = push_starved_eqs [OF t(1), of c s]
  have "dseg (runq_next ?s) (runq_prev ?s) NULL xs NULL = dseg (runq_next s) (runq_prev s) NULL xs NULL"
    by (rule dseg_cong) (use t(2) E in auto)
  moreover have "sseg (runq_next ?s) ys NULL = sseg (runq_next s) ys NULL"
    by (rule sseg_cong) (use t(2) E in auto)
  ultimately show ?thesis using r t E by (simp add: rq_ok_def)
qed

lemma push_starved_queues:
  assumes q: "queues_ok s Q S" "c < g_cpu_count s" and t: "t \<noteq> NULL" "t \<notin> queued (g_cpu_count s) Q S"
  shows "queues_ok (runq_push_starved c t s) Q (S(c := t # S c))"
proof -
  have tn: "t \<notin> on_cpu Q S d" if "d < g_cpu_count s" for d using t(2) that by (auto simp: queued_def)
  note E = push_starved_eqs [OF t(1), of c s]
  have "rq_ok (runq_push_starved c t s) c (Q c) (t # S c)"
    by (rule push_starved_rq_ok [OF queues_okD(1) [OF q] t(1)]) (use tn [OF q(2)] in \<open>simp add: on_cpu_def\<close>)
  then have "queues_ok (runq_push_starved c t s) (Q(c := Q c)) (S(c := t # S c))"
    by (rule queues_step [OF q E(5), where N = "{t}"]) (use tn E in \<open>auto simp: on_cpu_def\<close>)
  then show ?thesis by simp
qed

text \<open>The refill loop empties the starved list into the ready list.\<close>

lemma refill_loop_ok:
  assumes "rq_ok s c xs []" "sseg (runq_next s) ys NULL" "distinct (xs @ ys)" "length xs + length ys < 2 ^ 32"
  shows "\<exists>s'. refill_loop c (hd0 ys NULL) n s = Some (n + of_nat (length ys), s') \<and> rq_ok s' c (xs @ ys) []
    \<and> (\<forall>p. p \<notin> set xs \<union> set ys \<longrightarrow> runq_next s' p = runq_next s p \<and> runq_prev s' p = runq_prev s p)
    \<and> (\<forall>d. d \<noteq> c \<longrightarrow> runqs s' d = runqs s d)
    \<and> tstate s' = (\<lambda>p. if p \<in> set ys then TASK_STATE_READY else tstate s p)
    \<and> g_cpu_count s' = g_cpu_count s \<and> cpu_pinned s' = cpu_pinned s \<and> last_ran_cpu s' = last_ran_cpu s
    \<and> runq_state.more s' = runq_state.more s \<and> rq_current (runqs s' c) = rq_current (runqs s c)
    \<and> idle_task (runqs s' c) = idle_task (runqs s c) \<and> rq_cpu_id (runqs s' c) = rq_cpu_id (runqs s c)"
  using assms
proof (induction ys arbitrary: s xs n)
  case Nil
  then show ?case by (simp add: refill_loop.simps)
next
  case (Cons y ys)
  define s1 where "s1 = set_next y NULL (set_prev y NULL s)"
  define s2 where "s2 = runq_enqueue_ready c y s1"
  have y: "y \<noteq> NULL" "y \<notin> set xs" "y \<notin> set ys" "runq_next s y = hd0 ys NULL" using Cons.prems by auto
  have f1: "runqs s1 = runqs s" "p \<noteq> y \<Longrightarrow> runq_next s1 p = runq_next s p \<and> runq_prev s1 p = runq_prev s p" for p
    by (simp_all add: s1_def runq_sets)
  have ne: "p \<noteq> y" if "p \<in> set xs" for p using that y by auto
  have r1: "rq_ok s1 c xs []" by (rule rq_ok_frame [OF Cons.prems(1)]) (simp_all add: f1 ne)
  note E = enqueue_rq_ok [OF r1 y(1)]
  have r2: "rq_ok s2 c (xs @ [y]) []" unfolding s2_def by (rule E(1)) (use y Cons.prems(4) in auto)
  have g2: "runq_next s2 p = runq_next s p \<and> runq_prev s2 p = runq_prev s p" if "p \<notin> set xs \<union> {y}" for p
    using E(2) [of p] that y f1(2) [of p] Cons.prems(4) by (auto simp: s2_def)
  have "sseg (runq_next s2) ys NULL = sseg (runq_next s) ys NULL"
  proof (rule sseg_cong)
    fix x
    assume "x \<in> set ys"
    then have "x \<notin> set xs \<union> {y}" using y(3) Cons.prems(3) by auto
    from g2 [OF this] show "runq_next s2 x = runq_next s x" by simp
  qed
  then have "sseg (runq_next s2) ys NULL" using Cons.prems(2) by simp
  moreover have "distinct ((xs @ [y]) @ ys)" "length (xs @ [y]) + length ys < 2 ^ 32" using Cons.prems(3,4) by auto
  ultimately obtain s' where I: "refill_loop c (hd0 ys NULL) (n + 1) s2 = Some (n + 1 + of_nat (length ys), s')" "rq_ok s' c ((xs @ [y]) @ ys) []"
    "\<forall>p. p \<notin> set (xs @ [y]) \<union> set ys \<longrightarrow> runq_next s' p = runq_next s2 p \<and> runq_prev s' p = runq_prev s2 p"
    "\<forall>d. d \<noteq> c \<longrightarrow> runqs s' d = runqs s2 d" "tstate s' = (\<lambda>p. if p \<in> set ys then TASK_STATE_READY else tstate s2 p)"
    "g_cpu_count s' = g_cpu_count s2" "cpu_pinned s' = cpu_pinned s2" "last_ran_cpu s' = last_ran_cpu s2"
    "runq_state.more s' = runq_state.more s2" "rq_current (runqs s' c) = rq_current (runqs s2 c)"
    "idle_task (runqs s' c) = idle_task (runqs s2 c)" "rq_cpu_id (runqs s' c) = rq_cpu_id (runqs s2 c)"
    using Cons.IH [OF r2, of "n + 1"] by blast
  have "refill_loop c (hd0 (y # ys) NULL) n s = refill_loop c (hd0 ys NULL) (n + 1) s2"
    using y by (subst refill_loop.simps) (simp add: s2_def s1_def)
  then have "refill_loop c (hd0 (y # ys) NULL) n s = Some (n + of_nat (length (y # ys)), s')" using I(1) by (simp add: add.assoc)
  moreover have "tstate s' = (\<lambda>p. if p \<in> set (y # ys) then TASK_STATE_READY else tstate s p)"
    unfolding I(5) s2_def s1_def using y(1) by (auto simp: runq_sets)
  moreover have "\<forall>p. p \<notin> set xs \<union> set (y # ys) \<longrightarrow> runq_next s' p = runq_next s p \<and> runq_prev s' p = runq_prev s p"
    using I(3) g2 by simp
  moreover have "\<forall>d. d \<noteq> c \<longrightarrow> runqs s' d = runqs s d"
    using I(4) f1(1) enqueue_eqs(3) [OF y(1), of c s1] by (simp add: s2_def)
  ultimately show ?case
    using I(2,6-12) by (intro exI [of _ s']) (simp add: s2_def s1_def runq_sets)
qed

lemma refill_queues:
  assumes q: "queues_ok s Q S" "c < g_cpu_count s" and l: "length (Q c) + length (S c) < 2 ^ 32"
  shows "\<exists>s'. runq_refill_starved c s = Some (of_nat (length (S c)), s') \<and> queues_ok s' (Q(c := Q c @ S c)) (S(c := []))
    \<and> tstate s' = (\<lambda>p. if p \<in> set (S c) then TASK_STATE_READY else tstate s p)
    \<and> g_cpu_count s' = g_cpu_count s \<and> cpu_pinned s' = cpu_pinned s \<and> last_ran_cpu s' = last_ran_cpu s
    \<and> runq_state.more s' = runq_state.more s \<and> (\<forall>d. rq_current (runqs s' d) = rq_current (runqs s d)
    \<and> idle_task (runqs s' d) = idle_task (runqs s d) \<and> rq_cpu_id (runqs s' d) = rq_cpu_id (runqs s d))"
proof -
  note R = queues_okD(1) [OF q]
  have h: "starved_head (runqs s c) = hd0 (S c) NULL" "sseg (runq_next s) (S c) NULL" "distinct (Q c @ S c)" using R by (simp_all add: rq_ok_def)
  show ?thesis
  proof (cases "S c = []")
    case True
    then show ?thesis using q h by (simp add: runq_refill_starved_def fun_upd_idem)
  next
    case False
    define s1 where "s1 = upd_rq c (\<lambda>q. q\<lparr>starved_head := NULL\<rparr>) s"
    have r1: "rq_ok s1 c (Q c) []" using R by (simp add: rq_ok_def s1_def upd_rq_def)
    have "sseg (runq_next s1) (S c) NULL" using h(2) by (simp add: s1_def upd_rq_def)
    from refill_loop_ok [OF r1 this h(3) l, of 0] obtain s' where I: "refill_loop c (hd0 (S c) NULL) 0 s1 = Some (of_nat (length (S c)), s')"
      "rq_ok s' c (Q c @ S c) []" "\<forall>p. p \<notin> set (Q c) \<union> set (S c) \<longrightarrow> runq_next s' p = runq_next s1 p \<and> runq_prev s' p = runq_prev s1 p"
      "\<forall>d. d \<noteq> c \<longrightarrow> runqs s' d = runqs s1 d" "tstate s' = (\<lambda>p. if p \<in> set (S c) then TASK_STATE_READY else tstate s1 p)"
      "g_cpu_count s' = g_cpu_count s1" "cpu_pinned s' = cpu_pinned s1" "last_ran_cpu s' = last_ran_cpu s1"
      "runq_state.more s' = runq_state.more s1" "rq_current (runqs s' c) = rq_current (runqs s1 c)"
      "idle_task (runqs s' c) = idle_task (runqs s1 c)" "rq_cpu_id (runqs s' c) = rq_cpu_id (runqs s1 c)"
      by auto
    have f: "g_cpu_count s1 = g_cpu_count s" "runq_next s1 = runq_next s" "runq_prev s1 = runq_prev s" "tstate s1 = tstate s"
      "cpu_pinned s1 = cpu_pinned s" "last_ran_cpu s1 = last_ran_cpu s" "runq_state.more s1 = runq_state.more s"
      "\<And>d. d \<noteq> c \<Longrightarrow> runqs s1 d = runqs s d" "rq_current (runqs s1 c) = rq_current (runqs s c)"
      "idle_task (runqs s1 c) = idle_task (runqs s c)" "rq_cpu_id (runqs s1 c) = rq_cpu_id (runqs s c)"
      by (simp_all add: s1_def upd_rq_def)
    have "queues_ok s' (Q(c := Q c @ S c)) (S(c := []))"
      by (rule queues_step [OF q _ I(2), where N = "{}"]) (use I(3,4,6) f in \<open>auto simp: on_cpu_def\<close>)
    moreover have "rq_current (runqs s' d) = rq_current (runqs s d) \<and> idle_task (runqs s' d) = idle_task (runqs s d)
        \<and> rq_cpu_id (runqs s' d) = rq_cpu_id (runqs s d)" for d
      using I(4,10-12) f(8-11) by (cases "d = c") simp_all
    moreover have "runq_refill_starved c s = Some (of_nat (length (S c)), s')"
      using I(1) h(1) False rq_empty [OF R] by (simp add: runq_refill_starved_def s1_def)
    moreover note I(5-9) [unfolded f(1,4-7)]
    ultimately show ?thesis by blast
  qed
qed

section \<open>Stealing\<close>

lemma victim_eqs:
  "runq_next (victim_unlink c t s) = (if runq_prev s t \<noteq> NULL then (runq_next s)(runq_prev s t := runq_next s t) else runq_next s)"
  "runq_prev s t \<noteq> t \<Longrightarrow> runq_prev (victim_unlink c t s) = (if runq_next s t \<noteq> NULL then (runq_prev s)(runq_next s t := runq_prev s t) else runq_prev s)"
  "runqs (victim_unlink c t s) = (runqs s)(c := (runqs s c)\<lparr>
      ready_head := (if runq_prev s t \<noteq> NULL then ready_head (runqs s c) else runq_next s t),
      ready_tail := (if runq_next s t \<noteq> NULL then ready_tail (runqs s c) else runq_prev s t),
      ready_count := (if ready_count (runqs s c) > 0 then ready_count (runqs s c) - 1 else ready_count (runqs s c))\<rparr>)"
  by (simp_all add: victim_unlink_def Let_def runq_sets)

lemma thief_eqs:
  "runq_next (thief_push c t s) = (runq_next s)(t := ready_head (runqs s c))"
  "runq_prev (thief_push c t s) = (if ready_head (runqs s c) \<noteq> NULL then (runq_prev s)(t := NULL, ready_head (runqs s c) := t) else (runq_prev s)(t := NULL))"
  "runqs (thief_push c t s) = (runqs s)(c := (if ready_head (runqs s c) \<noteq> NULL then runqs s c else (runqs s c)\<lparr>ready_tail := t\<rparr>)\<lparr>ready_head := t,
      ready_count := ready_count (runqs s c) + 1\<rparr>)"
  by (simp_all add: thief_push_def Let_def runq_sets)

lemma steal_fields [simp]:
  "g_cpu_count (victim_unlink c t s) = g_cpu_count s" "cpu_pinned (victim_unlink c t s) = cpu_pinned s"
  "last_ran_cpu (victim_unlink c t s) = last_ran_cpu s" "runq_state.more (victim_unlink c t s) = runq_state.more s"
  "tstate (victim_unlink c t s) = tstate s" "rq_current (runqs (victim_unlink c t s) d) = rq_current (runqs s d)"
  "idle_task (runqs (victim_unlink c t s) d) = idle_task (runqs s d)"
  "rq_cpu_id (runqs (victim_unlink c t s) d) = rq_cpu_id (runqs s d)"
  "g_cpu_count (thief_push c t s) = g_cpu_count s" "cpu_pinned (thief_push c t s) = cpu_pinned s"
  "last_ran_cpu (thief_push c t s) = last_ran_cpu s" "runq_state.more (thief_push c t s) = runq_state.more s"
  "tstate (thief_push c t s) = tstate s" "rq_current (runqs (thief_push c t s) d) = rq_current (runqs s d)"
  "idle_task (runqs (thief_push c t s) d) = idle_task (runqs s d)"
  "rq_cpu_id (runqs (thief_push c t s) d) = rq_cpu_id (runqs s d)"
  by (simp_all add: victim_unlink_def thief_push_def Let_def runq_sets)

lemma victim_rq_ok:
  assumes r: "rq_ok s c (xs @ t # ys) zs"
  shows "rq_ok (victim_unlink c t s) c (xs @ ys) zs"
    "p \<notin> set (xs @ t # ys) \<Longrightarrow> runq_next (victim_unlink c t s) p = runq_next s p \<and> runq_prev (victim_unlink c t s) p = runq_prev s p"
proof -
  let ?s = "victim_unlink c t s"
  from r have d: "dseg (runq_next s) (runq_prev s) NULL (xs @ t # ys) NULL" "distinct (xs @ t # ys)" "distinct ((xs @ t # ys) @ zs)"
    and y: "sseg (runq_next s) zs NULL" by (auto simp: rq_ok_def)
  have l: "runq_prev s t = last0 NULL xs" "runq_next s t = hd0 ys NULL" using d(1) by simp_all
  have nn: "NULL \<notin> set xs" "NULL \<notin> set ys" using rq_nonnull [OF r] by auto
  have zx: "last0 NULL xs = NULL \<longleftrightarrow> xs = []" using nn last0_in [of xs NULL] by (cases "xs = []") auto
  have zy: "hd0 ys NULL = NULL \<longleftrightarrow> ys = []" using nn hd0_in [of ys NULL] by (cases "ys = []") auto
  have "t \<noteq> NULL" using rq_nonnull [OF r] by auto
  then have "runq_prev s t \<noteq> t" using l d(2) last0_in [of xs NULL] by (cases "xs = []") auto
  note E = victim_eqs(1) [of c t s] victim_eqs(2) [OF this, of c] victim_eqs(3) [of c t s]
  have n: "(1 + of_nat (length xs + length ys) :: u32) > 0"
    using r by (simp add: rq_ok_def word_less_nat_alt unat_of_nat take_bit_eq_mod flip: of_nat_add of_nat_Suc)
  have out: "runq_next ?s p = runq_next s p \<and> runq_prev ?s p = runq_prev s p" if "p \<notin> set (xs @ t # ys)" for p
  proof -
    have "xs \<noteq> [] \<Longrightarrow> p \<noteq> last0 NULL xs" "ys \<noteq> [] \<Longrightarrow> p \<noteq> hd0 ys NULL" using that last0_in [of xs NULL] hd0_in [of ys NULL] by auto
    then show ?thesis unfolding E l zx zy by simp
  qed
  then show "p \<notin> set (xs @ t # ys) \<Longrightarrow> runq_next ?s p = runq_next s p \<and> runq_prev ?s p = runq_prev s p" .
  have "dseg (runq_next ?s) (runq_prev ?s) NULL (xs @ ys) NULL" by (rule dseg_unlink(1) [OF d(1,2) E(1,2)])
  moreover have "sseg (runq_next ?s) zs NULL"
  proof (subst sseg_cong [of zs _ "runq_next s"])
    fix x
    assume "x \<in> set zs"
    then have "x \<notin> set (xs @ t # ys)" using d(3) by auto
    from out [OF this] show "runq_next ?s x = runq_next s x" by simp
  qed (rule y)
  moreover have "ready_head (runqs ?s c) = hd0 (xs @ ys) NULL" unfolding E(3) l zx using r by (cases xs) (simp_all add: rq_ok_def)
  moreover have "ready_tail (runqs ?s c) = last0 NULL (xs @ ys)" unfolding E(3) l zy using r by (cases ys) (simp_all add: rq_ok_def)
  moreover have "ready_count (runqs ?s c) = of_nat (length (xs @ ys))" unfolding E(3) using r n by (simp add: rq_ok_def)
  moreover have "starved_head (runqs ?s c) = hd0 zs NULL" "length (xs @ ys) < 2 ^ 32" "distinct ((xs @ ys) @ zs)"
    using r d(3) unfolding E(3) by (simp_all add: rq_ok_def)
  ultimately show "rq_ok ?s c (xs @ ys) zs" unfolding rq_ok_def by blast
qed

lemma thief_rq_ok:
  assumes r: "rq_ok s c xs zs" and t: "t \<noteq> NULL" "t \<notin> set xs \<union> set zs" "Suc (length xs) < 2 ^ 32"
  shows "rq_ok (thief_push c t s) c (t # xs) zs"
    "p \<notin> set (t # xs) \<Longrightarrow> runq_next (thief_push c t s) p = runq_next s p \<and> runq_prev (thief_push c t s) p = runq_prev s p"
proof -
  let ?s = "thief_push c t s"
  from r have d: "dseg (runq_next s) (runq_prev s) NULL xs NULL" "distinct (xs @ zs)" "ready_head (runqs s c) = hd0 xs NULL"
    and y: "sseg (runq_next s) zs NULL" by (simp_all add: rq_ok_def)
  have z: "hd0 xs NULL = NULL \<longleftrightarrow> xs = []" using rq_empty [OF r] d(3) by simp
  have nx: "runq_next ?s = (runq_next s)(t := hd0 xs NULL)"
    and pv: "runq_prev ?s = (if xs = [] then (runq_prev s)(t := NULL) else (runq_prev s)(t := NULL, hd xs := t))"
    using z d(3) thief_eqs [of c t s] by (simp_all add: hd0_def)
  have "dseg (runq_next ?s) (runq_prev ?s) NULL (t # xs) NULL"
    by (rule dseg_push [OF d(1) _ t(1) nx pv]) (use d(2) t(2) in auto)
  moreover have "sseg (runq_next ?s) zs NULL" by (subst sseg_cong [of zs _ "runq_next s"]) (use y t(2) nx in auto)
  moreover have "ready_head (runqs ?s c) = t" "ready_tail (runqs ?s c) = last0 NULL (t # xs)" "starved_head (runqs ?s c) = hd0 zs NULL"
    "ready_count (runqs ?s c) = of_nat (Suc (length xs))"
    using r z thief_eqs(3) [of c t s] by (simp_all add: rq_ok_def last0_def)
  ultimately show "rq_ok ?s c (t # xs) zs" using d(2) t by (simp add: rq_ok_def)
  show "p \<notin> set (t # xs) \<Longrightarrow> runq_next ?s p = runq_next s p \<and> runq_prev ?s p = runq_prev s p"
    unfolding nx pv using hd_in_set [of xs] by (cases "xs = []") auto
qed

text \<open>One task moves from the victim to the front of the queue of the thief.\<close>

lemma steal_queues:
  assumes q: "queues_ok s Q S" "v < g_cpu_count s" "h < g_cpu_count s" "v \<noteq> h" and v: "Q v = xs @ t # ys"
    and l: "Suc (length (Q h)) < 2 ^ 32"
  shows "queues_ok (thief_push h t (victim_unlink v t s)) (Q(v := xs @ ys, h := t # Q h)) S"
proof -
  let ?s = "victim_unlink v t s" and ?Q = "Q(v := xs @ ys)"
  have r: "rq_ok s v (xs @ t # ys) (S v)" using queues_okD(1) [OF q(1,2)] v by simp
  note V = victim_rq_ok [OF r]
  have "queues_ok ?s ?Q (S(v := S v))"
    by (rule queues_step [OF q(1,2) _ V(1), where N = "{}"]) (use V(2) in \<open>auto simp: on_cpu_def v victim_eqs(3)\<close>)
  then have q1: "queues_ok ?s ?Q S" "h < g_cpu_count ?s" using q by simp_all
  have tv: "t \<in> on_cpu Q S v" using v by (simp add: on_cpu_def)
  have th: "t \<notin> on_cpu ?Q S d" if "d < g_cpu_count s" for d
  proof (cases "d = v")
    case True
    then show ?thesis using r by (auto simp: on_cpu_def rq_ok_def)
  next
    case False
    then show ?thesis using queues_okD(2) [OF q(1,2) that] tv by (auto simp: on_cpu_def)
  qed
  have "rq_ok ?s h (Q h) (S h)" using queues_okD(1) [OF q1] q(4) by simp
  moreover have "t \<noteq> NULL" using rq_nonnull [OF r] by auto
  moreover have "t \<notin> set (Q h) \<union> set (S h)" using th [OF q(3)] q(4) by (simp add: on_cpu_def)
  ultimately have T: "rq_ok (thief_push h t ?s) h (t # Q h) (S h)"
    "\<And>p. p \<notin> set (t # Q h) \<Longrightarrow> runq_next (thief_push h t ?s) p = runq_next ?s p \<and> runq_prev (thief_push h t ?s) p = runq_prev ?s p"
    using thief_rq_ok [of ?s h "Q h" "S h" t] l by blast+
  have "queues_ok (thief_push h t ?s) (?Q(h := t # Q h)) (S(h := S h))"
    by (rule queues_step [OF q1 _ T(1), where N = "{t}"]) (use T(2) th q(4) in \<open>auto simp: on_cpu_def thief_eqs(3)\<close>)
  then show ?thesis by simp
qed

text \<open>
  What a processor takes: going through the reversed queue of the victim, the first \<open>n\<close> tasks
  that may move. The result is what stays and what is taken, both reversed.
\<close>

fun pick_tail :: "nat \<Rightarrow> (ptr \<Rightarrow> bool) \<Rightarrow> ptr list \<Rightarrow> ptr list \<times> ptr list" where
  "pick_tail n P [] = ([], [])"
| "pick_tail n P (x # xs) =
    (if n = 0 then (x # xs, [])
     else if P x then (let (k, t) = pick_tail (n - 1) P xs in (k, x # t))
     else (let (k, t) = pick_tail n P xs in (x # k, t)))"

lemma pick_tail_0 [simp]: "pick_tail 0 P xs = (xs, [])"
  by (cases xs) simp_all

lemma pick_tail_spec:
  "pick_tail n P xs = (k, t) \<Longrightarrow> mset k + mset t = mset xs \<and> t = take n (filter P xs)
    \<and> filter (\<lambda>x. \<not> P x) k = filter (\<lambda>x. \<not> P x) xs"
proof (induction xs arbitrary: n k t)
  case (Cons x xs)
  show ?case
  proof (cases n)
    case (Suc m)
    show ?thesis
    proof (cases "P x")
      case True
      then obtain t1 where t: "t = x # t1" "pick_tail m P xs = (k, t1)" using Cons.prems Suc by (cases "pick_tail m P xs") simp
      from Cons.IH [OF t(2)] show ?thesis using True Suc t(1) by auto
    next
      case False
      then obtain k1 where k: "k = x # k1" "pick_tail n P xs = (k1, t)" using Cons.prems Suc by (cases "pick_tail n P xs") simp
      from Cons.IH [OF k(2)] show ?thesis using False k(1) by auto
    qed
  qed (use Cons.prems in auto)
qed simp

lemma pick_tail_none: "pick_tail n P xs = (k, []) \<Longrightarrow> k = xs"
  by (induction n P xs arbitrary: k rule: pick_tail.induct) (auto split: if_splits prod.splits)

text \<open>The fields that stealing leaves alone.\<close>

definition steal_frame :: "'a runq_state_scheme \<Rightarrow> 'a runq_state_scheme \<Rightarrow> bool" where
  "steal_frame s s' \<longleftrightarrow> g_cpu_count s' = g_cpu_count s \<and> cpu_pinned s' = cpu_pinned s \<and> last_ran_cpu s' = last_ran_cpu s
    \<and> tstate s' = tstate s \<and> runq_state.more s' = runq_state.more s
    \<and> (\<forall>d. rq_current (runqs s' d) = rq_current (runqs s d) \<and> idle_task (runqs s' d) = idle_task (runqs s d)
        \<and> rq_cpu_id (runqs s' d) = rq_cpu_id (runqs s d))"

lemma steal_frame_refl [simp]: "steal_frame s s"
  by (simp add: steal_frame_def)

lemma steal_frame_trans: "steal_frame s s' \<Longrightarrow> steal_frame s' s'' \<Longrightarrow> steal_frame s s''"
  by (simp add: steal_frame_def)

lemma steal_frame_stealable: "steal_frame s s' \<Longrightarrow> stealable h s' = stealable h s"
  by (rule ext) (simp add: steal_frame_def stealable_def)

lemma steal_frame_one: "steal_frame s (thief_push h t (victim_unlink v t s))"
  by (simp add: steal_frame_def)

lemma splice_loop_ok:
  assumes "queues_ok s Q S" "v < g_cpu_count s" "h < g_cpu_count s" "v \<noteq> h" "Q v = rev xs @ kept"
    "length (Q h) + length xs < 2 ^ 32" "st \<le> n" "pick_tail (unat n - unat st) (stealable h s) xs = (k, t)"
  shows "\<exists>s'. splice_loop v h n st (hd0 xs NULL) s = Some (st + of_nat (length t), s') \<and> steal_frame s s'
    \<and> queues_ok s' (Q(v := rev k @ kept, h := rev t @ Q h)) S"
  using assms
proof (induction xs arbitrary: s Q kept st k t)
  case Nil
  then show ?case by (simp add: splice_loop.simps fun_upd_idem)
next
  case (Cons x xs)
  have r: "rq_ok s v (rev xs @ x # kept) (S v)" using queues_okD(1) [OF Cons.prems(1,2)] Cons.prems(5) by simp
  then have x: "x \<noteq> NULL" "runq_prev s x = hd0 xs NULL" by (auto simp: rq_ok_def last0_def hd0_def last_rev)
  show ?case
  proof (cases "st < n")
    case False
    then have "st = n" using Cons.prems(7) by simp
    then have "k = x # xs" "t = []" using Cons.prems(8) by auto
    then show ?thesis using False Cons.prems(1,5) by (subst splice_loop.simps) (simp add: fun_upd_idem)
  next
    case lt: True
    have l: "unat st < unat n" "unat n < 2 ^ 32" using lt unsigned_less [of n] by (simp_all add: word_less_nat_alt)
    then have "unat (st + 1) = unat st + 1" by (simp add: unat_word_ariths)
    then have un: "unat n - unat st = Suc (unat n - unat (st + 1))" "st + 1 \<le> n" using l by (simp_all add: word_le_nat_alt)
    show ?thesis
    proof (cases "stealable h s x")
      case False
      obtain k' where k: "k = x # k'" "pick_tail (unat n - unat st) (stealable h s) xs = (k', t)"
        using Cons.prems(8) un False by (auto split: prod.splits)
      have "Q v = rev xs @ (x # kept)" "length (Q h) + length xs < 2 ^ 32" using Cons.prems(5,6) by simp_all
      note I = Cons.IH [OF Cons.prems(1-4) this Cons.prems(7) k(2)]
      have "splice_loop v h n st (hd0 (x # xs) NULL) s = splice_loop v h n st (hd0 xs NULL) s"
        using False lt x by (subst splice_loop.simps) simp
      then show ?thesis using I unfolding k(1) by simp
    next
      case True
      obtain t' where k: "t = x # t'" "pick_tail (unat n - unat (st + 1)) (stealable h s) xs = (k, t')"
        using Cons.prems(8) un True by (auto split: prod.splits)
      let ?s = "thief_push h x (victim_unlink v x s)" and ?Q = "Q(v := rev xs @ kept, h := x # Q h)"
      have v: "Q v = rev xs @ x # kept" "Suc (length (Q h)) < 2 ^ 32" using Cons.prems(5,6) by simp_all
      note q = steal_queues [OF Cons.prems(1-4) v]
      have "v < g_cpu_count ?s" "h < g_cpu_count ?s" "?Q v = rev xs @ kept" "length (?Q h) + length xs < 2 ^ 32"
        "pick_tail (unat n - unat (st + 1)) (stealable h ?s) xs = (k, t')"
        using Cons.prems(2-4,6) k(2) by (simp_all add: steal_frame_stealable [OF steal_frame_one])
      from Cons.IH [OF q this(1,2) Cons.prems(4) this(3,4) un(2) this(5)] obtain s' where
        I: "splice_loop v h n (st + 1) (hd0 xs NULL) ?s = Some (st + 1 + of_nat (length t'), s')" "steal_frame ?s s'"
          "queues_ok s' (?Q(v := rev k @ kept, h := rev t' @ ?Q h)) S" by blast
      have "?Q(v := rev k @ kept, h := rev t' @ ?Q h) = Q(v := rev k @ kept, h := rev t @ Q h)" using Cons.prems(4) k(1) by (auto simp: fun_eq_iff)
      moreover have "splice_loop v h n st (hd0 (x # xs) NULL) s = Some (st + of_nat (length t), s')"
        using True lt x I(1) k(1) by (subst splice_loop.simps) (simp add: add.assoc)
      ultimately show ?thesis using I(3) steal_frame_trans [OF steal_frame_one I(2)] by (metis (no_types))
    qed
  qed
qed

lemma busiest_from_spec:
  "busiest_from h s is bc bp = r \<Longrightarrow>
    (r = bp \<and> (\<forall>i \<in> set is. i \<noteq> h \<longrightarrow> ready_count (runqs s i) \<le> bc)
     \<or> (\<exists>v. r = Some v \<and> v \<in> set is \<and> v \<noteq> h \<and> ready_count (runqs s v) > bc
         \<and> (\<forall>i \<in> set is. i \<noteq> h \<longrightarrow> ready_count (runqs s i) \<le> ready_count (runqs s v))))"
proof (induction "is" arbitrary: bc bp)
  case (Cons i "is")
  consider "i = h" | "i \<noteq> h" "ready_count (runqs s i) > bc" | "i \<noteq> h" "\<not> ready_count (runqs s i) > bc" by blast
  then show ?case
  proof cases
    case 2
    with Cons.prems have "busiest_from h s is (ready_count (runqs s i)) (Some i) = r" by simp
    from Cons.IH [OF this] 2 show ?thesis by (auto intro: less_trans)
  next
    case 3
    with Cons.prems have "busiest_from h s is bc bp = r" by simp
    from Cons.IH [OF this] 3 show ?thesis by (auto simp: not_less intro: order_trans less_imp_le)
  qed (use Cons in auto)
qed simp

lemma pick_busiest_longest:
  assumes q: "queues_ok s Q S" and p: "pick_busiest h s = Some v"
  shows "v < g_cpu_count s" "v \<noteq> h" "length (Q v) > 1" "i < g_cpu_count s \<Longrightarrow> i \<noteq> h \<Longrightarrow> length (Q i) \<le> length (Q v)"
proof -
  have un: "unat (ready_count (runqs s i)) = length (Q i)" if "i < g_cpu_count s" for i
    using queues_okD(1) [OF q that] by (simp add: rq_ok_def unat_of_nat take_bit_eq_mod)
  from busiest_from_spec [OF p [unfolded pick_busiest_def]]
  have v: "v < g_cpu_count s" "v \<noteq> h" "ready_count (runqs s v) > 1"
    "\<And>i. i < g_cpu_count s \<Longrightarrow> i \<noteq> h \<Longrightarrow> ready_count (runqs s i) \<le> ready_count (runqs s v)" by auto
  then show "v < g_cpu_count s" "v \<noteq> h" by simp_all
  show "length (Q v) > 1" using v(3) un [OF v(1)] by (simp add: word_less_nat_alt)
  show "i < g_cpu_count s \<Longrightarrow> i \<noteq> h \<Longrightarrow> length (Q i) \<le> length (Q v)"
    using v(4) [of i] un [OF v(1)] un [of i] by (simp add: word_le_nat_alt)
qed

lemma pick_busiest_cong:
  assumes q: "queues_ok s Q S" "queues_ok s' Q S" and n: "g_cpu_count s' = g_cpu_count s"
  shows "pick_busiest h s' = pick_busiest h s"
proof -
  have c: "ready_count (runqs s' i) = ready_count (runqs s i)" if "i < g_cpu_count s" for i
    using queues_okD(1) [OF q(1) that] queues_okD(1) [OF q(2), of i] n that by (simp add: rq_ok_def)
  have "busiest_from h s' is bc bp = busiest_from h s is bc bp" if "\<forall>i \<in> set is. i < g_cpu_count s" for "is" bc bp
    using that by (induction "is" arbitrary: bc bp) (simp_all add: c)
  then show ?thesis by (simp add: pick_busiest_def n)
qed

text \<open>Counting a failure or a success changes no queue.\<close>

lemma steal_count:
  assumes "\<And>q. ready_head (f q) = ready_head q \<and> ready_tail (f q) = ready_tail q \<and> ready_count (f q) = ready_count q
    \<and> starved_head (f q) = starved_head q \<and> rq_current (f q) = rq_current q \<and> idle_task (f q) = idle_task q \<and> rq_cpu_id (f q) = rq_cpu_id q"
  shows "queues_ok (upd_rq c f s) Q S = queues_ok s Q S" "steal_frame s (upd_rq c f s)"
    "pick_busiest h (upd_rq c f s) = pick_busiest h s"
proof -
  have r: "rq_ok (upd_rq c f s) d xs ys = rq_ok s d xs ys" for d xs ys using assms by (simp add: rq_ok_def upd_rq_def)
  show "queues_ok (upd_rq c f s) Q S = queues_ok s Q S" unfolding queues_ok_def r by (simp add: upd_rq_def)
  show "steal_frame s (upd_rq c f s)" using assms by (simp add: steal_frame_def upd_rq_def)
  have "busiest_from h (upd_rq c f s) is bc bp = busiest_from h s is bc bp" for "is" bc bp
    using assms by (induction "is" arbitrary: bc bp) (simp_all add: upd_rq_def)
  then show "pick_busiest h (upd_rq c f s) = pick_busiest h s" by (simp add: pick_busiest_def upd_rq_def)
qed


text \<open>What a processor that steals leaves behind: nothing taken, or half the queue of the busiest one.\<close>

definition stolen_from :: "(nat \<Rightarrow> ptr list) \<Rightarrow> nat \<Rightarrow> nat \<Rightarrow> (ptr \<Rightarrow> bool) \<Rightarrow> ptr list \<times> ptr list" where
  "stolen_from Q v h P = pick_tail (length (Q v) div 2) P (rev (Q v))"

lemma splice_tail_ok:
  assumes q: "queues_ok s Q S" "h < g_cpu_count s" and b: "pick_busiest h s = Some v" and l: "length (Q v) + length (Q h) < 2 ^ 32"
    and kt: "stolen_from Q v h (stealable h s) = (k, t)"
  defines "n \<equiv> ready_count (runqs s v) div 2"
  shows "\<exists>s'. splice_tail_to_thief v h n s = Some (of_nat (length t), s') \<and> steal_frame s s'
      \<and> queues_ok s' (Q(v := rev k, h := rev t @ Q h)) S"
    "n \<noteq> 0" "\<not> ready_count (runqs s v) \<le> 1" "t = [] \<Longrightarrow> k = rev (Q v)" "t \<noteq> [] \<Longrightarrow> (of_nat (length t) :: u32) > 0"
proof -
  note B = pick_busiest_longest [OF q(1) b]
  have un: "unat (ready_count (runqs s v)) = length (Q v)" "ready_tail (runqs s v) = last0 NULL (Q v)"
    using queues_okD(1) [OF q(1) B(1)] by (simp_all add: rq_ok_def unat_of_nat take_bit_eq_mod)
  then show gt: "\<not> ready_count (runqs s v) \<le> 1" using B(3) by (simp add: word_le_nat_alt)
  have u: "unat n = length (Q v) div 2" using un(1) by (simp add: unat_div n_def)
  show n0: "n \<noteq> 0"
  proof
    assume "n = 0"
    with u have "length (Q v) div 2 = 0" by simp
    with B(3) show False by simp
  qed
  show "t = [] \<Longrightarrow> k = rev (Q v)" using kt pick_tail_none by (simp add: stolen_from_def)
  have "length t \<le> length (Q v)" using pick_tail_spec [OF kt [unfolded stolen_from_def]] by auto
  then show "t \<noteq> [] \<Longrightarrow> (of_nat (length t) :: u32) > 0" using l by (simp add: word_less_nat_alt unat_of_nat take_bit_eq_mod)
  have "Q v = rev (rev (Q v)) @ []" "length (Q h) + length (rev (Q v)) < 2 ^ 32" "0 \<le> n"
    "pick_tail (unat n - unat (0 :: u32)) (stealable h s) (rev (Q v)) = (k, t)"
    using l kt u by (simp_all add: stolen_from_def)
  from splice_loop_ok [OF q(1) B(1) q(2) B(2) this] obtain s' where
    P: "splice_loop v h n 0 (hd0 (rev (Q v)) NULL) s = Some (of_nat (length t), s')" "steal_frame s s'"
      "queues_ok s' (Q(v := rev k, h := rev t @ Q h)) S" by auto
  have "hd0 (rev (Q v)) NULL = ready_tail (runqs s v)" using un(2) by (simp add: hd0_def last0_def hd_rev)
  moreover have "ready_count (runqs s v) \<noteq> 0" using gt by auto
  ultimately have "splice_tail_to_thief v h n s = Some (of_nat (length t), s')" using P(1) n0 by (simp add: splice_tail_to_thief_def)
  then show "\<exists>s'. splice_tail_to_thief v h n s = Some (of_nat (length t), s') \<and> steal_frame s s'
      \<and> queues_ok s' (Q(v := rev k, h := rev t @ Q h)) S" using P(2,3) by blast
qed

text \<open>The outcome of an attempt of processor \<open>h\<close>.\<close>

definition steal_outcome :: "'a runq_state_scheme \<Rightarrow> (nat \<Rightarrow> ptr list) \<Rightarrow> (nat \<Rightarrow> ptr list) \<Rightarrow> nat \<Rightarrow> (u32 \<times> 'a runq_state_scheme) option \<Rightarrow> bool" where
  "steal_outcome s Q S h x \<longleftrightarrow> (\<exists>n s'. x = Some (n, s') \<and> steal_frame s s' \<and> (n = 0 \<and> queues_ok s' Q S \<or>
     (\<exists>v k t. pick_busiest h s = Some v \<and> stolen_from Q v h (stealable h s) = (k, t) \<and> t \<noteq> [] \<and> n = of_nat (length t)
       \<and> queues_ok s' (Q(v := rev k, h := rev t @ Q h)) S)))"

lemma steal_outcome_frame:
  assumes "steal_frame s s'" "pick_busiest h s' = pick_busiest h s" "steal_outcome s' Q S h x"
  shows "steal_outcome s Q S h x"
  using assms(3) unfolding steal_outcome_def assms(2) steal_frame_stealable [OF assms(1)]
  using steal_frame_trans [OF assms(1)] by blast

lemma steal_attempts_ok:
  assumes "queues_ok s Q S" "h < g_cpu_count s" "\<And>d. d < g_cpu_count s \<Longrightarrow> length (Q d) + length (Q h) < 2 ^ 32"
  shows "steal_outcome s Q S h (steal_attempts a h locks s)"
  using assms
proof (induction a arbitrary: s locks)
  case (Suc a)
  let ?fail = "upd_rq h (\<lambda>q. q\<lparr>steal_failures := steal_failures q + 1\<rparr>)"
  let ?win = "upd_rq h (\<lambda>q. q\<lparr>steal_successes := steal_successes q + 1\<rparr>)"
  have F: "queues_ok (?fail s') Q S = queues_ok s' Q S" "steal_frame s' (?fail s')" "pick_busiest h (?fail s') = pick_busiest h s'" for s'
    by (rule steal_count; simp)+
  have W: "queues_ok (?win s') Q' S = queues_ok s' Q' S" "steal_frame s' (?win s')" for s' Q' by (rule steal_count; simp)+
  have fail: "steal_outcome s Q S h (steal_attempts a h l (?fail s'))" if "queues_ok s' Q S" "steal_frame s s'" for s' l
  proof (rule steal_outcome_frame [OF steal_frame_trans [OF that(2) F(2)]])
    show "pick_busiest h (?fail s') = pick_busiest h s"
      unfolding F(3) by (rule pick_busiest_cong [OF Suc.prems(1) that(1)]) (use that(2) in \<open>simp add: steal_frame_def\<close>)
    show "steal_outcome (?fail s') Q S h (steal_attempts a h l (?fail s'))"
      by (rule Suc.IH) (use F(1,2) [of s'] that Suc.prems(2,3) in \<open>simp_all add: steal_frame_def\<close>)
  qed
  consider "pick_busiest h s = None" | v where "pick_busiest h s = Some v" "locks \<noteq> [] \<and> \<not> hd locks"
    | v where "pick_busiest h s = Some v" "\<not> (locks \<noteq> [] \<and> \<not> hd locks)" by fastforce
  then show ?case
  proof cases
    case 1
    then show ?thesis using Suc.prems by (simp add: steal_outcome_def)
  next
    case 2
    then have "steal_attempts (Suc a) h locks s = steal_attempts a h (tl locks) (?fail s)" by simp
    then show ?thesis using fail [OF Suc.prems(1) steal_frame_refl] by simp
  next
    case 3
    obtain k t where kt: "stolen_from Q v h (stealable h s) = (k, t)" by (metis surj_pair)
    note P = splice_tail_ok [OF Suc.prems(1,2) 3(1) Suc.prems(3) [OF pick_busiest_longest(1) [OF Suc.prems(1) 3(1)]] kt]
    from P(1) obtain s' where s': "splice_tail_to_thief v h (ready_count (runqs s v) div 2) s = Some (of_nat (length t), s')"
      "steal_frame s s'" "queues_ok s' (Q(v := rev k, h := rev t @ Q h)) S" by blast
    have e: "steal_attempts (Suc a) h locks s = (if (of_nat (length t) :: u32) > 0 then Some (of_nat (length t), ?win s')
        else steal_attempts a h (tl locks) (?fail s'))"
      using 3 P(2,3) s'(1) by (auto simp: Let_def)
    show ?thesis
    proof (cases "t = []")
      case True
      then have "queues_ok s' Q S" using s'(3) P(4) by (simp add: fun_upd_idem)
      from fail [OF this s'(2)] show ?thesis unfolding e True by simp
    next
      case False
      show ?thesis unfolding e steal_outcome_def if_P [OF P(5) [OF False]]
        using s'(3) W(1) steal_frame_trans [OF s'(2) W(2)] 3(1) kt False by blast
    qed
  qed
qed (simp add: steal_outcome_def)

lemma pick_tail_kept: "pick_tail n P xs = (k, t) \<Longrightarrow> distinct xs \<Longrightarrow> k = filter (\<lambda>x. x \<notin> set t) xs"
proof (induction xs arbitrary: n k t)
  case (Cons x xs)
  show ?case
  proof (cases n)
    case (Suc m)
    show ?thesis
    proof (cases "P x")
      case True
      then obtain t1 where t: "t = x # t1" "pick_tail m P xs = (k, t1)" using Cons.prems Suc by (cases "pick_tail m P xs") simp
      have "k = filter (\<lambda>y. y \<notin> set t1) xs" using Cons.IH [OF t(2)] Cons.prems(2) by simp
      also have "\<dots> = filter (\<lambda>y. y \<notin> set t) xs" by (rule filter_cong) (use Cons.prems(2) t(1) in auto)
      finally show ?thesis using t(1) by simp
    next
      case False
      then obtain k1 where k: "k = x # k1" "pick_tail n P xs = (k1, t)" using Cons.prems Suc by (cases "pick_tail n P xs") simp
      have "set t \<subseteq> set xs" using pick_tail_spec [OF k(2)] set_take_subset by fastforce
      then show ?thesis using Cons.IH [OF k(2)] Cons.prems(2) k(1) by auto
    qed
  qed (use Cons.prems in auto)
qed simp

text \<open>A small machine: processor 1 has four ready tasks, the third is pinned to it, and processor 0 is idle.\<close>

definition idle_machine :: runq_state where
  "idle_machine = \<lparr>tstate = (\<lambda>_. TASK_STATE_ZOMBIE), runq_next = (\<lambda>_. 0), runq_prev = (\<lambda>_. 0), cpu_pinned = (\<lambda>t. if t = 30 then 1 else -1),
    last_ran_cpu = (\<lambda>_. 0xFFFFFFFF), runqs = (\<lambda>c. \<lparr>rq_magic = 0, rq_cpu_id = 0, ready_head = 0, ready_tail = 0, ready_count = 0,
      starved_head = 0, rq_current = 0, steal_successes = 0, steal_failures = 0, context_switches = 0, last_epoch_tick_ticks = 0, idle_task = 0\<rparr>),
    g_cpu_count = 2\<rparr>"

definition busy_machine :: runq_state where
  "busy_machine = fold (runq_enqueue_ready 1) [10, 20, 30, 40] (runq_init 1 1 (runq_init 0 0 idle_machine))"

lemma init_queues:
  "\<forall>d < g_cpu_count s. d \<noteq> c \<longrightarrow> rq_ok s d [] [] \<Longrightarrow> queues_ok (runq_init c n s) (\<lambda>_. []) (\<lambda>_. [])"
  by (auto simp: queues_ok_def runq_init_def upd_rq_def rq_ok_def on_cpu_def)

lemma busy_machine_ok: "queues_ok busy_machine ((\<lambda>_. [])(1 := [10, 20, 30, 40])) (\<lambda>_. [])"
proof -
  define s where "s = runq_init 1 1 (runq_init 0 0 idle_machine)"
  have n: "g_cpu_count s = 2" by (simp add: s_def runq_init_def upd_rq_def idle_machine_def)
  have q: "queues_ok s ((\<lambda>_. [])(1 := [])) (\<lambda>_. [])" unfolding s_def fun_upd_idem
    by (simp add: fun_upd_idem, rule init_queues) (simp add: runq_init_def upd_rq_def idle_machine_def rq_ok_def)
  have e: "queues_ok (runq_enqueue_ready 1 t x) ((\<lambda>_. [])(1 := ts @ [t])) (\<lambda>_. [])"
    if "queues_ok x ((\<lambda>_. [])(1 := ts)) (\<lambda>_. [])" "g_cpu_count x = 2" "t \<noteq> 0" "t \<notin> set ts" "length ts < 100" for x :: runq_state and t ts
    using enqueue_queues [OF that(1), of 1 t] that(2-5) by (simp add: queued_def on_cpu_def)
  show ?thesis unfolding busy_machine_def s_def [symmetric]
    using e [OF e [OF e [OF e [OF q]]], of 10 20 30 40] n by simp
qed



end
