(* ===== verification/Pid_Hash.thy ===== *)
theory Pid_Hash
  imports Linked_Lists
begin

text \<open>
  The table of tasks (kernel/pid_hash.c): hash buckets chained through \<open>hash_next\<close> and a doubly linked
  list of all tasks in creation order. The link fields are functions from task pointers; \<open>task_id\<close> is
  the field \<^verbatim>\<open>id\<close>. The theory shows that insertion, removal, lookup and enumeration implement a list
  of tasks with distinct ids.
\<close>

section \<open>Model\<close>

abbreviation PID_HASH_BUCKETS :: nat where "PID_HASH_BUCKETS \<equiv> 2048"

record pid_hash =
  task_id :: "ptr \<Rightarrow> pid"
  hash_next :: "ptr \<Rightarrow> ptr"
  global_next :: "ptr \<Rightarrow> ptr"
  global_prev :: "ptr \<Rightarrow> ptr"
  g_hash_buckets :: "nat \<Rightarrow> ptr"
  g_global_head :: ptr
  g_global_tail :: ptr
  g_global_count :: u32

definition pid_hash_init :: "pid_hash \<Rightarrow> pid_hash" where
  "pid_hash_init h = h\<lparr>g_hash_buckets := (\<lambda>i. if i < PID_HASH_BUCKETS then NULL else g_hash_buckets h i),
    g_global_head := NULL, g_global_tail := NULL, g_global_count := 0\<rparr>"

definition bucket_for :: "pid \<Rightarrow> nat" where
  "bucket_for i = unat ((word_of_int i :: u32) AND (of_nat PID_HASH_BUCKETS - 1))"

definition pid_hash_insert :: "ptr \<Rightarrow> pid_hash \<Rightarrow> pid_hash" where
  "pid_hash_insert t h =
    (if t = NULL then h
     else
      let b = bucket_for (task_id h t);
          h = h\<lparr>hash_next := (hash_next h)(t := g_hash_buckets h b)\<rparr>;
          h = h\<lparr>g_hash_buckets := (g_hash_buckets h)(b := t)\<rparr>;
          h = h\<lparr>global_next := (global_next h)(t := NULL)\<rparr>;
          h = h\<lparr>global_prev := (global_prev h)(t := g_global_tail h)\<rparr>;
          h = (if g_global_tail h \<noteq> NULL then h\<lparr>global_next := (global_next h)(g_global_tail h := t)\<rparr>
               else h\<lparr>g_global_head := t\<rparr>)
      in h\<lparr>g_global_tail := t, g_global_count := g_global_count h + 1\<rparr>)"

text \<open>The unlinking walk over a bucket: it stops at the link that points to the task, or at the end.\<close>

definition unlink_bucket :: "nat \<Rightarrow> ptr \<Rightarrow> pid_hash \<Rightarrow> pid_hash option" where
  "unlink_bucket b t h =
    (if g_hash_buckets h b = t then Some (h\<lparr>g_hash_buckets := (g_hash_buckets h)(b := hash_next h t)\<rparr>)
     else case find_next (hash_next h) (\<lambda>p. hash_next h p = t) (g_hash_buckets h b) of
       None \<Rightarrow> None
     | Some p \<Rightarrow> Some (if p = NULL then h else h\<lparr>hash_next := (hash_next h)(p := hash_next h t)\<rparr>))"

definition unlink_global :: "ptr \<Rightarrow> pid_hash \<Rightarrow> pid_hash" where
  "unlink_global t h =
    (let h = (if global_prev h t \<noteq> NULL then h\<lparr>global_next := (global_next h)(global_prev h t := global_next h t)\<rparr>
              else if g_global_head h = t then h\<lparr>g_global_head := global_next h t\<rparr> else h);
         h = (if global_next h t \<noteq> NULL then h\<lparr>global_prev := (global_prev h)(global_next h t := global_prev h t)\<rparr>
              else if g_global_tail h = t then h\<lparr>g_global_tail := global_prev h t\<rparr> else h)
     in h\<lparr>global_next := (global_next h)(t := NULL), global_prev := (global_prev h)(t := NULL)\<rparr>)"

definition pid_hash_remove :: "ptr \<Rightarrow> pid_hash \<Rightarrow> pid_hash option" where
  "pid_hash_remove t h =
    (if t = NULL then Some h
     else case unlink_bucket (bucket_for (task_id h t)) t h of
       None \<Rightarrow> None
     | Some h \<Rightarrow>
        let h = unlink_global t (h\<lparr>hash_next := (hash_next h)(t := NULL)\<rparr>)
        in Some (if g_global_count h > 0 then h\<lparr>g_global_count := g_global_count h - 1\<rparr> else h))"

definition pid_hash_lookup :: "pid \<Rightarrow> pid_hash \<Rightarrow> ptr option" where
  "pid_hash_lookup i h = find_next (hash_next h) (\<lambda>t. task_id h t = i) (g_hash_buckets h (bucket_for i))"

text \<open>The callback updates its context; the link is read before the call.\<close>

partial_function (option) enum_from :: "(ptr \<Rightarrow> ptr) \<Rightarrow> (ptr \<Rightarrow> 'c \<Rightarrow> 'c) \<Rightarrow> ptr \<Rightarrow> 'c \<Rightarrow> 'c option" where
  "enum_from nx fn t ctx = (if t = NULL then Some ctx else enum_from nx fn (nx t) (fn t ctx))"

declare enum_from.simps [code]

definition pid_hash_enumerate :: "(ptr \<Rightarrow> 'c \<Rightarrow> 'c) \<Rightarrow> 'c \<Rightarrow> pid_hash \<Rightarrow> 'c option" where
  "pid_hash_enumerate fn ctx h = enum_from (global_next h) fn (g_global_head h) ctx"

definition pid_hash_count :: "pid_hash \<Rightarrow> u32" where
  "pid_hash_count h = g_global_count h"

section \<open>Invariant\<close>

text \<open>\<open>ps\<close> are the tasks in creation order, \<open>bs\<close> the chain of each bucket.\<close>

definition chains_ok :: "pid_hash \<Rightarrow> ptr list \<Rightarrow> (nat \<Rightarrow> ptr list) \<Rightarrow> bool" where
  "chains_ok h ps bs \<longleftrightarrow>
    (\<forall>b < PID_HASH_BUCKETS. distinct (bs b) \<and> sseg (hash_next h) (bs b) NULL \<and> g_hash_buckets h b = hd0 (bs b) NULL
      \<and> set (bs b) = {p \<in> set ps. bucket_for (task_id h p) = b})"

definition list_ok :: "pid_hash \<Rightarrow> ptr list \<Rightarrow> bool" where
  "list_ok h ps \<longleftrightarrow> distinct ps \<and> dseg (global_next h) (global_prev h) NULL ps NULL
    \<and> g_global_head h = hd0 ps NULL \<and> g_global_tail h = last0 NULL ps
    \<and> length ps < 2 ^ 32 \<and> g_global_count h = of_nat (length ps)"

definition ph_inv :: "pid_hash \<Rightarrow> ptr list \<Rightarrow> bool" where
  "ph_inv h ps \<longleftrightarrow> inj_on (task_id h) (set ps) \<and> list_ok h ps \<and> (\<exists>bs. chains_ok h ps bs)"

lemma bucket_lt: "bucket_for i < PID_HASH_BUCKETS"
proof -
  have "(word_of_int i :: u32) AND 2047 \<le> (2047 :: u32)" by (rule word_and_le1)
  then have "unat ((word_of_int i :: u32) AND 2047) \<le> unat (2047 :: u32)" by (simp only: word_le_nat_alt)
  then show ?thesis by (simp add: bucket_for_def)
qed

lemma init_inv: "ph_inv (pid_hash_init h) []"
  by (auto simp: ph_inv_def list_ok_def chains_ok_def pid_hash_init_def intro!: exI [of _ "\<lambda>b. []"])

lemma list_ok_insert:
  assumes "list_ok h ps" "t \<noteq> NULL" "t \<notin> set ps" "Suc (length ps) < 2 ^ 32"
  shows "list_ok (pid_hash_insert t h) (ps @ [t])"
proof -
  from assms(1) have d: "distinct ps" "dseg (global_next h) (global_prev h) NULL ps NULL" "g_global_head h = hd0 ps NULL"
    "g_global_tail h = last0 NULL ps" "g_global_count h = of_nat (length ps)" by (auto simp: list_ok_def)
  have z: "last0 NULL ps \<noteq> NULL \<longleftrightarrow> ps \<noteq> []" using dseg_nonnull [OF d(2)] last0_in [of ps NULL] by (cases "ps = []") auto
  let ?h = "pid_hash_insert t h"
  have "dseg (global_next ?h) (global_prev ?h) NULL (ps @ [t]) NULL"
  proof (rule dseg_snoc [OF d(2)])
    show "global_next ?h = (if ps = [] then (global_next h)(t := NULL) else (global_next h)(t := NULL, last ps := t))"
      using z d(4) assms(2) by (simp add: pid_hash_insert_def Let_def last0_def)
    show "global_prev ?h = (global_prev h)(t := last0 NULL ps)"
      using d(4) assms(2) by (simp add: pid_hash_insert_def Let_def)
  qed (use d assms in simp_all)
  moreover have "g_global_head ?h = hd0 (ps @ [t]) NULL" "g_global_tail ?h = t" "g_global_count ?h = of_nat (Suc (length ps))"
    using z d assms(2) by (auto simp: pid_hash_insert_def Let_def hd0_def)
  ultimately show ?thesis using d assms by (simp add: list_ok_def)
qed

lemma insert_frame [simp]:
  "task_id (pid_hash_insert t h) = task_id h"
  "t \<noteq> NULL \<Longrightarrow> hash_next (pid_hash_insert t h) = (hash_next h)(t := g_hash_buckets h (bucket_for (task_id h t)))"
  "t \<noteq> NULL \<Longrightarrow> g_hash_buckets (pid_hash_insert t h) = (g_hash_buckets h)(bucket_for (task_id h t) := t)"
  by (simp_all add: pid_hash_insert_def Let_def)

lemma insert_inv:
  assumes "ph_inv h ps" "t \<noteq> NULL" "t \<notin> set ps" "task_id h t \<notin> task_id h ` set ps" "Suc (length ps) < 2 ^ 32"
  shows "ph_inv (pid_hash_insert t h) (ps @ [t])"
proof -
  from assms(1) obtain bs where bs: "chains_ok h ps bs" by (auto simp: ph_inv_def)
  let ?b = "bucket_for (task_id h t)"
  have tn: "t \<notin> set (bs b)" if "b < PID_HASH_BUCKETS" for b using bs that assms(3) by (auto simp: chains_ok_def)
  have "chains_ok (pid_hash_insert t h) (ps @ [t]) (bs(?b := t # bs ?b))"
    unfolding chains_ok_def
  proof (intro allI impI)
    fix b assume b: "b < PID_HASH_BUCKETS"
    with bs have B: "distinct (bs b)" "sseg (hash_next h) (bs b) NULL" "g_hash_buckets h b = hd0 (bs b) NULL"
      "set (bs b) = {p \<in> set ps. bucket_for (task_id h p) = b}" by (auto simp: chains_ok_def)
    have "sseg ((hash_next h)(t := g_hash_buckets h ?b)) (bs b) NULL"
      using B(2) tn [OF b] by (subst sseg_cong [of _ _ "hash_next h"]) auto
    with B tn [OF b] assms(2) show "distinct ((bs(?b := t # bs ?b)) b)
        \<and> sseg (hash_next (pid_hash_insert t h)) ((bs(?b := t # bs ?b)) b) NULL
        \<and> g_hash_buckets (pid_hash_insert t h) b = hd0 ((bs(?b := t # bs ?b)) b) NULL
        \<and> set ((bs(?b := t # bs ?b)) b) = {p \<in> set (ps @ [t]). bucket_for (task_id (pid_hash_insert t h) p) = b}"
      by auto
  qed
  moreover have "inj_on (task_id h) (set (ps @ [t]))" using assms(1,4) by (auto simp: ph_inv_def)
  ultimately show ?thesis using list_ok_insert [OF _ assms(2,3,5)] assms(1) by (auto simp: ph_inv_def)
qed

section \<open>Removal\<close>

text \<open>The predecessor walk on a chain.\<close>

lemma find_pred:
  assumes "sseg nx (xs @ t # ys) NULL" "distinct (xs @ t # ys)" "xs \<noteq> []"
  shows "find_next nx (\<lambda>p. nx p = t) (hd0 (xs @ t # ys) NULL) = Some (last xs)"
proof -
  have l: "nx (last xs) = t" using assms(1,3) by (induction xs) (auto simp: hd0_def)
  have "find (\<lambda>p. nx p = t) (xs @ t # ys) = Some (last xs)"
    using assms
  proof (induction xs)
    case (Cons x xs)
    show ?case
    proof (cases "xs = []")
      case False
      then have "nx x \<noteq> t" using Cons.prems hd_in_set [of xs] by (auto simp: hd0_def)
      with False Cons show ?thesis by simp
    qed (use Cons.prems in simp)
  qed simp
  then show ?thesis using find_next_sseg [OF assms(1), of "\<lambda>p. nx p = t"] by simp
qed

lemma unlink_chain:
  assumes "sseg nx (xs @ t # ys) NULL" "distinct (xs @ t # ys)" "nx' = (if xs = [] then nx else nx(last xs := nx t))"
  shows "sseg (nx'(t := NULL)) (xs @ ys) NULL" "nx t = hd0 ys NULL"
proof -
  from assms(1) show n: "nx t = hd0 ys NULL" by simp
  have ys: "sseg (nx'(t := NULL)) ys NULL"
    using assms by (subst sseg_cong [of ys _ nx]) (auto dest: last_in_set)
  show "sseg (nx'(t := NULL)) (xs @ ys) NULL"
  proof (cases "xs = []")
    case False
    have "sseg (nx(last xs := hd0 ys NULL)) xs (hd0 ys NULL)"
      by (rule sseg_retarget [of _ _ t]) (use assms False in auto)
    then have "sseg (nx'(t := NULL)) xs (hd0 ys NULL)"
      using assms False n by (subst sseg_cong [of xs _ "nx(last xs := hd0 ys NULL)"]) auto
    with ys show ?thesis by simp
  qed (use ys in simp)
qed

lemma unlink_bucket_spec:
  assumes "chains_ok h ps bs" "t \<in> set ps" "b = bucket_for (task_id h t)" "t \<noteq> NULL" "distinct ps"
  obtains h' where "unlink_bucket b t h = Some h'"
    "h' = h\<lparr>hash_next := hash_next h', g_hash_buckets := g_hash_buckets h'\<rparr>"
    "chains_ok (h'\<lparr>hash_next := (hash_next h')(t := NULL)\<rparr>) (remove1 t ps) (bs(b := remove1 t (bs b)))"
proof -
  have b: "b < PID_HASH_BUCKETS" using assms(3) bucket_lt by simp
  with assms have B: "distinct (bs b)" "sseg (hash_next h) (bs b) NULL" "g_hash_buckets h b = hd0 (bs b) NULL" "t \<in> set (bs b)"
    and S: "\<And>c. c < PID_HASH_BUCKETS \<Longrightarrow> distinct (bs c) \<and> sseg (hash_next h) (bs c) NULL \<and> g_hash_buckets h c = hd0 (bs c) NULL
      \<and> set (bs c) = {p \<in> set ps. bucket_for (task_id h p) = c}" by (auto simp: chains_ok_def)
  from split_list [OF B(4)] obtain xs ys where xy: "bs b = xs @ t # ys" by blast
  have r: "remove1 t (bs b) = xs @ ys" using B(1) xy by (simp add: remove1_append)
  let ?n = "if xs = [] then hash_next h else (hash_next h)(last xs := hash_next h t)"
  let ?k = "if xs = [] then (g_hash_buckets h)(b := hash_next h t) else g_hash_buckets h"
  let ?h = "h\<lparr>hash_next := ?n, g_hash_buckets := ?k\<rparr>"
  note U = unlink_chain [OF B(2) [unfolded xy] B(1) [unfolded xy] refl]
  have u: "unlink_bucket b t h = Some ?h"
  proof (cases "xs = []")
    case True
    with B(3) xy show ?thesis by (simp add: unlink_bucket_def)
  next
    case False
    have "hd xs \<noteq> t" using B(1) xy False hd_in_set by fastforce
    moreover have "last xs \<noteq> NULL" using sseg_nonnull [OF B(2)] xy False last_in_set by fastforce
    ultimately show ?thesis using find_pred [OF B(2) [unfolded xy] B(1) [unfolded xy] False] False B(3) xy
      by (simp add: unlink_bucket_def hd0_def)
  qed
  have "chains_ok (?h\<lparr>hash_next := ?n(t := NULL)\<rparr>) (remove1 t ps) (bs(b := remove1 t (bs b)))"
    unfolding chains_ok_def
  proof (intro allI impI)
    fix c assume c: "c < PID_HASH_BUCKETS"
    note Sc = S [OF c]
    show "distinct ((bs(b := remove1 t (bs b))) c)
      \<and> sseg (hash_next (?h\<lparr>hash_next := ?n(t := NULL)\<rparr>)) ((bs(b := remove1 t (bs b))) c) NULL
      \<and> g_hash_buckets (?h\<lparr>hash_next := ?n(t := NULL)\<rparr>) c = hd0 ((bs(b := remove1 t (bs b))) c) NULL
      \<and> set ((bs(b := remove1 t (bs b))) c)
        = {p \<in> set (remove1 t ps). bucket_for (task_id (?h\<lparr>hash_next := ?n(t := NULL)\<rparr>) p) = c}"
    proof (cases "c = b")
      case True
      have "set (xs @ ys) = set (bs b) - {t}" using B(1) xy by auto
      also have "\<dots> = {p \<in> set (remove1 t ps). bucket_for (task_id h p) = b}" using S [OF b] assms(5) by auto
      finally have e: "set (xs @ ys) = {p \<in> set (remove1 t ps). bucket_for (task_id h p) = b}" .
      have "distinct (xs @ ys)" "?k b = hd0 (xs @ ys) NULL" using B(1,3) U(2) xy by (auto simp: hd0_def)
      with True U(1) r e show ?thesis by simp
    next
      case False
      have x: "x \<noteq> t \<and> (xs \<noteq> [] \<longrightarrow> x \<noteq> last xs)" if "x \<in> set (bs c)" for x
        using that False Sc S [OF b] assms(3) xy last_in_set [of xs] by auto
      then have "sseg (?n(t := NULL)) (bs c) NULL" using Sc by (subst sseg_cong [of _ _ "hash_next h"]) auto
      with False Sc assms(3,5) x show ?thesis by auto
    qed
  qed
  with u show ?thesis by (intro that [of ?h]) simp_all
qed

lemma unlink_global_ok:
  assumes "list_ok h ps" "t \<in> set ps"
  defines "h' \<equiv> unlink_global t h"
  shows "list_ok (if g_global_count h' > 0 then h'\<lparr>g_global_count := g_global_count h' - 1\<rparr> else h') (remove1 t ps)"
proof -
  from assms(1) have d: "distinct ps" "dseg (global_next h) (global_prev h) NULL ps NULL" "g_global_head h = hd0 ps NULL"
    "g_global_tail h = last0 NULL ps" "g_global_count h = of_nat (length ps)" "length ps < 2 ^ 32" by (auto simp: list_ok_def)
  from split_list [OF assms(2)] obtain xs ys where xy: "ps = xs @ t # ys" by blast
  have r: "remove1 t ps = xs @ ys" using d(1) xy by (simp add: remove1_append)
  let ?n = "if global_prev h t \<noteq> NULL then (global_next h)(global_prev h t := global_next h t) else global_next h"
  let ?p = "if global_next h t \<noteq> NULL then (global_prev h)(global_next h t := global_prev h t) else global_prev h"
  note U = dseg_unlink [OF d(2) [unfolded xy] d(1) [unfolded xy] refl refl]
  have nn: "NULL \<notin> set ps" by (rule dseg_nonnull [OF d(2)])
  have pz: "last0 NULL xs \<noteq> NULL \<longleftrightarrow> xs \<noteq> []" "last0 NULL xs \<noteq> t"
    using nn last0_in [of xs NULL] xy d(1) by (cases "xs = []"; auto)+
  have nz: "hd0 ys NULL \<noteq> NULL \<longleftrightarrow> ys \<noteq> []" "hd0 ys NULL \<noteq> t" using nn hd0_in [of ys NULL] xy d(1) by (cases "ys = []"; auto)+
  have n: "global_next h' = ?n(t := NULL)" "global_prev h' = ?p(t := NULL)"
    using U(2,3) pz nz by (auto simp: h'_def unlink_global_def Let_def)
  have "dseg (global_next h') (global_prev h') NULL (xs @ ys) NULL"
    unfolding n by (subst dseg_cong [of _ _ ?n _ ?p]) (use U(1) d(1) xy in auto)
  moreover have "g_global_head h' = hd0 (xs @ ys) NULL" "g_global_tail h' = last0 NULL (xs @ ys)"
    using U(2,3) pz nz d(3,4) xy nn d(1) last0_in [of ys] unfolding h'_def unlink_global_def Let_def
    by (auto simp: hd0_def last0_def split: if_splits)
  moreover have "g_global_count h' = of_nat (Suc (length xs + length ys))"
    using d(5) xy by (simp add: h'_def unlink_global_def Let_def)
  moreover have "(of_nat (Suc (length xs + length ys)) :: u32) > 0"
    using d(6) xy by (simp add: word_less_nat_alt unat_of_nat take_bit_eq_mod del: of_nat_Suc)
  ultimately show ?thesis using d(1,6) xy r by (auto simp: list_ok_def)
qed

lemma unlink_global_frame [simp]:
  "task_id (unlink_global t h) = task_id h" "hash_next (unlink_global t h) = hash_next h"
  "g_hash_buckets (unlink_global t h) = g_hash_buckets h"
  by (simp_all add: unlink_global_def Let_def)

lemma remove_inv:
  assumes "ph_inv h ps" "t \<in> set ps"
  obtains h' where "pid_hash_remove t h = Some h'" "ph_inv h' (remove1 t ps)" "task_id h' = task_id h"
proof -
  from assms(1) obtain bs where bs: "chains_ok h ps bs" and l: "list_ok h ps" and i: "inj_on (task_id h) (set ps)"
    by (auto simp: ph_inv_def)
  have t: "t \<noteq> NULL" using l assms(2) dseg_nonnull by (auto simp: list_ok_def)
  from unlink_bucket_spec [OF bs assms(2) refl t] l obtain h1 where h1:
    "unlink_bucket (bucket_for (task_id h t)) t h = Some h1" "h1 = h\<lparr>hash_next := hash_next h1, g_hash_buckets := g_hash_buckets h1\<rparr>"
    "chains_ok (h1\<lparr>hash_next := (hash_next h1)(t := NULL)\<rparr>) (remove1 t ps)
      (bs(bucket_for (task_id h t) := remove1 t (bs (bucket_for (task_id h t)))))" unfolding list_ok_def by blast
  let ?h = "h1\<lparr>hash_next := (hash_next h1)(t := NULL)\<rparr>"
  from h1(2) have f: "list_ok ?h ps" "task_id ?h = task_id h"
    using l unfolding list_ok_def by (metis (no_types, lifting) pid_hash.select_convs pid_hash.surjective pid_hash.update_convs)+
  let ?h' = "if g_global_count (unlink_global t ?h) > 0
    then (unlink_global t ?h)\<lparr>g_global_count := g_global_count (unlink_global t ?h) - 1\<rparr> else unlink_global t ?h"
  have r: "pid_hash_remove t h = Some ?h'" using t h1(1) by (simp add: pid_hash_remove_def Let_def)
  have "chains_ok ?h' (remove1 t ps) (bs(bucket_for (task_id h t) := remove1 t (bs (bucket_for (task_id h t)))))"
    using h1(3) by (simp add: chains_ok_def)
  moreover have "list_ok ?h' (remove1 t ps)" by (rule unlink_global_ok [OF f(1) assms(2)])
  moreover have "task_id ?h' = task_id h" using f(2) by simp
  moreover have "inj_on (task_id h) (set (remove1 t ps))" using i by (rule inj_on_subset) (rule set_remove1_subset)
  ultimately show ?thesis using that [OF r] unfolding ph_inv_def by metis
qed

section \<open>Queries\<close>

lemma lookup_inv:
  assumes "ph_inv h ps"
  shows "pid_hash_lookup i h = Some (case find (\<lambda>t. task_id h t = i) ps of None \<Rightarrow> NULL | Some t \<Rightarrow> t)"
proof -
  from assms obtain bs where bs: "chains_ok h ps bs" and inj: "inj_on (task_id h) (set ps)" by (auto simp: ph_inv_def)
  let ?b = "bucket_for i"
  from bs bucket_lt [of i] have B: "sseg (hash_next h) (bs ?b) NULL" "g_hash_buckets h ?b = hd0 (bs ?b) NULL"
    "set (bs ?b) = {p \<in> set ps. bucket_for (task_id h p) = ?b}" by (auto simp: chains_ok_def)
  have "find (\<lambda>t. task_id h t = i) (bs ?b) = find (\<lambda>t. task_id h t = i) ps"
  proof (cases "\<exists>t \<in> set ps. task_id h t = i")
    case True
    then obtain t where t: "t \<in> set ps" "task_id h t = i" by blast
    have "find (\<lambda>u. task_id h u = i) xs = Some t" if "set xs \<subseteq> set ps" "t \<in> set xs" for xs
      using that by (induction xs) (use t inj in \<open>auto dest: inj_onD\<close>)
    with t B(3) show ?thesis by auto
  next
    case False
    then show ?thesis using B(3) by (metis (mono_tags, lifting) find_None_iff mem_Collect_eq)
  qed
  then show ?thesis by (simp add: pid_hash_lookup_def find_next_sseg [OF B(1)] B(2))
qed

lemma enum_sseg: "sseg nx xs NULL \<Longrightarrow> enum_from nx fn (hd0 xs NULL) ctx = Some (fold fn xs ctx)"
  by (induction xs arbitrary: ctx) (simp_all add: enum_from.simps)

lemma enumerate_inv: "ph_inv h ps \<Longrightarrow> pid_hash_enumerate fn ctx h = Some (fold fn ps ctx)"
  by (auto simp: ph_inv_def list_ok_def pid_hash_enumerate_def dest: dseg_sseg intro: enum_sseg)

section \<open>Refinement\<close>

datatype ph_op = PH_Insert ptr | PH_Remove ptr

text \<open>The specification: a list of tasks in creation order, and when an operation may be called.\<close>

fun ph_spec :: "ph_op \<Rightarrow> ptr list \<Rightarrow> ptr list" where
  "ph_spec (PH_Insert t) ps = ps @ [t]"
| "ph_spec (PH_Remove t) ps = remove1 t ps"

fun ph_legal :: "(ptr \<Rightarrow> pid) \<Rightarrow> ph_op list \<Rightarrow> ptr list \<Rightarrow> bool" where
  "ph_legal tid [] ps \<longleftrightarrow> True"
| "ph_legal tid (PH_Insert t # ops) ps \<longleftrightarrow> t \<noteq> NULL \<and> tid t \<notin> tid ` set ps \<and> Suc (length ps) < 2 ^ 32 \<and> ph_legal tid ops (ps @ [t])"
| "ph_legal tid (PH_Remove t # ops) ps \<longleftrightarrow> t \<in> set ps \<and> ph_legal tid ops (remove1 t ps)"

fun ph_exec :: "ph_op list \<Rightarrow> pid_hash \<Rightarrow> pid_hash option" where
  "ph_exec [] h = Some h"
| "ph_exec (PH_Insert t # ops) h = ph_exec ops (pid_hash_insert t h)"
| "ph_exec (PH_Remove t # ops) h = (case pid_hash_remove t h of None \<Rightarrow> None | Some h \<Rightarrow> ph_exec ops h)"

lemma ph_exec_inv:
  "ph_inv h ps \<Longrightarrow> ph_legal (task_id h) ops ps
    \<Longrightarrow> \<exists>h'. ph_exec ops h = Some h' \<and> ph_inv h' (fold ph_spec ops ps) \<and> task_id h' = task_id h"
proof (induction ops arbitrary: h ps)
  case (Cons op ops)
  show ?case
  proof (cases op)
    case (PH_Insert t)
    with Cons.prems have "ph_inv (pid_hash_insert t h) (ps @ [t])" by (intro insert_inv) auto
    with PH_Insert Cons.prems Cons.IH [of "pid_hash_insert t h" "ps @ [t]"] show ?thesis by auto
  next
    case (PH_Remove t)
    with Cons.prems have "t \<in> set ps" by simp
    from remove_inv [OF Cons.prems(1) this] obtain h' where "pid_hash_remove t h = Some h'"
      "ph_inv h' (remove1 t ps)" "task_id h' = task_id h" by blast
    with PH_Remove Cons.prems Cons.IH [of h' "remove1 t ps"] show ?thesis by auto
  qed
qed simp

text \<open>
  C28: the task table is a list of tasks. Starting from the empty table, every sequence of insertions
  of new tasks with unused ids and removals of present tasks runs to completion; afterwards a lookup
  returns exactly the task with that id (NULL when there is none), enumeration visits every task once
  in creation order, and the count is their number.
\<close>

theorem pid_hash_refines_list:
  assumes "ph_legal (task_id h) ops []"
  shows "\<exists>h'. ph_exec ops (pid_hash_init h) = Some h'
    \<and> (\<forall>i. pid_hash_lookup i h' = Some (case find (\<lambda>t. task_id h t = i) (fold ph_spec ops []) of None \<Rightarrow> NULL | Some t \<Rightarrow> t))
    \<and> pid_hash_enumerate (\<lambda>t acc. acc @ [t]) [] h' = Some (fold ph_spec ops [])
    \<and> unat (pid_hash_count h') = length (fold ph_spec ops [])"
proof -
  have "task_id (pid_hash_init h) = task_id h" by (simp add: pid_hash_init_def)
  with ph_exec_inv [OF init_inv [of h], of ops] assms obtain h' where h':
    "ph_exec ops (pid_hash_init h) = Some h'" "ph_inv h' (fold ph_spec ops [])" "task_id h' = task_id h" by auto
  have "fold (\<lambda>t acc. acc @ [t]) xs ys = ys @ xs" for xs ys :: "ptr list" by (induction xs arbitrary: ys) simp_all
  moreover have "unat (g_global_count h') = length (fold ph_spec ops [])"
    using h'(2) by (simp add: ph_inv_def list_ok_def unat_of_nat take_bit_eq_mod)
  ultimately show ?thesis
    using h' lookup_inv [OF h'(2)] enumerate_inv [OF h'(2), of "\<lambda>t acc. acc @ [t]" "[]"]
    by (intro exI [of _ h']) (simp add: pid_hash_count_def)
qed

text \<open>Two tasks in one bucket, one of them removed.\<close>

definition demo_pids :: pid_hash where
  "demo_pids = \<lparr>task_id = (\<lambda>t. if t = 0x100 then 1 else if t = 0x200 then 2049 else 7), hash_next = (\<lambda>_. 0x300),
    global_next = (\<lambda>_. 0), global_prev = (\<lambda>_. 0), g_hash_buckets = (\<lambda>_. 0x300), g_global_head = 0, g_global_tail = 0,
    g_global_count = 5\<rparr>"

lemma pid_hash_refines_list_witness:
  "\<exists>h'. ph_exec [PH_Insert 0x100, PH_Insert 0x200, PH_Remove 0x100] (pid_hash_init demo_pids) = Some h'
    \<and> pid_hash_lookup 2049 h' = Some 0x200 \<and> pid_hash_lookup 1 h' = Some NULL \<and> unat (pid_hash_count h') = 1"
proof -
  have "ph_legal (task_id demo_pids) [PH_Insert 0x100, PH_Insert 0x200, PH_Remove 0x100] []" by (simp add: demo_pids_def)
  from pid_hash_refines_list [OF this] show ?thesis by (auto simp: demo_pids_def)
qed

end
