(* ===== verification/Sched_State.thy ===== *)
theory Sched_State
  imports Runq Pid_Hash
begin

text \<open>
  The state of the scheduler and the waiter lists (arch/x86_64/cpu/sched/sched.h and sched.c: entering a
  waiter list, waking one or all waiters, the doorbell interrupt, waking the parent of a task that
  ends, orphans, affinity). The fields of \<^verbatim>\<open>task_struct\<close> are functions from task pointers that extend
  the state of the run queues. A waiter list is named by where its head is stored: a pointer given
  by the caller, the field \<^verbatim>\<open>wait_for_child_head\<close> of a task, or the queue of the stream worker. The
  theory defines where a task may be according to its state, and shows that waking keeps it.
\<close>

section \<open>Model\<close>

abbreviation MAX_TASKS :: nat where "MAX_TASKS \<equiv> 10240"
abbreviation MAX_SIGNALS :: nat where "MAX_SIGNALS \<equiv> 16"
definition SIGKILL :: int where "SIGKILL = 2"
definition SIG_DFL :: u64 where "SIG_DFL = 0"
definition SIG_IGN :: u64 where "SIG_IGN = 1"

type_synonym frame = "u64 list"

datatype list_head = ListHead ptr | ChildHead ptr | WorkerHead

text \<open>Interrupts sent to other processors and audit records.\<close>

datatype sched_event = Ipi nat | AuditCpu pid u64 u64 | AuditMem pid u64 u64 | AuditIo pid u64 u64 | AuditEpoch u32 u32
  | AuditRate pid u64 u64

record sched_state = runq_state +
  ph :: pid_hash
  task_ptrs :: "nat \<Rightarrow> ptr"
  next_task_id :: nat
  current_task_index :: nat
  parent_id :: "ptr \<Rightarrow> pid"
  exit_status :: "ptr \<Rightarrow> int"
  is_idle :: "ptr \<Rightarrow> bool"
  task_regs :: "ptr \<Rightarrow> frame"
  kernel_stack_top :: "ptr \<Rightarrow> u64"
  task_cr3 :: "ptr \<Rightarrow> u64"
  pending_signals :: "ptr \<Rightarrow> u32"
  signal_handlers :: "ptr \<Rightarrow> nat \<Rightarrow> u64"
  wait_next :: "ptr \<Rightarrow> ptr"
  wait_reason :: "ptr \<Rightarrow> u8"
  wait_channel :: "ptr \<Rightarrow> ptr"
  wait_result :: "ptr \<Rightarrow> int"
  deadline_tsc :: "ptr \<Rightarrow> u64"
  wait_heads :: "list_head \<Rightarrow> ptr"
  last_ran_tsc :: "ptr \<Rightarrow> u64"
  last_starvation_epoch :: "ptr \<Rightarrow> u64"
  barrier_next :: "ptr \<Rightarrow> ptr"
  barrier_flag :: bool
  barrier_acks :: u32
  parked_head :: ptr
  owner_task :: ptr
  barrier_seq :: u32
  mem_limit_pages :: "ptr \<Rightarrow> u64"
  mem_pages_used :: "ptr \<Rightarrow> u64"
  cpu_time_slice_budget_ns :: "ptr \<Rightarrow> u64"
  cpu_budget_remaining_ns :: "ptr \<Rightarrow> u64"
  io_rate_bytes_per_sec :: "ptr \<Rightarrow> u64"
  io_tokens :: "ptr \<Rightarrow> u64"
  io_pending_head :: "ptr \<Rightarrow> ptr"
  syscall_rate_limit_per_sec :: "ptr \<Rightarrow> u64"
  syscall_count_sampled :: "ptr \<Rightarrow> u64"
  last_rate_refill_tsc :: "ptr \<Rightarrow> u64"
  syscall_rate_exceeded_count :: "ptr \<Rightarrow> u64"
  syscall_rate_hard_mode :: "ptr \<Rightarrow> u8"
  job_len :: "ptr \<Rightarrow> u64"
  worker_next :: "ptr \<Rightarrow> ptr"
  worker_head :: ptr
  worker_tail :: ptr
  worker_count :: u32
  sched_lock_owner :: "nat option"
  g_timer_ticks :: u64
  g_tsc_ready :: bool
  g_ns_per_tsc_fp32 :: u64
  cpu_frame :: "nat \<Rightarrow> frame"
  tss_rsp0 :: "nat \<Rightarrow> u64"
  cpu_cr3 :: "nat \<Rightarrow> u64"
  schedule_count :: u64
  switch_count :: u64
  sched_events :: "sched_event list"

definition log_ev :: "sched_event \<Rightarrow> 'a sched_state_scheme \<Rightarrow> 'a sched_state_scheme" where
  "log_ev e s = s\<lparr>sched_events := sched_events s @ [e]\<rparr>"

definition tsc_to_ns :: "'a sched_state_scheme \<Rightarrow> u64 \<Rightarrow> u64" where
  "tsc_to_ns s tsc_delta = of_nat ((unat tsc_delta * unat (g_ns_per_tsc_fp32 s)) div 2 ^ 32)"

definition sched_get_current_task :: "nat \<Rightarrow> 'a sched_state_scheme \<Rightarrow> ptr" where
  "sched_get_current_task cpu s =
    (if rq_current (runqs s cpu) \<noteq> NULL then rq_current (runqs s cpu)
     else if current_task_index s \<ge> MAX_TASKS \<or> current_task_index s \<ge> next_task_id s then NULL
     else task_ptrs s (current_task_index s))"

definition sched_doorbell_target_cpu :: "'a sched_state_scheme \<Rightarrow> ptr \<Rightarrow> nat" where
  "sched_doorbell_target_cpu s t =
    (if cpu_pinned s t \<ge> 0 \<and> nat (cpu_pinned s t) < g_cpu_count s then nat (cpu_pinned s t)
     else if last_ran_cpu s t \<noteq> 0xFFFFFFFF \<and> unat (last_ran_cpu s t) < g_cpu_count s then unat (last_ran_cpu s t)
     else 0)"

definition sched_maybe_doorbell_ipi :: "nat \<Rightarrow> nat \<Rightarrow> 'a sched_state_scheme \<Rightarrow> 'a sched_state_scheme" where
  "sched_maybe_doorbell_ipi self target_cpu s =
    (if target_cpu \<ge> g_cpu_count s then s
     else if target_cpu = self then s
     else if rq_current (runqs s target_cpu) \<noteq> idle_task (runqs s target_cpu) \<or> idle_task (runqs s target_cpu) = NULL then s
     else log_ev (Ipi target_cpu) s)"

definition ns_to_ticks :: "u64 \<Rightarrow> u64" where
  "ns_to_ticks ns = (ns + 9999999) div 10000000"

text \<open>
  The first half of \<^verbatim>\<open>sched_block_on_channel\<close>, up to the software interrupt that gives the processor
  away: the new state, or \<open>None\<close> for the early return of \<open>-1\<close>.
\<close>

definition block_enter :: "nat \<Rightarrow> ptr \<Rightarrow> u8 \<Rightarrow> u64 \<Rightarrow> list_head \<Rightarrow> 'a sched_state_scheme \<Rightarrow> 'a sched_state_scheme option" where
  "block_enter self chan dir timeout_ns h s =
    (let cur = sched_get_current_task self s in
     if cur = NULL \<or> h = ListHead NULL then None
     else
      let deadline_tick =
            (if timeout_ns \<noteq> 0 \<and> timeout_ns \<noteq> 0xFFFFFFFFFFFFFFFF
             then let dt = ns_to_ticks timeout_ns; dt = (if dt = 0 then 1 else dt) in g_timer_ticks s + dt
             else 0);
          s = s\<lparr>wait_next := (wait_next s)(cur := wait_heads s h)\<rparr>;
          s = s\<lparr>wait_heads := (wait_heads s)(h := cur)\<rparr>;
          s = s\<lparr>wait_reason := (wait_reason s)(cur := dir)\<rparr>;
          s = s\<lparr>wait_channel := (wait_channel s)(cur := chan)\<rparr>;
          s = s\<lparr>wait_result := (wait_result s)(cur := 0)\<rparr>;
          s = s\<lparr>deadline_tsc := (deadline_tsc s)(cur := deadline_tick)\<rparr>
      in Some (set_state cur TASK_STATE_CHAN_WAIT s))"

text \<open>\<^verbatim>\<open>sched_wake_one_on_channel\<close> on the task structures; the result is the waiter taken off the list.\<close>

definition wake_one :: "nat \<Rightarrow> list_head \<Rightarrow> int \<Rightarrow> 'a sched_state_scheme \<Rightarrow> ptr \<times> 'a sched_state_scheme" where
  "wake_one self h result s =
    (if h = ListHead NULL then (NULL, s)
     else
      let t = wait_heads s h in
      if t = NULL then (NULL, s)
      else
       let s = s\<lparr>wait_heads := (wait_heads s)(h := wait_next s t)\<rparr>;
           s = s\<lparr>wait_next := (wait_next s)(t := NULL)\<rparr>;
           s = s\<lparr>wait_result := (wait_result s)(t := result)\<rparr>;
           waking = (tstate s t = TASK_STATE_CHAN_WAIT);
           s = (if waking then set_state t TASK_STATE_READY s else s)
       in (t, if waking
              then let s = sched_enqueue_ready t s in sched_maybe_doorbell_ipi self (sched_doorbell_target_cpu s t) s
              else s))"

text \<open>
  \<^verbatim>\<open>sched_wake_all_on_channel\<close>: the waiters go from the list into a chain that is linked through
  \<open>runq_next\<close>, then from the chain into the run queues.
\<close>

partial_function (option) drain_waiters ::
  "ptr \<Rightarrow> int \<Rightarrow> ptr \<Rightarrow> ptr \<Rightarrow> int \<Rightarrow> 'a sched_state_scheme \<Rightarrow> (ptr \<times> int \<times> 'a sched_state_scheme) option" where
  "drain_waiters t result to_wake_head to_wake_tail cnt s =
    (if t = NULL then Some (to_wake_head, cnt, s)
     else
      let nx = wait_next s t;
          s = s\<lparr>wait_next := (wait_next s)(t := NULL)\<rparr>;
          s = s\<lparr>wait_result := (wait_result s)(t := result)\<rparr>
      in if tstate s t = TASK_STATE_CHAN_WAIT then
           let s = set_state t TASK_STATE_READY s;
               s = set_next t NULL s;
               s = (if to_wake_tail \<noteq> NULL then set_next to_wake_tail t s else s)
           in drain_waiters nx result (if to_wake_tail \<noteq> NULL then to_wake_head else t) t (cnt + 1) s
         else drain_waiters nx result to_wake_head to_wake_tail (cnt + 1) s)"

declare drain_waiters.simps [code]

partial_function (option) enqueue_chain :: "ptr \<Rightarrow> 'a sched_state_scheme \<Rightarrow> 'a sched_state_scheme option" where
  "enqueue_chain w s =
    (if w = NULL then Some s
     else let nx = runq_next s w; s = set_next w NULL s in enqueue_chain nx (sched_enqueue_ready w s))"

declare enqueue_chain.simps [code]

definition wake_all :: "list_head \<Rightarrow> int \<Rightarrow> 'a sched_state_scheme \<Rightarrow> (int \<times> 'a sched_state_scheme) option" where
  "wake_all h result s =
    (if h = ListHead NULL then Some (0, s)
     else
      let t = wait_heads s h;
          s = s\<lparr>wait_heads := (wait_heads s)(h := NULL)\<rparr>
      in case drain_waiters t result NULL NULL 0 s of
           None \<Rightarrow> None
         | Some (w, cnt, s) \<Rightarrow> map_option (\<lambda>s. (cnt, s)) (enqueue_chain w s))"

definition wake_waiting_parent :: "nat \<Rightarrow> pid \<Rightarrow> 'a sched_state_scheme \<Rightarrow> 'a sched_state_scheme" where
  "wake_waiting_parent self child_id s =
    (if child_id < 0 \<or> nat child_id \<ge> next_task_id s \<or> nat child_id \<ge> MAX_TASKS then s
     else
      let child = task_ptrs s (nat child_id) in
      if child = NULL then s
      else
       let p = parent_id s child in
       if p < 0 \<or> nat p \<ge> next_task_id s then s
       else
        let parent = task_ptrs s (nat p) in
        if parent = NULL then s else snd (wake_one self (ChildHead parent) 0 s))"

fun orphan_from :: "pid \<Rightarrow> nat list \<Rightarrow> 'a sched_state_scheme \<Rightarrow> 'a sched_state_scheme" where
  "orphan_from p [] s = s"
| "orphan_from p (i # is) s =
    (if i \<ge> MAX_TASKS then s
     else if task_ptrs s i = NULL then orphan_from p is s
     else if parent_id s (task_ptrs s i) = p \<and> tstate s (task_ptrs s i) \<noteq> TASK_STATE_ZOMBIE
     then orphan_from p is (s\<lparr>parent_id := (parent_id s)(task_ptrs s i := 0)\<rparr>)
     else orphan_from p is s)"

definition sched_orphan_children :: "pid \<Rightarrow> 'a sched_state_scheme \<Rightarrow> 'a sched_state_scheme" where
  "sched_orphan_children p s = orphan_from p [0..<next_task_id s] s"

fun zombie_child_from :: "pid \<Rightarrow> 'a sched_state_scheme \<Rightarrow> nat list \<Rightarrow> (nat \<times> int) option" where
  "zombie_child_from p s [] = None"
| "zombie_child_from p s (i # is) =
    (if i \<ge> MAX_TASKS then None
     else if task_ptrs s i = NULL then zombie_child_from p s is
     else if tstate s (task_ptrs s i) = TASK_STATE_ZOMBIE \<and> parent_id s (task_ptrs s i) = p
     then Some (i, exit_status s (task_ptrs s i))
     else zombie_child_from p s is)"

text \<open>The index of a zombie child and its exit status, \<open>None\<close> for \<open>-1\<close>.\<close>

definition sched_check_children :: "pid \<Rightarrow> 'a sched_state_scheme \<Rightarrow> (nat \<times> int) option" where
  "sched_check_children p s = zombie_child_from p s [0..<next_task_id s]"

definition task_is_current_on_any_cpu :: "ptr \<Rightarrow> 'a sched_state_scheme \<Rightarrow> bool" where
  "task_is_current_on_any_cpu t s \<longleftrightarrow> t \<noteq> NULL \<and> list_ex (\<lambda>i. rq_current (runqs s i) = t) [0..<g_cpu_count s]"

text \<open>
  The tests at the entry of \<^verbatim>\<open>sched_reap_zombie\<close>: \<open>Inl\<close> the code it returns at once, or \<open>Inr\<close> the task
  it goes on to free.
\<close>

definition reap_guard :: "pid \<Rightarrow> 'a sched_state_scheme \<Rightarrow> ptr cres" where
  "reap_guard i s =
    (if i < 0 \<or> nat i \<ge> next_task_id s \<or> nat i \<ge> MAX_TASKS then Inl 0
     else if task_ptrs s (nat i) = NULL then Inl 0
     else if tstate s (task_ptrs s (nat i)) \<noteq> TASK_STATE_ZOMBIE then Inl 0
     else if task_is_current_on_any_cpu (task_ptrs s (nat i)) s then Inl (-11)
     else Inr (task_ptrs s (nat i)))"

fun ctz_from :: "u32 \<Rightarrow> nat list \<Rightarrow> nat" where
  "ctz_from w [] = 32"
| "ctz_from w (i # is) = (if bit w i then i else ctz_from w is)"

definition sched_set_affinity :: "pid \<Rightarrow> u32 \<Rightarrow> 'a sched_state_scheme \<Rightarrow> int \<times> 'a sched_state_scheme" where
  "sched_set_affinity i m s =
    (if i < 0 \<or> nat i \<ge> next_task_id s \<or> nat i \<ge> MAX_TASKS then (-22, s)
     else if m = 0 then (-22, s)
     else if task_ptrs s (nat i) = NULL then (-22, s)
     else
      let target = task_ptrs s (nat i) in
      if tstate s target = TASK_STATE_ZOMBIE then (-22, s)
      else
       let b = ctz_from m [0..<32] in
       if m \<noteq> 0xFFFFFFFF \<and> b \<ge> g_cpu_count s then (-22, s)
       else
        let new_pinned = (if m = 0xFFFFFFFF then -1 else int b) in
        if is_idle s target then (-1, s)
        else (0, s\<lparr>cpu_pinned := (cpu_pinned s)(target := new_pinned)\<rparr>))"

section \<open>The queue of the stream worker\<close>

definition stream_worker_enqueue :: "nat \<Rightarrow> ptr \<Rightarrow> 'a sched_state_scheme \<Rightarrow> 'a sched_state_scheme" where
  "stream_worker_enqueue self job s =
    (if job = NULL then s
     else
      let s = s\<lparr>worker_next := (worker_next s)(job := NULL)\<rparr>;
          s = (if worker_tail s \<noteq> NULL then s\<lparr>worker_next := (worker_next s)(worker_tail s := job)\<rparr>
               else s\<lparr>worker_head := job\<rparr>);
          s = s\<lparr>worker_tail := job\<rparr>;
          s = s\<lparr>worker_count := worker_count s + 1\<rparr>
      in snd (wake_one self WorkerHead 0 s))"

definition worker_pop :: "'a sched_state_scheme \<Rightarrow> ptr \<times> 'a sched_state_scheme" where
  "worker_pop s =
    (let job = worker_head s in
     if job = NULL then (job, s)
     else
      let s = s\<lparr>worker_head := worker_next s job\<rparr>;
          s = (if worker_head s = NULL then s\<lparr>worker_tail := NULL\<rparr> else s);
          s = s\<lparr>worker_count := worker_count s - 1\<rparr>
      in (job, s\<lparr>worker_next := (worker_next s)(job := NULL)\<rparr>))"

section \<open>Where a task is\<close>

definition tasks :: "'a sched_state_scheme \<Rightarrow> ptr set" where
  "tasks s = task_ptrs s ` {..<next_task_id s} - {NULL}"

abbreviation cur_on :: "'a sched_state_scheme \<Rightarrow> nat \<Rightarrow> ptr" where
  "cur_on s c \<equiv> rq_current (runqs s c)"

abbreviation idle_on :: "'a sched_state_scheme \<Rightarrow> nat \<Rightarrow> ptr" where
  "idle_on s c \<equiv> idle_task (runqs s c)"

text \<open>
  \<open>Q\<close> and \<open>S\<close> are the ready and starved tasks of every processor, \<open>P\<close> the tasks parked by a snapshot
  barrier, \<open>A\<close> the processors that run a task. The state of a task says where it is; a task that has
  been killed stays where it was.
\<close>

definition states_ok :: "'a sched_state_scheme \<Rightarrow> (nat \<Rightarrow> ptr list) \<Rightarrow> (nat \<Rightarrow> ptr list) \<Rightarrow> ptr list \<Rightarrow> nat set \<Rightarrow> bool" where
  "states_ok s Q S P A \<longleftrightarrow>
    (\<forall>c < g_cpu_count s. \<forall>t \<in> set (Q c). tstate s t \<in> {TASK_STATE_READY, TASK_STATE_ZOMBIE})
    \<and> (\<forall>c < g_cpu_count s. \<forall>t \<in> set (S c). tstate s t \<in> {TASK_STATE_STARVED, TASK_STATE_ZOMBIE})
    \<and> (\<forall>t \<in> set P. tstate s t \<in> {TASK_STATE_BARRIER_WAIT, TASK_STATE_ZOMBIE})
    \<and> (\<forall>c \<in> A. tstate s (cur_on s c) \<in> {TASK_STATE_RUNNING, TASK_STATE_ZOMBIE})
    \<and> (\<forall>c < g_cpu_count s. tstate s (idle_on s c) \<in> {TASK_STATE_READY, TASK_STATE_RUNNING})
    \<and> (\<forall>t. tstate s t \<in> {TASK_STATE_CHAN_WAIT, TASK_STATE_BLOCKED} \<longrightarrow> t \<in> tasks s \<and> \<not> is_idle s t)"

definition placed_ok :: "'a sched_state_scheme \<Rightarrow> (nat \<Rightarrow> ptr list) \<Rightarrow> (nat \<Rightarrow> ptr list) \<Rightarrow> ptr list \<Rightarrow> nat set \<Rightarrow> bool" where
  "placed_ok s Q S P A \<longleftrightarrow> A \<subseteq> {..<g_cpu_count s} \<and> inj_on (cur_on s) A
    \<and> queued (g_cpu_count s) Q S \<inter> set P = {} \<and> cur_on s ` A \<inter> (queued (g_cpu_count s) Q S \<union> set P) = {}
    \<and> queued (g_cpu_count s) Q S \<union> set P \<union> cur_on s ` A \<subseteq> tasks s
    \<and> (\<forall>t \<in> queued (g_cpu_count s) Q S \<union> set P. \<not> is_idle s t)
    \<and> (\<forall>c < g_cpu_count s. idle_on s c \<in> tasks s \<and> is_idle s (idle_on s c)) \<and> inj_on (idle_on s) {..<g_cpu_count s}
    \<and> (\<forall>c \<in> A. is_idle s (cur_on s c) \<longrightarrow> cur_on s c = idle_on s c)"

definition sched_ok :: "'a sched_state_scheme \<Rightarrow> (nat \<Rightarrow> ptr list) \<Rightarrow> (nat \<Rightarrow> ptr list) \<Rightarrow> ptr list \<Rightarrow> nat set \<Rightarrow> bool" where
  "sched_ok s Q S P A \<longleftrightarrow> 0 < g_cpu_count s \<and> next_task_id s \<le> MAX_TASKS \<and> queues_ok s Q S
    \<and> sseg (barrier_next s) P NULL \<and> parked_head s = hd0 P NULL \<and> distinct P \<and> states_ok s Q S P A \<and> placed_ok s Q S P A"

lemmas sched_ok_defs = sched_ok_def states_ok_def placed_ok_def

definition same_rq :: "runq \<Rightarrow> runq \<Rightarrow> bool" where
  "same_rq q q' \<longleftrightarrow> ready_head q' = ready_head q \<and> ready_tail q' = ready_tail q \<and> ready_count q' = ready_count q
    \<and> starved_head q' = starved_head q \<and> rq_current q' = rq_current q \<and> idle_task q' = idle_task q"

text \<open>The fields the invariant reads.\<close>

definition same_core :: "'a sched_state_scheme \<Rightarrow> 'a sched_state_scheme \<Rightarrow> bool" where
  "same_core s s' \<longleftrightarrow> tstate s' = tstate s \<and> runq_next s' = runq_next s \<and> runq_prev s' = runq_prev s \<and> g_cpu_count s' = g_cpu_count s
    \<and> (\<forall>d. same_rq (runqs s d) (runqs s' d)) \<and> task_ptrs s' = task_ptrs s \<and> next_task_id s' = next_task_id s \<and> is_idle s' = is_idle s
    \<and> barrier_next s' = barrier_next s \<and> parked_head s' = parked_head s"

lemma same_rq_refl [simp]: "same_rq q q"
  by (simp add: same_rq_def)

lemma same_core_queues: "same_core s s' \<Longrightarrow> queues_ok s' Q S = queues_ok s Q S"
  by (simp add: same_core_def queues_ok_def rq_ok_def same_rq_def)

lemma same_core_ok:
  assumes "same_core s s'"
  shows "sched_ok s' Q S P A = sched_ok s Q S P A"
proof -
  have f: "cur_on s' = cur_on s" "idle_on s' = idle_on s" "g_cpu_count s' = g_cpu_count s" "tasks s' = tasks s" "tstate s' = tstate s"
    "is_idle s' = is_idle s" "barrier_next s' = barrier_next s" "parked_head s' = parked_head s" "next_task_id s' = next_task_id s"
    using assms by (auto simp: same_core_def same_rq_def tasks_def fun_eq_iff)
  have g: "cur_on s' c = cur_on s c" "idle_on s' c = idle_on s c" for c using f(1,2) by (simp_all add: fun_eq_iff)
  show ?thesis unfolding sched_ok_defs f g same_core_queues [OF assms] ..
qed

text \<open>The extension of the run queue state is not touched by the operations on run queues.\<close>

lemma sched_ext:
  assumes "runq_state.more s' = runq_state.more s"
  shows "task_ptrs s' = task_ptrs s" "next_task_id s' = next_task_id s" "is_idle s' = is_idle s" "barrier_next s' = barrier_next s"
    "parked_head s' = parked_head s" "pending_signals s' = pending_signals s" "barrier_flag s' = barrier_flag s" "owner_task s' = owner_task s"
    "task_regs s' = task_regs s" "cpu_frame s' = cpu_frame s" "sched_lock_owner s' = sched_lock_owner s" "tasks s' = tasks s"
    "wait_heads s' = wait_heads s" "wait_next s' = wait_next s" "next_task_id s' = next_task_id s" "ph s' = ph s" "deadline_tsc s' = deadline_tsc s"
  using assms by (cases s; cases s'; simp add: tasks_def)+

lemma sched_ext_io:
  assumes "runq_state.more s' = runq_state.more s"
  shows "worker_next s' = worker_next s" "io_pending_head s' = io_pending_head s" "worker_head s' = worker_head s" "worker_tail s' = worker_tail s"
    "io_tokens s' = io_tokens s" "job_len s' = job_len s" "io_rate_bytes_per_sec s' = io_rate_bytes_per_sec s" "worker_count s' = worker_count s"
    "cpu_time_slice_budget_ns s' = cpu_time_slice_budget_ns s" "cpu_budget_remaining_ns s' = cpu_budget_remaining_ns s"
  using assms by (cases s; cases s'; simp)+

lemma enqueue_more: "runq_state.more (sched_enqueue_ready t s) = runq_state.more s"
  by (simp add: sched_enqueue_ready_def)

lemmas enqueue_ext_io [simp] = sched_ext_io [OF enqueue_more]

lemma tasks_bound:
  assumes "sched_ok s Q S P A" "c < g_cpu_count s"
  shows "length (Q c) + length (S c) \<le> MAX_TASKS"
proof -
  have "distinct (Q c @ S c)" "set (Q c @ S c) \<subseteq> tasks s"
    using assms queues_okD(1) [of s Q S c] by (auto simp: sched_ok_def placed_ok_def rq_ok_def queued_def on_cpu_def)
  then have "length (Q c @ S c) \<le> card (tasks s)"
    by (metis card_mono distinct_card finite_Diff finite_imageI finite_lessThan tasks_def)
  also have "\<dots> \<le> card (task_ptrs s ` {..<next_task_id s})" unfolding tasks_def by (intro card_mono) auto
  also have "\<dots> \<le> next_task_id s" using card_image_le [of "{..<next_task_id s}" "task_ptrs s"] by simp
  also have "\<dots> \<le> MAX_TASKS" using assms(1) by (simp add: sched_ok_def)
  finally show ?thesis by simp
qed

text \<open>A task that is not anywhere.\<close>

definition unplaced :: "'a sched_state_scheme \<Rightarrow> (nat \<Rightarrow> ptr list) \<Rightarrow> (nat \<Rightarrow> ptr list) \<Rightarrow> ptr list \<Rightarrow> nat set \<Rightarrow> ptr \<Rightarrow> bool" where
  "unplaced s Q S P A t \<longleftrightarrow> t \<in> tasks s \<and> \<not> is_idle s t \<and> t \<notin> queued (g_cpu_count s) Q S \<union> set P \<union> cur_on s ` A"

lemma states_okD:
  assumes "sched_ok s Q S P A"
  shows "t \<in> queued (g_cpu_count s) Q S \<Longrightarrow> tstate s t \<in> {TASK_STATE_READY, TASK_STATE_STARVED, TASK_STATE_ZOMBIE}"
    "t \<in> set P \<Longrightarrow> tstate s t \<in> {TASK_STATE_BARRIER_WAIT, TASK_STATE_ZOMBIE}"
    "t \<in> cur_on s ` A \<Longrightarrow> tstate s t \<in> {TASK_STATE_RUNNING, TASK_STATE_ZOMBIE}"
    "tstate s t \<in> {TASK_STATE_CHAN_WAIT, TASK_STATE_BLOCKED} \<Longrightarrow> t \<in> tasks s \<and> \<not> is_idle s t"
proof -
  assume "t \<in> queued (g_cpu_count s) Q S"
  then obtain c where "c < g_cpu_count s" "t \<in> set (Q c) \<or> t \<in> set (S c)" by (auto simp: queued_def on_cpu_def)
  then show "tstate s t \<in> {TASK_STATE_READY, TASK_STATE_STARVED, TASK_STATE_ZOMBIE}" using assms unfolding sched_ok_def states_ok_def by blast
qed (use assms in \<open>unfold sched_ok_def states_ok_def, blast+\<close>)

lemma waiting_unplaced:
  assumes "sched_ok s Q S P A" "tstate s t \<in> {TASK_STATE_CHAN_WAIT, TASK_STATE_BLOCKED}"
  shows "unplaced s Q S P A t"
  using states_okD [OF assms(1), of t] assms(2) unfolding unplaced_def by auto

lemma set_state_ok:
  assumes "sched_ok s Q S P A" "unplaced s Q S P A t"
  shows "sched_ok (set_state t x s) Q S P A"
proof -
  have i: "t \<noteq> idle_on s c" if "c < g_cpu_count s" for c using assms that by (auto simp: unplaced_def sched_ok_def placed_ok_def)
  have q: "queues_ok (set_state t x s) Q S = queues_ok s Q S" by (simp add: queues_ok_def rq_ok_def set_state_def)
  have t: "tasks (set_state t x s) = tasks s" by (simp add: tasks_def set_state_def)
  show ?thesis using assms i unfolding sched_ok_defs q t unplaced_def
    by (auto simp: set_state_def queued_def on_cpu_def)
qed

lemma target_lt: "0 < g_cpu_count s \<Longrightarrow> sched_target_cpu s t < g_cpu_count s"
  by (simp add: sched_target_cpu_def)

lemma enqueue_ok:
  assumes ok: "sched_ok s Q S P A" and t: "unplaced s Q S P A t"
  defines "c \<equiv> sched_target_cpu s t"
  shows "sched_ok (sched_enqueue_ready t s) (Q(c := Q c @ [t])) S P A" "c < g_cpu_count s"
proof -
  let ?s = "sched_enqueue_ready t s" and ?Q = "Q(c := Q c @ [t])"
  show c: "c < g_cpu_count s" unfolding c_def by (rule target_lt) (use ok in \<open>simp add: sched_ok_def\<close>)
  have t0: "t \<noteq> NULL" using t by (auto simp: unplaced_def tasks_def)
  have e: "?s = runq_enqueue_ready c t s" using t0 by (simp add: sched_enqueue_ready_def c_def)
  have q: "queues_ok ?s ?Q S" unfolding e
    by (rule enqueue_queues) (use ok c t t0 tasks_bound [OF ok c] in \<open>auto simp: sched_ok_def unplaced_def\<close>)
  have "runq_state.more ?s = runq_state.more s" unfolding e by simp
  note x = sched_ext [OF this]
  have f: "g_cpu_count ?s = g_cpu_count s" "tstate ?s = (tstate s)(t := TASK_STATE_READY)" "cur_on ?s d = cur_on s d" "idle_on ?s d = idle_on s d" for d
    unfolding e using t0 by simp_all
  have qd: "queued n ?Q S = (if c < n then insert t (queued n Q S) else queued n Q S)" for n
    by (auto simp: queued_def on_cpu_def split: if_splits)
  have i: "t \<noteq> idle_on s d" if "d < g_cpu_count s" for d using ok t that by (auto simp: unplaced_def sched_ok_def placed_ok_def)
  have "states_ok ?s ?Q S P A" using ok t i unfolding sched_ok_def states_ok_def f x unplaced_def by (auto simp: queued_def on_cpu_def)
  moreover have "placed_ok ?s ?Q S P A" using ok t c unfolding sched_ok_def placed_ok_def f x qd unplaced_def by auto
  ultimately show "sched_ok ?s ?Q S P A" using ok q unfolding sched_ok_def f x by blast
qed

section \<open>Waking\<close>

text \<open>What waking leaves alone: a waiting task may become ready, nothing else happens to the tasks.\<close>

definition wakes :: "'a sched_state_scheme \<Rightarrow> 'a sched_state_scheme \<Rightarrow> bool" where
  "wakes s s' \<longleftrightarrow> g_cpu_count s' = g_cpu_count s \<and> (\<forall>c. cur_on s' c = cur_on s c \<and> idle_on s' c = idle_on s c)
    \<and> is_idle s' = is_idle s \<and> task_ptrs s' = task_ptrs s \<and> next_task_id s' = next_task_id s \<and> pending_signals s' = pending_signals s
    \<and> barrier_flag s' = barrier_flag s \<and> owner_task s' = owner_task s \<and> task_regs s' = task_regs s \<and> cpu_frame s' = cpu_frame s
    \<and> sched_lock_owner s' = sched_lock_owner s
    \<and> (\<forall>t. tstate s' t = tstate s t \<or> tstate s t = TASK_STATE_CHAN_WAIT \<and> tstate s' t = TASK_STATE_READY)"

definition grows :: "(nat \<Rightarrow> ptr list) \<Rightarrow> (nat \<Rightarrow> ptr list) \<Rightarrow> bool" where
  "grows Q Q' \<longleftrightarrow> (\<forall>c. \<exists>ys. Q' c = Q c @ ys)"

lemma wakes_refl [simp]: "wakes s s" and grows_refl [simp]: "grows Q Q"
  by (simp_all add: wakes_def grows_def)

lemma wakes_trans: "wakes s s' \<Longrightarrow> wakes s' s'' \<Longrightarrow> wakes s s''"
  unfolding wakes_def by (intro conjI allI; elim conjE; metis task_state.distinct)

lemma grows_trans: "grows Q Q' \<Longrightarrow> grows Q' Q'' \<Longrightarrow> grows Q Q''"
  unfolding grows_def by (metis append.assoc)

lemma grows_snoc [simp]: "grows Q (Q(c := Q c @ xs))"
  by (simp add: grows_def)

lemma enqueue_wakes:
  assumes "t \<noteq> NULL" "tstate s t \<in> {TASK_STATE_READY, TASK_STATE_CHAN_WAIT}"
  shows "wakes s (sched_enqueue_ready t s)"
proof -
  let ?c = "sched_target_cpu s t"
  have "sched_enqueue_ready t s = runq_enqueue_ready ?c t s" using assms(1) by (simp add: sched_enqueue_ready_def)
  moreover have "runq_state.more (runq_enqueue_ready ?c t s) = runq_state.more s" by simp
  note sched_ext [OF this]
  ultimately show ?thesis using assms by (auto simp: wakes_def)
qed

text \<open>A step that wakes: the invariant holds with the same tasks and some more ready ones.\<close>

definition wake_step :: "'a sched_state_scheme \<Rightarrow> 'a sched_state_scheme \<Rightarrow> bool" where
  "wake_step s s' \<longleftrightarrow> wakes s s' \<and> (\<forall>Q S P A. sched_ok s Q S P A \<longrightarrow> (\<exists>Q'. sched_ok s' Q' S P A \<and> grows Q Q'))"

lemma wake_step_trans: "wake_step s s' \<Longrightarrow> wake_step s' s'' \<Longrightarrow> wake_step s s''"
  unfolding wake_step_def by (meson wakes_trans grows_trans)

lemma wake_step_core: "same_core s s' \<Longrightarrow> wakes s s' \<Longrightarrow> wake_step s s'"
  unfolding wake_step_def by (meson same_core_ok grows_refl)

lemma wake_step_refl [simp]: "wake_step s s"
  by (auto simp: wake_step_def intro: grows_refl)

text \<open>Making a waiting task ready and putting it into a queue.\<close>

lemma wake_step_ready:
  assumes "tstate s t = TASK_STATE_CHAN_WAIT" "t \<noteq> NULL"
  shows "wake_step s (sched_enqueue_ready t (set_state t TASK_STATE_READY s))"
proof -
  let ?s = "set_state t TASK_STATE_READY s"
  have w: "wakes s ?s" using assms by (auto simp: wakes_def set_state_def)
  have "wakes ?s (sched_enqueue_ready t ?s)" by (rule enqueue_wakes) (use assms in \<open>simp_all add: set_state_def\<close>)
  with w have "wakes s (sched_enqueue_ready t ?s)" by (rule wakes_trans)
  moreover have "\<exists>Q'. sched_ok (sched_enqueue_ready t ?s) Q' S P A \<and> grows Q Q'" if ok: "sched_ok s Q S P A" for Q S P A
  proof -
    have u: "unplaced s Q S P A t" by (rule waiting_unplaced [OF ok]) (simp add: assms)
    then have "unplaced ?s Q S P A t" by (simp add: unplaced_def set_state_def tasks_def)
    from enqueue_ok(1) [OF set_state_ok [OF ok u] this] show ?thesis using grows_snoc by blast
  qed
  ultimately show ?thesis by (simp add: wake_step_def)
qed

lemma same_core_doorbell: "same_core s (sched_maybe_doorbell_ipi i c s)" "wakes s (sched_maybe_doorbell_ipi i c s)"
  by (simp_all add: sched_maybe_doorbell_ipi_def same_core_def wakes_def log_ev_def)

lemma wake_one_step: "wake_step s (snd (wake_one self h r s))"
proof (cases "h = ListHead NULL \<or> wait_heads s h = NULL")
  case True
  then show ?thesis by (auto simp: wake_one_def Let_def)
next
  case False
  define t where "t = wait_heads s h"
  define s1 where "s1 = s\<lparr>wait_heads := (wait_heads s)(h := wait_next s t), wait_next := (wait_next s)(t := NULL), wait_result := (wait_result s)(t := r)\<rparr>"
  have 1: "wake_step s s1" by (rule wake_step_core) (simp_all add: s1_def same_core_def wakes_def)
  show ?thesis
  proof (cases "tstate s t = TASK_STATE_CHAN_WAIT")
    case True
    let ?s2 = "sched_enqueue_ready t (set_state t TASK_STATE_READY s1)"
    have "snd (wake_one self h r s) = sched_maybe_doorbell_ipi self (sched_doorbell_target_cpu ?s2 t) ?s2"
      using False True by (simp add: wake_one_def Let_def t_def s1_def)
    moreover have "wake_step s1 ?s2" by (rule wake_step_ready) (use True False in \<open>simp_all add: s1_def t_def\<close>)
    ultimately show ?thesis using wake_step_trans 1 wake_step_core [OF same_core_doorbell] by metis
  next
    case c: False
    then have "snd (wake_one self h r s) = s1" using False by (simp add: wake_one_def Let_def t_def s1_def)
    then show ?thesis using 1 by simp
  qed
qed

lemma wake_parent_step: "wake_step s (wake_waiting_parent self i s)"
  by (simp add: wake_waiting_parent_def Let_def wake_one_step)

lemma orphan_from_fields:
  "same_core s (orphan_from p is s) \<and> wakes s (orphan_from p is s)"
proof (induction p "is" s rule: orphan_from.induct)
  case (2 p i "is" s)
  let ?s = "s\<lparr>parent_id := (parent_id s)(task_ptrs s i := 0)\<rparr>"
  have "same_core s ?s" "wakes s ?s" by (simp_all add: same_core_def wakes_def)
  then show ?case using 2 by (auto simp: same_core_def intro: wakes_trans)
qed (simp add: same_core_def)

lemma orphan_step: "wake_step s (sched_orphan_children p s)"
  unfolding sched_orphan_children_def using orphan_from_fields wake_step_core by blast

lemma worker_enqueue_step: "wake_step s (stream_worker_enqueue self job s)"
proof (cases "job = NULL")
  case False
  define s1 where "s1 = (let s = s\<lparr>worker_next := (worker_next s)(job := NULL)\<rparr>;
          s = (if worker_tail s \<noteq> NULL then s\<lparr>worker_next := (worker_next s)(worker_tail s := job)\<rparr>
               else s\<lparr>worker_head := job\<rparr>);
          s = s\<lparr>worker_tail := job\<rparr> in s\<lparr>worker_count := worker_count s + 1\<rparr>)"
  have "wake_step s s1" by (rule wake_step_core) (simp_all add: s1_def same_core_def wakes_def Let_def)
  moreover have "stream_worker_enqueue self job s = snd (wake_one self WorkerHead 0 s1)"
    using False by (simp add: stream_worker_enqueue_def s1_def Let_def)
  ultimately show ?thesis using wake_one_step wake_step_trans by metis
qed (simp add: stream_worker_enqueue_def)

text \<open>Links of a task that is nowhere are free to use.\<close>

lemma set_next_ok:
  assumes ok: "sched_ok s Q S P A" and t: "t \<notin> queued (g_cpu_count s) Q S"
  shows "sched_ok (set_next t p s) Q S P A"
proof -
  have "rq_ok (set_next t p s) c (Q c) (S c)" if "c < g_cpu_count s" for c
  proof (rule rq_ok_frame)
    show "rq_ok s c (Q c) (S c)" using ok that queues_okD(1) by (auto simp: sched_ok_def)
  qed (use t that in \<open>auto simp: set_next_def queued_def on_cpu_def\<close>)
  then have "queues_ok (set_next t p s) Q S" using ok by (simp add: sched_ok_def queues_ok_def set_next_def)
  moreover have "states_ok (set_next t p s) Q S P A = states_ok s Q S P A" "placed_ok (set_next t p s) Q S P A = placed_ok s Q S P A"
    by (simp_all add: states_ok_def placed_ok_def set_next_def tasks_def)
  ultimately show ?thesis using ok by (simp add: sched_ok_def) (simp add: set_next_def)
qed

text \<open>\<open>us\<close> is the chain of tasks on their way from a waiter list to the run queues.\<close>

definition chain_ok :: "'a sched_state_scheme \<Rightarrow> (nat \<Rightarrow> ptr list) \<Rightarrow> (nat \<Rightarrow> ptr list) \<Rightarrow> ptr list \<Rightarrow> nat set \<Rightarrow> ptr list \<Rightarrow> bool" where
  "chain_ok s Q S P A us \<longleftrightarrow> sched_ok s Q S P A \<and> sseg (runq_next s) us NULL \<and> distinct us
    \<and> (\<forall>u \<in> set us. tstate s u = TASK_STATE_READY \<and> unplaced s Q S P A u)"

lemma enqueue_chain_ok:
  assumes "chain_ok s Q S P A us"
  shows "\<exists>s' Q'. enqueue_chain (hd0 us NULL) s = Some s' \<and> wakes s s' \<and> sched_ok s' Q' S P A \<and> grows Q Q'
    \<and> queued (g_cpu_count s) Q' S = queued (g_cpu_count s) Q S \<union> set us \<and> tstate s' = tstate s \<and> wait_heads s' = wait_heads s"
  using assms
proof (induction us arbitrary: s Q)
  case Nil
  then show ?case by (auto simp: chain_ok_def enqueue_chain.simps intro: grows_refl)
next
  case (Cons u us)
  define s1 where "s1 = set_next u NULL s"
  define c where "c = sched_target_cpu s1 u"
  have u: "u \<noteq> NULL" "tstate s u = TASK_STATE_READY" "unplaced s Q S P A u" "runq_next s u = hd0 us NULL" "u \<notin> set us"
    using Cons.prems by (auto simp: chain_ok_def)
  have f1: "tstate s1 = tstate s" "wakes s s1" "g_cpu_count s1 = g_cpu_count s" "unplaced s1 Q S P A = unplaced s Q S P A"
    by (simp_all add: s1_def set_next_def wakes_def unplaced_def tasks_def fun_eq_iff)
  have ok1: "sched_ok s1 Q S P A" unfolding s1_def by (rule set_next_ok) (use Cons.prems u(3) in \<open>auto simp: chain_ok_def unplaced_def\<close>)
  have e: "sched_enqueue_ready u s1 = runq_enqueue_ready c u s1" using u(1) by (simp add: sched_enqueue_ready_def c_def)
  let ?s = "sched_enqueue_ready u s1" and ?Q = "Q(c := Q c @ [u])"
  have u1: "unplaced s1 Q S P A u" using u(3) f1(4) by simp
  have ok2: "sched_ok ?s ?Q S P A" "c < g_cpu_count s" using enqueue_ok [OF ok1 u1] f1(3) by (simp_all add: c_def)
  have w: "wakes s1 ?s" by (rule enqueue_wakes) (use u f1(1) in simp_all)
  have st: "tstate ?s = tstate s" unfolding e using u(1,2) f1(1) by (simp add: fun_upd_idem)
  have qd: "queued (g_cpu_count s) ?Q S = insert u (queued (g_cpu_count s) Q S)"
    using ok2(2) by (auto simp: queued_def on_cpu_def split: if_splits)
  have r: "rq_ok s1 c (Q c) (S c)" using ok1 ok2(2) f1(3) queues_okD(1) by (fastforce simp: sched_ok_def)
  have nx: "runq_next ?s x = runq_next s x" if "x \<in> set us" for x
  proof -
    have "x \<notin> set (Q c) \<union> {u}" using Cons.prems that u(5) ok2(2) by (auto simp: chain_ok_def unplaced_def queued_def on_cpu_def)
    moreover have "u \<notin> set (Q c) \<union> set (S c)" using u(3) ok2(2) by (auto simp: unplaced_def queued_def on_cpu_def)
    ultimately show ?thesis using enqueue_rq_ok(2) [OF r u(1), of x] tasks_bound [OF ok1, of c] ok2(2) f1(3) that u(5)
      unfolding e by (auto simp: s1_def set_next_def)
  qed
  have "chain_ok ?s ?Q S P A us" unfolding chain_ok_def
  proof (intro conjI ballI)
    show "sseg (runq_next ?s) us NULL" using Cons.prems sseg_cong [of us, OF nx] by (simp add: chain_ok_def)
    show "tstate ?s v = TASK_STATE_READY" if "v \<in> set us" for v using Cons.prems that st by (simp add: chain_ok_def)
    show "unplaced ?s ?Q S P A v" if "v \<in> set us" for v
    proof -
      have "unplaced s Q S P A v" "v \<noteq> u" using Cons.prems that u(5) by (auto simp: chain_ok_def)
      then show ?thesis using wakes_trans [OF f1(2) w] qd by (simp add: unplaced_def wakes_def tasks_def)
    qed
  qed (use ok2 Cons.prems in \<open>simp_all add: chain_ok_def\<close>)
  from Cons.IH [OF this] obtain s' Q' where I: "enqueue_chain (hd0 us NULL) ?s = Some s'" "wakes ?s s'" "sched_ok s' Q' S P A" "grows ?Q Q'"
    "queued (g_cpu_count ?s) Q' S = queued (g_cpu_count ?s) ?Q S \<union> set us" "tstate s' = tstate ?s" "wait_heads s' = wait_heads ?s" by blast
  have wh: "wait_heads ?s = wait_heads s" unfolding e by (subst sched_ext(13) [of _ s1]) (simp_all add: s1_def set_next_def)
  have n: "g_cpu_count ?s = g_cpu_count s" using w f1(3) by (simp add: wakes_def)
  have "enqueue_chain (hd0 (u # us) NULL) s = Some s'"
    using I(1) u(1,4) by (subst enqueue_chain.simps) (simp add: s1_def Let_def)
  then show ?case
    using I wakes_trans [OF wakes_trans [OF f1(2) w] I(2)] grows_trans [OF grows_snoc I(4)] st qd n wh by (intro exI [of _ s'] exI [of _ Q']) simp
qed


definition chain_push :: "ptr \<Rightarrow> ptr \<Rightarrow> 'a sched_state_scheme \<Rightarrow> 'a sched_state_scheme" where
  "chain_push p t s = (let s = set_next t NULL (set_state t TASK_STATE_READY s) in if p \<noteq> NULL then set_next p t s else s)"

lemma chain_push_ok:
  assumes ch: "chain_ok s Q S P A us" and t: "tstate s t = TASK_STATE_CHAN_WAIT" "t \<noteq> NULL" "t \<notin> set us"
  shows "chain_ok (chain_push (last0 NULL us) t s) Q S P A (us @ [t])"
    "tstate (chain_push (last0 NULL us) t s) = (tstate s)(t := TASK_STATE_READY)" "wakes s (chain_push (last0 NULL us) t s)"
    "wait_next (chain_push (last0 NULL us) t s) = wait_next s" "wait_result (chain_push (last0 NULL us) t s) = wait_result s"
    "wait_heads (chain_push (last0 NULL us) t s) = wait_heads s"
proof -
  let ?s = "chain_push (last0 NULL us) t s" and ?s1 = "set_state t TASK_STATE_READY s" and ?s2 = "set_next t NULL (set_state t TASK_STATE_READY s)"
  have ok: "sched_ok s Q S P A" "sseg (runq_next s) us NULL" "distinct us" using ch by (simp_all add: chain_ok_def)
  have u: "unplaced s Q S P A t" by (rule waiting_unplaced [OF ok(1)]) (simp add: t)
  have z: "last0 NULL us = NULL \<longleftrightarrow> us = []" using sseg_nonnull [OF ok(2)] last0_in [of us NULL] by (cases "us = []") auto
  show st: "tstate ?s = (tstate s)(t := TASK_STATE_READY)" and w: "wakes s ?s" "wait_next ?s = wait_next s" "wait_result ?s = wait_result s" "wait_heads ?s = wait_heads s"
    using t by (simp_all add: chain_push_def Let_def set_next_def set_state_def wakes_def)
  have up: "unplaced ?s Q S P A = unplaced s Q S P A" "unplaced ?s2 Q S P A = unplaced s Q S P A" "g_cpu_count ?s2 = g_cpu_count s"
    by (simp_all add: chain_push_def Let_def set_next_def set_state_def unplaced_def tasks_def fun_eq_iff)
  have ok2: "sched_ok ?s2 Q S P A"
    by (rule set_next_ok [OF set_state_ok [OF ok(1) u]]) (use u in \<open>simp add: unplaced_def set_state_def\<close>)
  have "sched_ok ?s Q S P A"
  proof (cases "us = []")
    case True
    then show ?thesis using ok2 by (simp add: chain_push_def)
  next
    case False
    then have "last0 NULL us \<notin> queued (g_cpu_count s) Q S" using ch last0_in [of us NULL] by (auto simp: chain_ok_def unplaced_def)
    then show ?thesis using set_next_ok [OF ok2] z up(3) False by (simp add: chain_push_def Let_def)
  qed
  moreover have "sseg (runq_next ?s) (us @ [t]) NULL"
  proof (cases "us = []")
    case False
    have "sseg (runq_next ?s2) us NULL = sseg (runq_next s) us NULL" by (rule sseg_cong) (use t(3) in \<open>auto simp: set_next_def set_state_def\<close>)
    with ok(2) have "sseg ((runq_next ?s2)(last us := t)) us t" using sseg_retarget ok(3) False by blast
    moreover have "runq_next ?s = (runq_next ?s2)(last us := t)" using z False by (simp add: chain_push_def Let_def last0_def set_next_def)
    moreover have "last us \<noteq> t" using False t(3) by auto
    ultimately show ?thesis using t(2) by (simp add: set_next_def)
  qed (use t in \<open>simp add: chain_push_def set_next_def\<close>)
  ultimately show "chain_ok ?s Q S P A (us @ [t])" using ch t(3) u unfolding chain_ok_def st up by auto
qed

text \<open>The drain loop takes the waiters off the list and chains those that wait.\<close>

lemma drain_waiters_ok:
  assumes "chain_ok s Q S P A us" "sseg (wait_next s) ws NULL" "distinct ws" "set us \<inter> set ws = {}"
  shows "\<exists>s' us'. drain_waiters (hd0 ws NULL) r (hd0 us NULL) (last0 NULL us) n s = Some (hd0 us' NULL, n + int (length ws), s')
    \<and> us' = us @ filter (\<lambda>t. tstate s t = TASK_STATE_CHAN_WAIT) ws \<and> chain_ok s' Q S P A us' \<and> wakes s s'
    \<and> tstate s' = (\<lambda>t. if t \<in> set us' then TASK_STATE_READY else tstate s t)
    \<and> wait_result s' = (\<lambda>t. if t \<in> set ws then r else wait_result s t) \<and> wait_heads s' = wait_heads s"
  using assms
proof (induction ws arbitrary: s us n)
  case Nil
  then show ?case by (auto simp: drain_waiters.simps chain_ok_def fun_eq_iff)
next
  case (Cons t ws)
  define s1 where "s1 = s\<lparr>wait_next := (wait_next s)(t := NULL), wait_result := (wait_result s)(t := r)\<rparr>"
  have t: "t \<noteq> NULL" "t \<notin> set ws" "t \<notin> set us" "wait_next s t = hd0 ws NULL" using Cons.prems by auto
  have c1: "same_core s s1" "wakes s s1" by (simp_all add: s1_def same_core_def wakes_def)
  have u1: "unplaced s1 Q S P A = unplaced s Q S P A" by (simp add: s1_def unplaced_def tasks_def fun_eq_iff)
  have ch1: "chain_ok s1 Q S P A us" using Cons.prems(1) same_core_ok [OF c1(1)] u1 c1(1) by (simp add: chain_ok_def same_core_def)
  have sg: "sseg (wait_next s1) ws NULL" using Cons.prems(2) t(2) by (subst sseg_cong [of ws _ "wait_next s"]) (auto simp: s1_def)
  have f1: "tstate s1 = tstate s" "wait_heads s1 = wait_heads s" "wait_result s1 = (wait_result s)(t := r)" by (simp_all add: s1_def)
  have d: "distinct ws" "set us \<inter> set ws = {}" using Cons.prems(3,4) by auto
  show ?case
  proof (cases "tstate s t = TASK_STATE_CHAN_WAIT")
    case True
    let ?s = "chain_push (last0 NULL us) t s1"
    have z: "last0 NULL us = NULL \<longleftrightarrow> us = []" using sseg_nonnull ch1 last0_in [of us NULL] by (cases "us = []") (auto simp: chain_ok_def)
    have e: "drain_waiters (hd0 (t # ws) NULL) r (hd0 us NULL) (last0 NULL us) n s
        = drain_waiters (hd0 ws NULL) r (hd0 (us @ [t]) NULL) (last0 NULL (us @ [t])) (n + 1) ?s"
      using t True z by (subst drain_waiters.simps) (cases "us = []"; simp add: s1_def chain_push_def Let_def hd0_def)
    note p = chain_push_ok [OF ch1 _ t(1,3), unfolded f1, OF True]
    have f: "filter (\<lambda>u. tstate ?s u = TASK_STATE_CHAN_WAIT) ws = filter (\<lambda>u. tstate s u = TASK_STATE_CHAN_WAIT) ws"
      by (rule filter_cong) (use t(2) p(2) in auto)
    have "sseg (wait_next ?s) ws NULL" "set (us @ [t]) \<inter> set ws = {}" using sg p(4) d(2) t(2) by auto
    from Cons.IH [OF p(1) this(1) d(1) this(2), of "n + 1"] obtain s' where
      I: "drain_waiters (hd0 (t # ws) NULL) r (hd0 us NULL) (last0 NULL us) n s
          = Some (hd0 ((us @ [t]) @ filter (\<lambda>t. tstate s t = TASK_STATE_CHAN_WAIT) ws) NULL, n + 1 + int (length ws), s')"
        "chain_ok s' Q S P A ((us @ [t]) @ filter (\<lambda>t. tstate s t = TASK_STATE_CHAN_WAIT) ws)" "wakes ?s s'"
        "tstate s' = (\<lambda>x. if x \<in> set ((us @ [t]) @ filter (\<lambda>t. tstate s t = TASK_STATE_CHAN_WAIT) ws) then TASK_STATE_READY else tstate ?s x)"
        "wait_result s' = (\<lambda>t. if t \<in> set ws then r else wait_result ?s t)" "wait_heads s' = wait_heads ?s"
      unfolding e f by blast
    have "wakes s s'" using wakes_trans [OF wakes_trans [OF c1(2) p(3)] I(3)] .
    then show ?thesis using I(1,2,4-6) True p(2,5,6) by (intro exI [of _ s']) (auto simp: fun_eq_iff)
  next
    case False
    have e: "drain_waiters (hd0 (t # ws) NULL) r (hd0 us NULL) (last0 NULL us) n s
        = drain_waiters (hd0 ws NULL) r (hd0 us NULL) (last0 NULL us) (n + 1) s1"
      using t False by (subst drain_waiters.simps) (simp add: s1_def Let_def)
    from Cons.IH [OF ch1 sg d, of "n + 1"] show ?thesis unfolding e f1
      using wakes_trans [OF c1(2)] False by (elim exE) (auto simp: fun_eq_iff intro!: exI)
  qed
qed

text \<open>Every waiter is taken off the list, and those that still wait become ready and are queued.\<close>

lemma wake_all_ok:
  assumes ok: "sched_ok s Q S P A" and ws: "sseg (wait_next s) ws NULL" "distinct ws" "wait_heads s h = hd0 ws NULL" "h \<noteq> ListHead NULL"
  shows "\<exists>s' Q'. wake_all h r s = Some (int (length ws), s') \<and> wakes s s' \<and> sched_ok s' Q' S P A \<and> grows Q Q' \<and> wait_heads s' h = NULL
    \<and> queued (g_cpu_count s) Q' S = queued (g_cpu_count s) Q S \<union> {t \<in> set ws. tstate s t = TASK_STATE_CHAN_WAIT}
    \<and> tstate s' = (\<lambda>t. if t \<in> set ws \<and> tstate s t = TASK_STATE_CHAN_WAIT then TASK_STATE_READY else tstate s t)"
proof -
  let ?us = "filter (\<lambda>t. tstate s t = TASK_STATE_CHAN_WAIT) ws"
  define s0 where "s0 = s\<lparr>wait_heads := (wait_heads s)(h := NULL)\<rparr>"
  have f: "tstate s0 = tstate s" "wait_next s0 = wait_next s" "wait_heads s0 = (wait_heads s)(h := NULL)" by (simp_all add: s0_def)
  have c: "same_core s s0" "wakes s s0" by (simp_all add: same_core_def wakes_def s0_def)
  have "chain_ok s0 Q S P A []" using same_core_ok [OF c(1)] ok by (simp add: chain_ok_def)
  from drain_waiters_ok [OF this, of ws r 0, unfolded f] ws obtain s1 where
    D: "drain_waiters (hd0 ws NULL) r NULL NULL 0 s0 = Some (hd0 ?us NULL, int (length ws), s1)" "chain_ok s1 Q S P A ?us" "wakes s0 s1"
      "tstate s1 = (\<lambda>t. if t \<in> set ?us then TASK_STATE_READY else tstate s t)" "wait_heads s1 = (wait_heads s)(h := NULL)" by auto
  from enqueue_chain_ok [OF D(2)] obtain s' Q' where
    E: "enqueue_chain (hd0 ?us NULL) s1 = Some s'" "wakes s1 s'" "sched_ok s' Q' S P A" "grows Q Q'"
      "queued (g_cpu_count s1) Q' S = queued (g_cpu_count s1) Q S \<union> set ?us" "tstate s' = tstate s1" "wait_heads s' = wait_heads s1" by blast
  have "wait_heads s' h = NULL" using D(5) E(7) by simp
  moreover have "g_cpu_count s1 = g_cpu_count s" using wakes_trans [OF c(2) D(3)] by (simp add: wakes_def)
  moreover have "wake_all h r s = Some (int (length ws), s')" using D(1) E(1) ws(3,4) by (simp add: wake_all_def Let_def s0_def)
  moreover have "wakes s s'" using wakes_trans [OF wakes_trans [OF c(2) D(3)] E(2)] .
  ultimately show ?thesis using E(3-6) D(4) by (intro exI [of _ s'] exI [of _ Q']) (auto simp: fun_eq_iff)
qed

lemma push_starved_ok:
  assumes ok: "sched_ok s Q S P A" and t: "unplaced s Q S P A t" and c: "c < g_cpu_count s"
  shows "sched_ok (runq_push_starved c t s) Q (S(c := t # S c)) P A"
proof -
  let ?s = "runq_push_starved c t s" and ?S = "S(c := t # S c)"
  have t0: "t \<noteq> NULL" using t by (auto simp: unplaced_def tasks_def)
  note E = push_starved_eqs [OF t0, of c s]
  have q: "queues_ok ?s Q ?S" by (rule push_starved_queues) (use ok c t t0 in \<open>auto simp: sched_ok_def unplaced_def\<close>)
  note x = sched_ext [OF E(8)]
  have f: "cur_on ?s d = cur_on s d" "idle_on ?s d = idle_on s d" for d unfolding E(3) by simp_all
  have qd: "queued n Q ?S = (if c < n then insert t (queued n Q S) else queued n Q S)" for n
    by (auto simp: queued_def on_cpu_def split: if_splits)
  have i: "t \<noteq> idle_on s d" if "d < g_cpu_count s" for d using ok t that by (auto simp: unplaced_def sched_ok_def placed_ok_def)
  have "states_ok ?s Q ?S P A" using ok t i unfolding sched_ok_def states_ok_def f x E(4,5) unplaced_def by (auto simp: queued_def on_cpu_def)
  moreover have "placed_ok ?s Q ?S P A" using ok t c unfolding sched_ok_def placed_ok_def f x E(5) qd unplaced_def by auto
  ultimately show ?thesis using ok q unfolding sched_ok_def x E(5) by blast
qed

section \<open>A small machine\<close>

text \<open>
  Two processors that run their idle tasks (100 and 200), and four tasks that wait. The task table
  has the idle tasks at 0 and 1 and the others behind them.
\<close>

definition demo_runq :: "u32 \<Rightarrow> ptr \<Rightarrow> runq" where
  "demo_runq i idle = \<lparr>rq_magic = RUNQ_MAGIC, rq_cpu_id = i, ready_head = NULL, ready_tail = NULL, ready_count = 0, starved_head = NULL,
    rq_current = idle, steal_successes = 0, steal_failures = 0, context_switches = 0, last_epoch_tick_ticks = RUNQ_EPOCH_NEVER, idle_task = idle\<rparr>"

definition demo_sched :: sched_state where
  "demo_sched = \<lparr>
    tstate = (\<lambda>t. if t = 100 \<or> t = 200 then TASK_STATE_RUNNING else if t = 10 \<or> t = 20 \<or> t = 30 \<or> t = 40 then TASK_STATE_CHAN_WAIT else TASK_STATE_ZOMBIE),
    runq_next = (\<lambda>_. 0), runq_prev = (\<lambda>_. 0), cpu_pinned = (\<lambda>t. if t = 100 then 0 else if t = 200 then 1 else -1), last_ran_cpu = (\<lambda>_. 0xFFFFFFFF),
    runqs = (\<lambda>c. if c = 0 then demo_runq 0 100 else demo_runq 1 200), g_cpu_count = 2,
    ph = \<lparr>task_id = (\<lambda>t. if t = 100 then 0 else if t = 200 then 1 else if t = 10 then 2 else if t = 20 then 3 else if t = 30 then 4 else 5),
      hash_next = (\<lambda>_. 0), global_next = (\<lambda>_. 0), global_prev = (\<lambda>_. 0), g_hash_buckets = (\<lambda>_. 0), g_global_head = 0, g_global_tail = 0, g_global_count = 0\<rparr>,
    task_ptrs = (\<lambda>i. if i < 6 then [100, 200, 10, 20, 30, 40] ! i else 0), next_task_id = 6, current_task_index = 0,
    parent_id = (\<lambda>_. 0), exit_status = (\<lambda>_. 0), is_idle = (\<lambda>t. t = 100 \<or> t = 200), task_regs = (\<lambda>t. [t]), kernel_stack_top = (\<lambda>_. 0), task_cr3 = (\<lambda>_. 0),
    pending_signals = (\<lambda>_. 0), signal_handlers = (\<lambda>_ _. SIG_DFL), wait_next = (\<lambda>_. 0), wait_reason = (\<lambda>_. 0), wait_channel = (\<lambda>_. 0),
    wait_result = (\<lambda>_. 0), deadline_tsc = (\<lambda>_. 0), wait_heads = (\<lambda>_. 0), last_ran_tsc = (\<lambda>_. 0), last_starvation_epoch = (\<lambda>_. 0),
    barrier_next = (\<lambda>_. 0), barrier_flag = False, barrier_acks = 0, parked_head = 0, owner_task = 0, barrier_seq = 0,
    mem_limit_pages = (\<lambda>_. 0), mem_pages_used = (\<lambda>_. 0), cpu_time_slice_budget_ns = (\<lambda>_. 1000), cpu_budget_remaining_ns = (\<lambda>_. 0),
    io_rate_bytes_per_sec = (\<lambda>_. 0), io_tokens = (\<lambda>_. 0), io_pending_head = (\<lambda>_. 0),
    syscall_rate_limit_per_sec = (\<lambda>_. 0), syscall_count_sampled = (\<lambda>_. 0), last_rate_refill_tsc = (\<lambda>_. 0), syscall_rate_exceeded_count = (\<lambda>_. 0),
    syscall_rate_hard_mode = (\<lambda>_. 0), job_len = (\<lambda>_. 0), worker_next = (\<lambda>_. 0), worker_head = 0, worker_tail = 0, worker_count = 0,
    sched_lock_owner = None, g_timer_ticks = 0, g_tsc_ready = False, g_ns_per_tsc_fp32 = 0, cpu_frame = (\<lambda>_. []), tss_rsp0 = (\<lambda>_. 0), cpu_cr3 = (\<lambda>_. 0),
    schedule_count = 0, switch_count = 0, sched_events = []\<rparr>"

lemma demo_sched_ok: "sched_ok demo_sched (\<lambda>_. []) (\<lambda>_. []) [] {0, 1}"
proof -
  have "{..<6 :: nat} = {0, 1, 2, 3, 4, 5}" by auto
  then have t: "tasks demo_sched = {100, 200, 10, 20, 30, 40}" by (simp add: tasks_def demo_sched_def insert_Diff_if)
  have q: "queues_ok demo_sched (\<lambda>_. []) (\<lambda>_. [])" by (auto simp: queues_ok_def rq_ok_def on_cpu_def demo_sched_def demo_runq_def)
  have "states_ok demo_sched (\<lambda>_. []) (\<lambda>_. []) [] {0, 1}" unfolding states_ok_def t by (auto simp: demo_sched_def demo_runq_def)
  moreover have "placed_ok demo_sched (\<lambda>_. []) (\<lambda>_. []) [] {0, 1}" unfolding placed_ok_def t
    by (auto simp: demo_sched_def demo_runq_def queued_def on_cpu_def inj_on_def)
  ultimately show ?thesis using q by (simp add: sched_ok_def) (simp add: demo_sched_def)
qed

end
