(* ===== verification/Rlimit.thy ===== *)
theory Rlimit
  imports Sched_State
begin

text \<open>
  Resource limits (kernel/resource/rlimit.h and rlimit.c): the memory quota, the processor time budget
  with its epochs, and the token bucket for stream I/O. Signed 64-bit fields are words read with
  \<^const>\<open>sint\<close>. The theory bounds what a task can get between two refills, shows that an epoch brings
  every starved task back to its run queue, and shows where the arithmetic of the checks wraps.
\<close>

section \<open>Model\<close>

definition RLIMIT_RES_MEM :: u32 where "RLIMIT_RES_MEM = 1"
definition RLIMIT_RES_CPU :: u32 where "RLIMIT_RES_CPU = 2"
definition RLIMIT_RES_IO :: u32 where "RLIMIT_RES_IO = 3"

abbreviation RLIMIT_EPOCH_NS :: u64 where "RLIMIT_EPOCH_NS \<equiv> 1000000000"
abbreviation RLIMIT_IO_REFILL_DIVISOR :: u64 where "RLIMIT_IO_REFILL_DIVISOR \<equiv> 100"
abbreviation RLIMIT_EAGAIN_INTERNAL :: int where "RLIMIT_EAGAIN_INTERNAL \<equiv> -900"

definition rlimit_init_defaults :: "ptr \<Rightarrow> ptr \<Rightarrow> 'a sched_state_scheme \<Rightarrow> 'a sched_state_scheme" where
  "rlimit_init_defaults child parent s =
    (if child = NULL then s
     else
      let inherit = (\<lambda>f. if parent \<noteq> NULL then f parent else 0);
          s = s\<lparr>mem_limit_pages := (mem_limit_pages s)(child := inherit (mem_limit_pages s)),
                mem_pages_used := (mem_pages_used s)(child := 0),
                cpu_time_slice_budget_ns := (cpu_time_slice_budget_ns s)(child := inherit (cpu_time_slice_budget_ns s)),
                cpu_budget_remaining_ns := (cpu_budget_remaining_ns s)(child := inherit (cpu_time_slice_budget_ns s)),
                io_rate_bytes_per_sec := (io_rate_bytes_per_sec s)(child := inherit (io_rate_bytes_per_sec s)),
                io_tokens := (io_tokens s)(child := inherit (io_rate_bytes_per_sec s)),
                io_pending_head := (io_pending_head s)(child := NULL)\<rparr>;
          s = s\<lparr>cpu_pinned := (cpu_pinned s)(child := -1), last_ran_cpu := (last_ran_cpu s)(child := 0xFFFFFFFF),
                last_ran_tsc := (last_ran_tsc s)(child := 0), last_starvation_epoch := (last_starvation_epoch s)(child := 0)\<rparr>;
          s = set_prev child NULL (set_next child NULL s);
          s = s\<lparr>ph := (ph s)\<lparr>hash_next := (hash_next (ph s))(child := NULL), global_next := (global_next (ph s))(child := NULL),
                       global_prev := (global_prev (ph s))(child := NULL)\<rparr>\<rparr>
      in s\<lparr>syscall_rate_limit_per_sec := (syscall_rate_limit_per_sec s)(child := inherit (syscall_rate_limit_per_sec s)),
           syscall_rate_hard_mode := (syscall_rate_hard_mode s)(child := if parent \<noteq> NULL then syscall_rate_hard_mode s parent else 0),
           syscall_count_sampled := (syscall_count_sampled s)(child := 0),
           last_rate_refill_tsc := (last_rate_refill_tsc s)(child := 0),
           syscall_rate_exceeded_count := (syscall_rate_exceeded_count s)(child := 0)\<rparr>)"

definition rlimit_check_mem :: "ptr \<Rightarrow> u64 \<Rightarrow> 'a sched_state_scheme \<Rightarrow> int \<times> 'a sched_state_scheme" where
  "rlimit_check_mem t npages s =
    (if t = NULL then (0, s)
     else if mem_limit_pages s t = 0 then (0, s)
     else
      let used = mem_pages_used s t in
      if used + npages > mem_limit_pages s t
      then (-12, log_ev (AuditMem (task_id (ph s) t) (mem_limit_pages s t) (used + npages)) s)
      else (0, s\<lparr>mem_pages_used := (mem_pages_used s)(t := used + npages)\<rparr>))"

definition rlimit_account_free_mem :: "ptr \<Rightarrow> u64 \<Rightarrow> 'a sched_state_scheme \<Rightarrow> 'a sched_state_scheme" where
  "rlimit_account_free_mem t npages s =
    (if t = NULL then s
     else if mem_pages_used s t \<ge> npages then s\<lparr>mem_pages_used := (mem_pages_used s)(t := mem_pages_used s t - npages)\<rparr>
     else s\<lparr>mem_pages_used := (mem_pages_used s)(t := 0)\<rparr>)"

text \<open>The new balance, as the signed value the caller compares with 0.\<close>

definition rlimit_consume_cpu :: "ptr \<Rightarrow> u64 \<Rightarrow> 'a sched_state_scheme \<Rightarrow> int \<times> 'a sched_state_scheme" where
  "rlimit_consume_cpu t ns s =
    (if t = NULL then (1, s)
     else if cpu_time_slice_budget_ns s t = 0 then (1, s)
     else
      let clamped = (if ns > RLIMIT_EPOCH_NS then RLIMIT_EPOCH_NS else ns);
          s = s\<lparr>cpu_budget_remaining_ns := (cpu_budget_remaining_ns s)(t := cpu_budget_remaining_ns s t - clamped)\<rparr>
      in (sint (cpu_budget_remaining_ns s t), s))"

definition rlimit_check_io :: "ptr \<Rightarrow> u64 \<Rightarrow> 'a sched_state_scheme \<Rightarrow> int \<times> 'a sched_state_scheme" where
  "rlimit_check_io t bytes s =
    (if t = NULL then (0, s)
     else if io_rate_bytes_per_sec s t = 0 then (0, s)
     else if sint (io_tokens s t) \<ge> sint bytes then (0, s\<lparr>io_tokens := (io_tokens s)(t := io_tokens s t - bytes)\<rparr>)
     else (RLIMIT_EAGAIN_INTERNAL, log_ev (AuditIo (task_id (ph s) t) (io_rate_bytes_per_sec s t) bytes) s))"

partial_function (option) drain_pending :: "nat \<Rightarrow> ptr \<Rightarrow> 'a sched_state_scheme \<Rightarrow> 'a sched_state_scheme option" where
  "drain_pending self t s =
    (let job = io_pending_head s t in
     if job = NULL then Some s
     else
      let len = job_len s job in
      if sint (io_tokens s t) < sint len then Some s
      else
       let s = s\<lparr>io_tokens := (io_tokens s)(t := io_tokens s t - len)\<rparr>;
           s = s\<lparr>io_pending_head := (io_pending_head s)(t := worker_next s job)\<rparr>;
           s = s\<lparr>worker_next := (worker_next s)(job := NULL)\<rparr>
       in drain_pending self t (stream_worker_enqueue self job s))"

declare drain_pending.simps [code]

definition top_up :: "ptr \<Rightarrow> 'a sched_state_scheme \<Rightarrow> 'a sched_state_scheme" where
  "top_up t s =
    (let rate = io_rate_bytes_per_sec s t;
         refill = rate div RLIMIT_IO_REFILL_DIVISOR;
         refill = (if refill = 0 \<and> rate > 0 then 1 else refill);
         s = s\<lparr>io_tokens := (io_tokens s)(t := io_tokens s t + refill)\<rparr>
     in if sint (io_tokens s t) > sint rate then s\<lparr>io_tokens := (io_tokens s)(t := rate)\<rparr> else s)"

definition rlimit_refill_io_tokens :: "nat \<Rightarrow> ptr \<Rightarrow> 'a sched_state_scheme \<Rightarrow> 'a sched_state_scheme option" where
  "rlimit_refill_io_tokens self t s =
    (if t = NULL then Some s
     else if io_rate_bytes_per_sec s t = 0 then Some s
     else drain_pending self t (top_up t s))"

definition epoch_refill_one :: "ptr \<Rightarrow> 'a sched_state_scheme \<times> u32 \<Rightarrow> 'a sched_state_scheme \<times> u32" where
  "epoch_refill_one t ctx =
    (case ctx of (s, refilled) \<Rightarrow>
       if t = NULL then (s, refilled)
       else if cpu_time_slice_budget_ns s t \<noteq> 0
       then (s\<lparr>cpu_budget_remaining_ns := (cpu_budget_remaining_ns s)(t := cpu_time_slice_budget_ns s t)\<rparr>, refilled + 1)
       else (s, refilled))"

fun drain_starved :: "nat list \<Rightarrow> u32 \<Rightarrow> 'a sched_state_scheme \<Rightarrow> (u32 \<times> 'a sched_state_scheme) option" where
  "drain_starved [] n s = Some (n, s)"
| "drain_starved (c # cs) n s =
    (case runq_refill_starved c s of
       None \<Rightarrow> None
     | Some (k, s) \<Rightarrow> drain_starved cs (n + k) (upd_rq c (\<lambda>q. q\<lparr>last_epoch_tick_ticks := g_timer_ticks s\<rparr>) s))"

definition rlimit_epoch_tick :: "'a sched_state_scheme \<Rightarrow> 'a sched_state_scheme option" where
  "rlimit_epoch_tick s =
    (case pid_hash_enumerate epoch_refill_one (s, 0) (ph s) of
       None \<Rightarrow> None
     | Some (s, refilled) \<Rightarrow>
        (case drain_starved [0..<g_cpu_count s] 0 s of
           None \<Rightarrow> None
         | Some (drained_total, s) \<Rightarrow> Some (log_ev (AuditEpoch refilled drained_total) s)))"

definition rlimit_set :: "ptr \<Rightarrow> u32 \<Rightarrow> u64 \<Rightarrow> 'a sched_state_scheme \<Rightarrow> int \<times> 'a sched_state_scheme" where
  "rlimit_set t resource v s =
    (if t = NULL then (-3, s)
     else if resource = RLIMIT_RES_MEM then (0, s\<lparr>mem_limit_pages := (mem_limit_pages s)(t := v)\<rparr>)
     else if resource = RLIMIT_RES_CPU then
       (if v > RLIMIT_EPOCH_NS then (-22, s)
        else (0, s\<lparr>cpu_time_slice_budget_ns := (cpu_time_slice_budget_ns s)(t := v),
                   cpu_budget_remaining_ns := (cpu_budget_remaining_ns s)(t := v)\<rparr>))
     else if resource = RLIMIT_RES_IO then
       (0, s\<lparr>io_rate_bytes_per_sec := (io_rate_bytes_per_sec s)(t := v), io_tokens := (io_tokens s)(t := v)\<rparr>)
     else (-22, s))"

definition rlimit_get :: "ptr \<Rightarrow> u32 \<Rightarrow> 'a sched_state_scheme \<Rightarrow> u64 cres" where
  "rlimit_get t resource s =
    (if t = NULL then Inl (-3)
     else if resource = RLIMIT_RES_MEM then Inr (mem_limit_pages s t)
     else if resource = RLIMIT_RES_CPU then Inr (cpu_time_slice_budget_ns s t)
     else if resource = RLIMIT_RES_IO then Inr (io_rate_bytes_per_sec s t)
     else Inl (-22))"

text \<open>
  The rate check at the entry of \<^verbatim>\<open>syscall_dispatcher\<close>; \<open>tsc\<close> is the time stamp it reads. The result
  is whether the call is refused.
\<close>

definition syscall_rate_check :: "nat \<Rightarrow> u64 \<Rightarrow> 'a sched_state_scheme \<Rightarrow> bool \<times> 'a sched_state_scheme" where
  "syscall_rate_check self tsc s =
    (if tsc AND 0xFF \<noteq> 0 then (False, s)
     else
      let t = sched_get_current_task self s in
      if t = NULL \<or> syscall_rate_limit_per_sec s t = 0 then (False, s)
      else
       let elapsed_ns = (if g_tsc_ready s then tsc_to_ns s (tsc - last_rate_refill_tsc s t) else 0);
           s = (if elapsed_ns \<ge> 1000000000
                then s\<lparr>syscall_count_sampled := (syscall_count_sampled s)(t := 0), last_rate_refill_tsc := (last_rate_refill_tsc s)(t := tsc)\<rparr>
                else s);
           s = s\<lparr>syscall_count_sampled := (syscall_count_sampled s)(t := syscall_count_sampled s t + 256)\<rparr>
       in if syscall_count_sampled s t > syscall_rate_limit_per_sec s t
          then let s = s\<lparr>syscall_rate_exceeded_count := (syscall_rate_exceeded_count s)(t := syscall_rate_exceeded_count s t + 1)\<rparr>;
                   s = log_ev (AuditRate (task_id (ph s) t) (syscall_rate_limit_per_sec s t) (syscall_count_sampled s t)) s
               in (syscall_rate_hard_mode s t \<noteq> 0, s)
          else (False, s))"

section \<open>The memory quota\<close>

datatype mem_op = Mem_Take u64 | Mem_Free u64

fun mem_exec :: "ptr \<Rightarrow> mem_op list \<Rightarrow> 'a sched_state_scheme \<Rightarrow> 'a sched_state_scheme" where
  "mem_exec t [] s = s"
| "mem_exec t (Mem_Take n # ops) s = mem_exec t ops (snd (rlimit_check_mem t n s))"
| "mem_exec t (Mem_Free n # ops) s = mem_exec t ops (rlimit_account_free_mem t n s)"

text \<open>The specification: a counter that never goes above the limit and never below 0.\<close>

fun mem_spec :: "nat \<Rightarrow> mem_op list \<Rightarrow> nat \<Rightarrow> nat" where
  "mem_spec l [] u = u"
| "mem_spec l (Mem_Take n # ops) u = mem_spec l ops (if u + unat n \<le> l then u + unat n else u)"
| "mem_spec l (Mem_Free n # ops) u = mem_spec l ops (u - unat n)"

fun op_pages :: "mem_op \<Rightarrow> u64" where
  "op_pages (Mem_Take n) = n"
| "op_pages (Mem_Free n) = n"

lemma unat_plus_fits: "unat (a :: u64) + unat b < 2 ^ 64 \<Longrightarrow> unat (a + b) = unat a + unat b"
  by (simp add: unat_word_ariths)

lemma mem_exec_spec:
  assumes "t \<noteq> NULL" "mem_limit_pages s t \<noteq> 0" "mem_pages_used s t \<le> mem_limit_pages s t"
    "\<forall>p \<in> set ops. unat (mem_limit_pages s t) + unat (op_pages p) < 2 ^ 64"
  shows "unat (mem_pages_used (mem_exec t ops s) t) = mem_spec (unat (mem_limit_pages s t)) ops (unat (mem_pages_used s t))
    \<and> mem_pages_used (mem_exec t ops s) t \<le> mem_limit_pages s t \<and> mem_limit_pages (mem_exec t ops s) t = mem_limit_pages s t"
  using assms
proof (induction t ops s rule: mem_exec.induct)
  case (2 t n ops s)
  let ?s = "snd (rlimit_check_mem t n s)"
  have le: "unat (mem_pages_used s t) \<le> unat (mem_limit_pages s t)" using 2(4) by (simp add: word_le_nat_alt)
  have u: "unat (mem_pages_used s t + n) = unat (mem_pages_used s t) + unat n" by (rule unat_plus_fits) (use le 2(5) in auto)
  have f: "mem_limit_pages ?s t = mem_limit_pages s t" "mem_pages_used ?s t =
      (if unat (mem_pages_used s t) + unat n \<le> unat (mem_limit_pages s t) then mem_pages_used s t + n else mem_pages_used s t)"
    using 2(2,3) u by (simp_all add: rlimit_check_mem_def Let_def log_ev_def word_less_nat_alt)
  have "mem_pages_used ?s t \<le> mem_limit_pages ?s t" using f u 2(4) by (simp add: word_le_nat_alt)
  from 2(1) [OF 2(2) _ this] show ?case using 2(3,5) f u by simp
next
  case (3 t n ops s)
  let ?s = "rlimit_account_free_mem t n s"
  have f: "mem_limit_pages ?s t = mem_limit_pages s t" "unat (mem_pages_used ?s t) = unat (mem_pages_used s t) - unat n"
    using 3(2) by (auto simp: rlimit_account_free_mem_def word_le_nat_alt unat_sub)
  have "mem_pages_used ?s t \<le> mem_limit_pages ?s t" using f 3(4) by (simp add: word_le_nat_alt)
  from 3(1) [OF 3(2) _ this] show ?case using 3(3,5) f by simp
qed simp

section \<open>Epochs\<close>

lemma refill_ok:
  assumes ok: "sched_ok s Q S P A" and c: "c < g_cpu_count s"
  shows "\<exists>s'. runq_refill_starved c s = Some (of_nat (length (S c)), s') \<and> sched_ok s' (Q(c := Q c @ S c)) (S(c := [])) P A
    \<and> g_cpu_count s' = g_cpu_count s \<and> runq_state.more s' = runq_state.more s
    \<and> tstate s' = (\<lambda>p. if p \<in> set (S c) then TASK_STATE_READY else tstate s p)"
proof -
  let ?Q = "Q(c := Q c @ S c)" and ?S = "S(c := [])"
  have "queues_ok s Q S" "length (Q c) + length (S c) < 2 ^ 32" using ok tasks_bound [OF ok c] by (simp_all add: sched_ok_def)
  from refill_queues [OF this(1) c this(2)] obtain s' where
    R: "runq_refill_starved c s = Some (of_nat (length (S c)), s')" "queues_ok s' ?Q ?S"
      "tstate s' = (\<lambda>p. if p \<in> set (S c) then TASK_STATE_READY else tstate s p)" "g_cpu_count s' = g_cpu_count s"
      "runq_state.more s' = runq_state.more s" "\<And>d. cur_on s' d = cur_on s d" "\<And>d. idle_on s' d = idle_on s d" by blast
  note x = sched_ext [OF R(5)]
  have on: "on_cpu ?Q ?S d = on_cpu Q S d" for d by (auto simp: on_cpu_def)
  then have qd: "queued n ?Q ?S = queued n Q S" for n by (simp add: queued_def)
  have S: "t \<in> queued (g_cpu_count s) Q S" if "t \<in> set (S c)" for t using that c by (auto simp: queued_def on_cpu_def)
  have i: "idle_on s d \<notin> set (S c)" if "d < g_cpu_count s" for d using ok S that by (auto simp: sched_ok_def placed_ok_def)
  have k: "cur_on s d \<notin> set (S c)" if "d \<in> A" for d using ok S that by (auto simp: sched_ok_def placed_ok_def)
  have p: "t \<notin> set (S c)" if "t \<in> set P" for t using ok S that by (auto simp: sched_ok_def placed_ok_def)
  have d: "t \<notin> set (S c)" if "d < g_cpu_count s" "d \<noteq> c" "t \<in> on_cpu Q S d" for d t
    using queues_okD(2) [of s Q S c d] ok c that by (auto simp: sched_ok_def on_cpu_def)
  have "states_ok s' ?Q ?S P A" unfolding states_ok_def R(3,4,6,7) x
  proof (intro conjI)
    show "\<forall>d<g_cpu_count s. \<forall>t\<in>set (?Q d). (if t \<in> set (S c) then TASK_STATE_READY else tstate s t) \<in> {TASK_STATE_READY, TASK_STATE_ZOMBIE}"
      using ok c unfolding sched_ok_def states_ok_def by (auto split: if_splits)
    show "\<forall>d<g_cpu_count s. \<forall>t\<in>set (?S d). (if t \<in> set (S c) then TASK_STATE_READY else tstate s t) \<in> {TASK_STATE_STARVED, TASK_STATE_ZOMBIE}"
      using ok d unfolding sched_ok_def states_ok_def on_cpu_def by (auto split: if_splits)
  qed (use ok i k p in \<open>auto simp: sched_ok_def states_ok_def split: if_splits\<close>)
  moreover have "placed_ok s' ?Q ?S P A" using ok unfolding sched_ok_def placed_ok_def R(4,6,7) x qd by blast
  ultimately have "sched_ok s' ?Q ?S P A" using ok R(2) unfolding sched_ok_def R(4) x by blast
  then show ?thesis using R by blast
qed

lemma drain_starved_ok:
  assumes "sched_ok s Q S P A" "\<forall>c \<in> set cs. c < g_cpu_count s" "distinct cs"
  shows "\<exists>m s'. drain_starved cs n s = Some (m, s') \<and> g_cpu_count s' = g_cpu_count s \<and> runq_state.more s' = runq_state.more s
    \<and> sched_ok s' (\<lambda>c. if c \<in> set cs then Q c @ S c else Q c) (\<lambda>c. if c \<in> set cs then [] else S c) P A
    \<and> tstate s' = (\<lambda>p. if \<exists>c \<in> set cs. p \<in> set (S c) then TASK_STATE_READY else tstate s p)"
  using assms
proof (induction cs arbitrary: s Q S n)
  case (Cons c cs)
  have c: "c < g_cpu_count s" using Cons.prems(2) by simp
  from refill_ok [OF Cons.prems(1) c] obtain s1 where
    R: "runq_refill_starved c s = Some (of_nat (length (S c)), s1)" "sched_ok s1 (Q(c := Q c @ S c)) (S(c := [])) P A"
      "g_cpu_count s1 = g_cpu_count s" "runq_state.more s1 = runq_state.more s"
      "tstate s1 = (\<lambda>p. if p \<in> set (S c) then TASK_STATE_READY else tstate s p)" by blast
  let ?s = "upd_rq c (\<lambda>q. q\<lparr>last_epoch_tick_ticks := g_timer_ticks s1\<rparr>) s1"
  have "same_core s1 ?s" by (simp add: same_core_def upd_rq_def same_rq_def)
  then have ok: "sched_ok ?s (Q(c := Q c @ S c)) (S(c := [])) P A" using same_core_ok R(2) by blast
  have f: "g_cpu_count ?s = g_cpu_count s" "runq_state.more ?s = runq_state.more s" "tstate ?s = tstate s1" using R(3,4) by (simp_all add: upd_rq_def)
  have m: "\<forall>d\<in>set cs. d < g_cpu_count ?s" "distinct cs" using Cons.prems(2,3) f(1) by simp_all
  from Cons.IH [OF ok m, of "n + of_nat (length (S c))"] obtain k s' where
    I: "drain_starved cs (n + of_nat (length (S c))) ?s = Some (k, s')" "g_cpu_count s' = g_cpu_count s" "runq_state.more s' = runq_state.more s"
      "sched_ok s' (\<lambda>d. if d \<in> set cs then (Q(c := Q c @ S c)) d @ (S(c := [])) d else (Q(c := Q c @ S c)) d)
        (\<lambda>d. if d \<in> set cs then [] else (S(c := [])) d) P A"
      "tstate s' = (\<lambda>p. if \<exists>d \<in> set cs. p \<in> set ((S(c := [])) d) then TASK_STATE_READY else tstate s1 p)" unfolding f by blast
  have q: "(\<lambda>d. if d \<in> set cs then (Q(c := Q c @ S c)) d @ (S(c := [])) d else (Q(c := Q c @ S c)) d)
      = (\<lambda>d. if d \<in> set (c # cs) then Q d @ S d else Q d)" "(\<lambda>d. if d \<in> set cs then [] else (S(c := [])) d) = (\<lambda>d. if d \<in> set (c # cs) then [] else S d)"
    using Cons.prems(3) by (auto simp: fun_eq_iff)
  have t: "tstate s' = (\<lambda>p. if \<exists>d \<in> set (c # cs). p \<in> set (S d) then TASK_STATE_READY else tstate s p)"
    unfolding I(5) R(5) using Cons.prems(3) by (auto simp: fun_eq_iff)
  show ?case using I(1-3) I(4) [unfolded q] t R(1) by (intro exI [of _ k] exI [of _ s']) simp
qed (simp add: fun_eq_iff)

lemma epoch_fold:
  "fold epoch_refill_one ps (s, n) = (s', n') \<Longrightarrow> same_core s s' \<and> cpu_time_slice_budget_ns s' = cpu_time_slice_budget_ns s \<and> ph s' = ph s
    \<and> cpu_budget_remaining_ns s' = (\<lambda>t. if t \<in> set ps \<and> t \<noteq> NULL \<and> cpu_time_slice_budget_ns s t \<noteq> 0 then cpu_time_slice_budget_ns s t
        else cpu_budget_remaining_ns s t)"
proof (induction ps arbitrary: s n)
  case Nil
  then show ?case by (simp add: same_core_def)
next
  case (Cons t ps)
  obtain s1 n1 where e: "epoch_refill_one t (s, n) = (s1, n1)" by (metis surj_pair)
  then have f: "same_core s s1" "cpu_time_slice_budget_ns s1 = cpu_time_slice_budget_ns s" "ph s1 = ph s"
    "cpu_budget_remaining_ns s1 = (\<lambda>p. if p = t \<and> t \<noteq> NULL \<and> cpu_time_slice_budget_ns s t \<noteq> 0 then cpu_time_slice_budget_ns s t
        else cpu_budget_remaining_ns s p)"
    by (auto simp: epoch_refill_one_def same_core_def fun_eq_iff split: if_splits)
  have "fold epoch_refill_one ps (s1, n1) = (s', n')" using Cons.prems e by simp
  from Cons.IH [OF this, unfolded f(2,3)] have "same_core s1 s'" "cpu_time_slice_budget_ns s' = cpu_time_slice_budget_ns s" "ph s' = ph s"
    "cpu_budget_remaining_ns s' = (\<lambda>t. if t \<in> set ps \<and> t \<noteq> NULL \<and> cpu_time_slice_budget_ns s t \<noteq> 0 then cpu_time_slice_budget_ns s t
        else cpu_budget_remaining_ns s1 t)" by blast+
  then show ?case using f(1,4) by (auto simp: same_core_def same_rq_def fun_eq_iff)
qed

lemma epoch_tick_ok:
  assumes ok: "sched_ok s Q S P A" and p: "ph_inv (ph s) ps"
  shows "\<exists>s'. rlimit_epoch_tick s = Some s' \<and> g_cpu_count s' = g_cpu_count s
    \<and> sched_ok s' (\<lambda>c. if c < g_cpu_count s then Q c @ S c else Q c) (\<lambda>c. if c < g_cpu_count s then [] else S c) P A
    \<and> tstate s' = (\<lambda>p. if \<exists>c < g_cpu_count s. p \<in> set (S c) then TASK_STATE_READY else tstate s p)
    \<and> cpu_budget_remaining_ns s' = (\<lambda>t. if t \<in> set ps \<and> t \<noteq> NULL \<and> cpu_time_slice_budget_ns s t \<noteq> 0 then cpu_time_slice_budget_ns s t
        else cpu_budget_remaining_ns s t)"
proof -
  obtain s1 n1 where e: "fold epoch_refill_one ps (s, 0) = (s1, n1)" by (metis surj_pair)
  note F = epoch_fold [OF e]
  have ok1: "sched_ok s1 Q S P A" using same_core_ok F ok by blast
  have n: "g_cpu_count s1 = g_cpu_count s" "tstate s1 = tstate s" using F by (simp_all add: same_core_def)
  from drain_starved_ok [OF ok1, of "[0..<g_cpu_count s1]" 0] obtain m s2 where
    D: "drain_starved [0..<g_cpu_count s1] 0 s1 = Some (m, s2)" "g_cpu_count s2 = g_cpu_count s" "runq_state.more s2 = runq_state.more s1"
      "sched_ok s2 (\<lambda>c. if c < g_cpu_count s then Q c @ S c else Q c) (\<lambda>c. if c < g_cpu_count s then [] else S c) P A"
      "tstate s2 = (\<lambda>p. if \<exists>c < g_cpu_count s. p \<in> set (S c) then TASK_STATE_READY else tstate s p)"
    unfolding n by (auto simp: Bex_def)
  let ?s = "log_ev (AuditEpoch n1 m) s2"
  have "same_core s2 ?s" by (simp add: same_core_def log_ev_def)
  then have "sched_ok ?s (\<lambda>c. if c < g_cpu_count s then Q c @ S c else Q c) (\<lambda>c. if c < g_cpu_count s then [] else S c) P A"
    using same_core_ok D(4) by blast
  moreover have "rlimit_epoch_tick s = Some ?s" using enumerate_inv [OF p, of epoch_refill_one "(s, 0)"] e D(1) by (simp add: rlimit_epoch_tick_def)
  moreover have "cpu_budget_remaining_ns s2 = cpu_budget_remaining_ns s1" using D(3) by (cases s1; cases s2) simp
  ultimately show ?thesis using F D(2,5) by (intro exI [of _ ?s]) (simp add: log_ev_def)
qed

text \<open>
  C33: An epoch tick ends starvation. Whatever the queues hold, \<^verbatim>\<open>rlimit_epoch_tick\<close> returns; afterwards no
  processor has a starved task, every task that was starved stands in the run queue of its processor
  behind the tasks that were ready, in the order of the starved list, and every task of the task
  table that has a budget has the whole of it again.
\<close>

theorem epoch_ends_starvation:
  assumes "sched_ok s Q S P A" "ph_inv (ph s) ps"
  shows "\<exists>s'. rlimit_epoch_tick s = Some s'
    \<and> sched_ok s' (\<lambda>c. if c < g_cpu_count s then Q c @ S c else Q c) (\<lambda>c. if c < g_cpu_count s then [] else S c) P A
    \<and> (\<forall>t. tstate s' t = TASK_STATE_STARVED \<longrightarrow> tstate s t = TASK_STATE_STARVED \<and> t \<notin> queued (g_cpu_count s) Q S)
    \<and> (\<forall>t \<in> set ps. cpu_time_slice_budget_ns s t \<noteq> 0 \<longrightarrow> cpu_budget_remaining_ns s' t = cpu_time_slice_budget_ns s t)"
proof -
  from epoch_tick_ok [OF assms] obtain s' where E: "rlimit_epoch_tick s = Some s'"
    "sched_ok s' (\<lambda>c. if c < g_cpu_count s then Q c @ S c else Q c) (\<lambda>c. if c < g_cpu_count s then [] else S c) P A"
    "tstate s' = (\<lambda>p. if \<exists>c < g_cpu_count s. p \<in> set (S c) then TASK_STATE_READY else tstate s p)"
    "cpu_budget_remaining_ns s' = (\<lambda>t. if t \<in> set ps \<and> t \<noteq> NULL \<and> cpu_time_slice_budget_ns s t \<noteq> 0 then cpu_time_slice_budget_ns s t
        else cpu_budget_remaining_ns s t)" by blast
  have "tstate s t = TASK_STATE_STARVED \<and> t \<notin> queued (g_cpu_count s) Q S" if "tstate s' t = TASK_STATE_STARVED" for t
  proof -
    have t: "tstate s t = TASK_STATE_STARVED" "\<forall>c < g_cpu_count s. t \<notin> set (S c)" using that unfolding E(3) by (auto split: if_splits)
    moreover have "t \<notin> set (Q c)" if "c < g_cpu_count s" for c
    proof
      assume "t \<in> set (Q c)"
      then have "tstate s t \<in> {TASK_STATE_READY, TASK_STATE_ZOMBIE}" using assms(1) that unfolding sched_ok_def states_ok_def by blast
      with t(1) show False by simp
    qed
    ultimately show ?thesis by (auto simp: queued_def on_cpu_def)
  qed
  moreover have "t \<noteq> NULL" if "t \<in> set ps" for t using assms(2) that dseg_nonnull by (auto simp: ph_inv_def list_ok_def)
  ultimately show ?thesis using E by (intro exI [of _ s']) simp
qed

definition starved_demo :: sched_state where
  "starved_demo = runq_push_starved 0 10 (demo_sched\<lparr>ph := pid_hash_insert 10 (pid_hash_init (ph demo_sched))\<rparr>)"

theorem epoch_ends_starvation_witness:
  "\<exists>s'. rlimit_epoch_tick starved_demo = Some s' \<and> cpu_budget_remaining_ns s' 10 = 1000
    \<and> sched_ok s' ((\<lambda>_. [])(0 := [10])) (\<lambda>_. []) [] {0, 1}"
proof -
  let ?s = "demo_sched\<lparr>ph := pid_hash_insert 10 (pid_hash_init (ph demo_sched))\<rparr>" and ?S = "(\<lambda>_. [])(0 := [10]) :: nat \<Rightarrow> ptr list"
  have "same_core demo_sched ?s" by (simp add: same_core_def)
  then have ok: "sched_ok ?s (\<lambda>_. []) (\<lambda>_. []) [] {0, 1}" using same_core_ok demo_sched_ok by blast
  have w: "tstate ?s 10 = TASK_STATE_CHAN_WAIT" "g_cpu_count ?s = 2" by (simp_all add: demo_sched_def)
  have "unplaced ?s (\<lambda>_. []) (\<lambda>_. []) [] {0, 1} 10" by (rule waiting_unplaced [OF ok]) (simp add: demo_sched_def)
  from push_starved_ok [OF ok this, of 0] have o: "sched_ok starved_demo (\<lambda>_. []) ?S [] {0, 1}" by (simp add: starved_demo_def w(2))
  have f: "ph starved_demo = ph ?s" "g_cpu_count starved_demo = 2" "cpu_time_slice_budget_ns starved_demo = (\<lambda>_. 1000)"
  proof -
    have "(10 :: ptr) \<noteq> NULL" by simp
    note E = push_starved_eqs [OF this, of 0 ?s, folded starved_demo_def]
    show "ph starved_demo = ph ?s" by (rule sched_ext(16) [OF E(8)])
    show "g_cpu_count starved_demo = 2" using E(5) w(2) by simp
    show "cpu_time_slice_budget_ns starved_demo = (\<lambda>_. 1000)" by (subst sched_ext_io(9) [OF E(8)]) (simp add: demo_sched_def)
  qed
  have p: "ph_inv (ph starved_demo) [10]" unfolding f(1) using insert_inv [OF init_inv, of 10 "ph demo_sched"] by simp
  have q: "(\<lambda>c. if c < 2 then [] @ ?S c else []) = ?S" "(\<lambda>c. if c < 2 then [] else ?S c) = (\<lambda>_. [])" by (auto simp: fun_eq_iff)
  from epoch_ends_starvation [OF o p, unfolded f(2) q] show ?thesis unfolding f(3) by auto
qed

section \<open>The token bucket\<close>

text \<open>
  \<open>js\<close> are the jobs of a task that wait for tokens, \<open>ws\<close> those of the worker; both lists are linked through
  \<open>worker_next\<close>.
\<close>

definition io_ok :: "'a sched_state_scheme \<Rightarrow> ptr \<Rightarrow> ptr list \<Rightarrow> ptr list \<Rightarrow> bool" where
  "io_ok s t js ws \<longleftrightarrow> sseg (worker_next s) js NULL \<and> io_pending_head s t = hd0 js NULL \<and> sseg (worker_next s) ws NULL
    \<and> worker_head s = hd0 ws NULL \<and> worker_tail s = last0 NULL ws \<and> distinct (js @ ws)"

lemma wake_one_io:
  "worker_next (snd (wake_one self h r s)) = worker_next s" "io_pending_head (snd (wake_one self h r s)) = io_pending_head s"
  "worker_head (snd (wake_one self h r s)) = worker_head s" "worker_tail (snd (wake_one self h r s)) = worker_tail s"
  "io_tokens (snd (wake_one self h r s)) = io_tokens s" "job_len (snd (wake_one self h r s)) = job_len s"
  "io_rate_bytes_per_sec (snd (wake_one self h r s)) = io_rate_bytes_per_sec s" "worker_count (snd (wake_one self h r s)) = worker_count s"
  by (simp_all add: wake_one_def Let_def sched_maybe_doorbell_ipi_def log_ev_def set_state_def)

lemma worker_enqueue_eqs:
  assumes "job \<noteq> NULL"
  shows "worker_next (stream_worker_enqueue self job s) =
      (if worker_tail s \<noteq> NULL then (worker_next s)(job := NULL, worker_tail s := job) else (worker_next s)(job := NULL))"
    "worker_head (stream_worker_enqueue self job s) = (if worker_tail s \<noteq> NULL then worker_head s else job)"
    "worker_tail (stream_worker_enqueue self job s) = job" "worker_count (stream_worker_enqueue self job s) = worker_count s + 1"
    "io_pending_head (stream_worker_enqueue self job s) = io_pending_head s" "io_tokens (stream_worker_enqueue self job s) = io_tokens s"
    "job_len (stream_worker_enqueue self job s) = job_len s" "io_rate_bytes_per_sec (stream_worker_enqueue self job s) = io_rate_bytes_per_sec s"
  using assms by (simp_all add: stream_worker_enqueue_def Let_def wake_one_io)

text \<open>Appending a job to the queue of the worker; any other list of jobs stays as it is.\<close>

lemma worker_enqueue_queue:
  fixes self :: nat
  assumes w: "sseg (worker_next s) ws NULL" "worker_head s = hd0 ws NULL" "worker_tail s = last0 NULL ws" "distinct ws"
    and j: "j \<noteq> NULL" "j \<notin> set ws"
  defines "s' \<equiv> stream_worker_enqueue self j s"
  shows "sseg (worker_next s') (ws @ [j]) NULL" "worker_head s' = hd0 (ws @ [j]) NULL" "worker_tail s' = last0 NULL (ws @ [j])"
    "set ks \<inter> set (j # ws) = {} \<Longrightarrow> sseg (worker_next s') ks NULL = sseg (worker_next s) ks NULL"
proof -
  have z: "last0 NULL ws = NULL \<longleftrightarrow> ws = []" using sseg_nonnull [OF w(1)] last0_in [of ws NULL] by (cases "ws = []") auto
  note E = worker_enqueue_eqs [OF j(1), of self s, folded s'_def, unfolded w(3) z]
  show "worker_tail s' = last0 NULL (ws @ [j])" using E(3) by simp
  show "worker_head s' = hd0 (ws @ [j]) NULL" using E(2) w(2) by (simp add: hd0_def)
  show "sseg (worker_next s') (ws @ [j]) NULL"
  proof (cases "ws = []")
    case False
    have "sseg ((worker_next s)(j := NULL)) ws NULL = sseg (worker_next s) ws NULL" by (rule sseg_cong) (use j(2) in auto)
    with w(1) have "sseg (((worker_next s)(j := NULL))(last ws := j)) ws j" using sseg_retarget w(4) False by blast
    moreover have "last ws \<noteq> j" using False j(2) by auto
    ultimately show ?thesis using E(1) False j(1) by (simp add: last0_def)
  qed (use E(1) j(1) in simp)
  show "sseg (worker_next s') ks NULL = sseg (worker_next s) ks NULL" if "set ks \<inter> set (j # ws) = {}"
  proof (rule sseg_cong)
    fix x
    assume x: "x \<in> set ks"
    have 1: "x \<noteq> j" using x that by auto
    have 2: "ws \<noteq> [] \<Longrightarrow> x \<noteq> last0 NULL ws" using x that last0_in [of ws NULL] by auto
    show "worker_next s' x = worker_next s x" unfolding E(1) using 1 2 by simp
  qed
qed


lemma sint_minus_fits: "0 \<le> sint (b :: u64) \<Longrightarrow> sint b \<le> sint a \<Longrightarrow> sint (a - b) = sint a - sint b"
proof -
  assume "0 \<le> sint b" "sint b \<le> sint a"
  moreover have "sint a < 2 ^ 63" using sint_lt [of a] by simp
  ultimately show ?thesis by (simp add: sint_word_ariths signed_take_bit_int_eq_self)
qed

lemma sint_small: "unat (w :: u64) < 2 ^ 63 \<Longrightarrow> sint w = int (unat w)"
proof -
  assume a: "unat w < 2 ^ 63"
  have u: "uint w = int (unat w)" by simp
  have "uint w < 2 ^ 63" using a unfolding u by (metis of_nat_less_iff of_nat_numeral of_nat_power)
  moreover have "- (2 ^ 63) \<le> uint w" by (rule order_trans [of _ 0]) simp_all
  ultimately have "signed_take_bit 63 (uint w) = uint w" by (rule signed_take_bit_int_eq_self [rotated])
  then have "sint w = uint w" by (subst sint_uint) simp
  then show ?thesis unfolding u .
qed

definition total_len :: "'a sched_state_scheme \<Rightarrow> ptr list \<Rightarrow> int" where
  "total_len s js = sum_list (map (\<lambda>j. int (unat (job_len s j))) js)"

text \<open>One job goes from the waiting list of its task to the queue of the worker.\<close>

lemma drain_one:
  fixes self :: nat
  assumes io: "io_ok s t (j # js) ws"
  defines "s1 \<equiv> s\<lparr>io_tokens := (io_tokens s)(t := io_tokens s t - job_len s j),
      io_pending_head := (io_pending_head s)(t := worker_next s j), worker_next := (worker_next s)(j := NULL)\<rparr>"
  defines "s2 \<equiv> stream_worker_enqueue self j s1"
  shows "io_ok s2 t js (ws @ [j])" "io_pending_head s2 = (io_pending_head s)(t := hd0 js NULL)"
    "io_tokens s2 = (io_tokens s)(t := io_tokens s t - job_len s j)" "job_len s2 = job_len s" "io_rate_bytes_per_sec s2 = io_rate_bytes_per_sec s"
    "set ks \<inter> set (j # ws) = {} \<Longrightarrow> sseg (worker_next s2) ks NULL = sseg (worker_next s) ks NULL"
proof -
  have j: "j \<noteq> NULL" "j \<notin> set js" "j \<notin> set ws" "io_pending_head s t = j" "worker_next s j = hd0 js NULL"
    using io by (auto simp: io_ok_def)
  have n1: "sseg (worker_next s1) ks NULL = sseg (worker_next s) ks NULL" if "j \<notin> set ks" for ks
    by (rule sseg_cong) (use that in \<open>auto simp: s1_def\<close>)
  have f1: "worker_head s1 = hd0 ws NULL" "worker_tail s1 = last0 NULL ws" "distinct ws" "sseg (worker_next s1) ws NULL"
    using io n1 j(3) by (simp_all add: io_ok_def s1_def)
  note W = worker_enqueue_queue [OF f1(4,1,2,3) j(1,3), where self = self, folded s2_def]
  have n2: "sseg (worker_next s2) ks NULL = sseg (worker_next s) ks NULL" if "set ks \<inter> set (j # ws) = {}" for ks
    using W(4) [OF that] n1 [of ks] that by auto
  then show "set ks \<inter> set (j # ws) = {} \<Longrightarrow> sseg (worker_next s2) ks NULL = sseg (worker_next s) ks NULL" .
  have "set js \<inter> set (j # ws) = {}" using io by (auto simp: io_ok_def)
  then have "sseg (worker_next s2) js NULL" using n2 io by (simp add: io_ok_def)
  moreover show f2: "io_pending_head s2 = (io_pending_head s)(t := hd0 js NULL)" "io_tokens s2 = (io_tokens s)(t := io_tokens s t - job_len s j)"
    "job_len s2 = job_len s" "io_rate_bytes_per_sec s2 = io_rate_bytes_per_sec s"
    using worker_enqueue_eqs [OF j(1), of self s1] j(5) by (simp_all add: s2_def s1_def)
  ultimately show "io_ok s2 t js (ws @ [j])" using W(1-3) io by (auto simp: io_ok_def)
qed

text \<open>
  The jobs leave in order while the tokens last. \<open>ks\<close> is any other list of jobs; the sums are exact if no
  length is negative as a signed number.
\<close>

definition drain_sums :: "'a sched_state_scheme \<Rightarrow> ptr \<Rightarrow> ptr list \<Rightarrow> nat \<Rightarrow> 'a sched_state_scheme \<Rightarrow> bool" where
  "drain_sums s t js k s' \<longleftrightarrow> sint (io_tokens s' t) = sint (io_tokens s t) - total_len s (take k js) \<and> 0 \<le> sint (io_tokens s' t)
    \<and> (k < length js \<longrightarrow> sint (io_tokens s' t) < int (unat (job_len s (js ! k))))"

lemma drain_pending_ok:
  assumes "io_ok s t js ws"
  shows "\<exists>k s'. drain_pending self t s = Some s' \<and> k \<le> length js \<and> io_ok s' t (drop k js) (ws @ take k js)
    \<and> wake_step s s' \<and> job_len s' = job_len s \<and> io_rate_bytes_per_sec s' = io_rate_bytes_per_sec s
    \<and> (\<forall>u. u \<noteq> t \<longrightarrow> io_pending_head s' u = io_pending_head s u \<and> io_tokens s' u = io_tokens s u)
    \<and> (\<forall>ks. set ks \<inter> set (js @ ws) = {} \<longrightarrow> sseg (worker_next s') ks NULL = sseg (worker_next s) ks NULL)
    \<and> ((\<forall>j \<in> set js. unat (job_len s j) < 2 ^ 63) \<longrightarrow> 0 \<le> sint (io_tokens s t) \<longrightarrow> drain_sums s t js k s')"
  using assms
proof (induction js arbitrary: s ws)
  case Nil
  then show ?case by (subst drain_pending.simps) (simp add: io_ok_def total_len_def drain_sums_def)
next
  case (Cons j js)
  have j: "j \<noteq> NULL" "j \<notin> set js" "j \<notin> set ws" "io_pending_head s t = j" "worker_next s j = hd0 js NULL"
    using Cons.prems(1) by (auto simp: io_ok_def)
  show ?case
  proof (cases "sint (io_tokens s t) < sint (job_len s j)")
    case True
    then have "drain_pending self t s = Some s" using j by (subst drain_pending.simps) (simp add: Let_def)
    moreover have "drain_sums s t (j # js) 0 s" if "\<forall>j \<in> set (j # js). unat (job_len s j) < 2 ^ 63" "0 \<le> sint (io_tokens s t)"
    proof -
      have "sint (job_len s j) = int (unat (job_len s j))" by (rule sint_small) (use that in simp)
      then show ?thesis using True that(2) by (simp add: drain_sums_def total_len_def)
    qed
    ultimately show ?thesis using Cons.prems by (intro exI [of _ 0] exI [of _ s]) simp
  next
    case False
    define s1 where "s1 = s\<lparr>io_tokens := (io_tokens s)(t := io_tokens s t - job_len s j),
      io_pending_head := (io_pending_head s)(t := worker_next s j), worker_next := (worker_next s)(j := NULL)\<rparr>"
    define s2 where "s2 = stream_worker_enqueue self j s1"
    have e: "drain_pending self t s = drain_pending self t s2"
      using False j by (subst drain_pending.simps) (simp add: Let_def s1_def s2_def)
    note S = drain_one [OF Cons.prems, where self = self, folded s1_def s2_def]
    have ws: "wake_step s s2" unfolding s2_def
      by (rule wake_step_trans [OF wake_step_core worker_enqueue_step]) (simp_all add: s1_def same_core_def wakes_def)
    from Cons.IH [OF S(1)] obtain k s' where
      I: "drain_pending self t s2 = Some s'" "k \<le> length js" "io_ok s' t (drop k js) ((ws @ [j]) @ take k js)" "wake_step s2 s'" "job_len s' = job_len s2"
        "io_rate_bytes_per_sec s' = io_rate_bytes_per_sec s2"
        "\<forall>u. u \<noteq> t \<longrightarrow> io_pending_head s' u = io_pending_head s2 u \<and> io_tokens s' u = io_tokens s2 u"
        "\<forall>ks. set ks \<inter> set (js @ ws @ [j]) = {} \<longrightarrow> sseg (worker_next s') ks NULL = sseg (worker_next s2) ks NULL"
        "(\<forall>j \<in> set js. unat (job_len s2 j) < 2 ^ 63) \<longrightarrow> 0 \<le> sint (io_tokens s2 t) \<longrightarrow> drain_sums s2 t js k s'" by blast
    have n: "\<forall>ks. set ks \<inter> set ((j # js) @ ws) = {} \<longrightarrow> sseg (worker_next s') ks NULL = sseg (worker_next s) ks NULL"
    proof (intro allI impI)
      fix ks
      assume a: "set ks \<inter> set ((j # js) @ ws) = {}"
      then have "set ks \<inter> set (js @ ws @ [j]) = {}" "set ks \<inter> set (j # ws) = {}" by auto
      then show "sseg (worker_next s') ks NULL = sseg (worker_next s) ks NULL" using I(8) S(6) by simp
    qed
    have "drain_sums s t (j # js) (Suc k) s'" if l: "\<forall>j \<in> set (j # js). unat (job_len s j) < 2 ^ 63" "0 \<le> sint (io_tokens s t)"
    proof -
      have sl: "sint (job_len s j) = int (unat (job_len s j))" by (rule sint_small) (use l in simp)
      have tk: "sint (io_tokens s2 t) = sint (io_tokens s t) - int (unat (job_len s j))" "0 \<le> sint (io_tokens s2 t)"
        using sint_minus_fits [of "job_len s j" "io_tokens s t"] False sl S(3) by simp_all
      have "drain_sums s2 t js k s'" using I(9) l S(4) tk(2) by simp
      then show ?thesis using tk(1) S(4) by (auto simp: drain_sums_def total_len_def)
    qed
    then show ?thesis using I(1-3,5-7) wake_step_trans [OF ws I(4)] S(2-5) e n by (intro exI [of _ "Suc k"] exI [of _ s']) simp
  qed
qed

text \<open>The tokens a tick adds.\<close>

definition io_step :: "u64 \<Rightarrow> nat" where
  "io_step rate = max 1 (unat rate div 100)"

lemma unat_refill:
  assumes "rate \<noteq> 0"
  shows "unat (if rate div 100 = 0 \<and> 0 < rate then 1 else rate div 100 :: u64) = io_step rate"
proof -
  have u: "unat (rate div 100) = unat rate div 100" by (simp add: unat_div)
  have p: "0 < rate" using assms by (simp add: word_gt_0)
  show ?thesis
  proof (cases "rate div 100 = 0")
    case True
    have "unat rate div 100 = 0" unfolding u [symmetric] True by simp
    then show ?thesis unfolding io_step_def using True p by simp
  next
    case False
    then have "unat (rate div 100) \<noteq> 0" by (simp only: unat_eq_zero not_False_eq_True)
    then have "1 \<le> unat rate div 100" unfolding u by simp
    then show ?thesis unfolding io_step_def using False u by (simp only: simp_thms if_False max_absorb2)
  qed
qed

lemma sint_plus_fits: "0 \<le> sint (a :: u64) \<Longrightarrow> 0 \<le> sint b \<Longrightarrow> sint a + sint b < 2 ^ 63 \<Longrightarrow> sint (a + b) = sint a + sint b"
  by (simp add: sint_word_ariths signed_take_bit_int_eq_self)

lemma top_up_ok:
  assumes r: "io_rate_bytes_per_sec s t = rate" "rate \<noteq> 0" "unat rate < 2 ^ 62" and k: "0 \<le> sint (io_tokens s t)" "sint (io_tokens s t) \<le> int (unat rate)"
  shows "sint (io_tokens (top_up t s) t) = min (int (unat rate)) (sint (io_tokens s t) + int (io_step rate))"
    "io_pending_head (top_up t s) = io_pending_head s"
proof -
  define f where "f = (if rate div 100 = 0 \<and> 0 < rate then 1 else rate div 100 :: u64)"
  have sr: "sint rate = int (unat rate)" by (rule sint_small) (use r(3) in simp)
  have u: "unat f = io_step rate" unfolding f_def by (rule unat_refill [OF r(2)])
  have b: "io_step rate < 2 ^ 62" using r(3) by (simp add: io_step_def)
  have "sint f = int (unat f)" by (rule sint_small) (use u b in simp)
  then have sf: "sint f = int (io_step rate)" unfolding u .
  have "int (unat rate) < 2 ^ 62" using r(3) by (metis of_nat_less_iff of_nat_numeral of_nat_power)
  moreover have "int (io_step rate) < 2 ^ 62" using b by (metis of_nat_less_iff of_nat_numeral of_nat_power)
  ultimately have "sint (io_tokens s t) + sint f < 2 ^ 63" using k(2) sf by simp
  then have "sint (io_tokens s t + f) = sint (io_tokens s t) + sint f" by (intro sint_plus_fits) (use k(1) sf in simp_all)
  then have st: "sint (io_tokens s t + f) = sint (io_tokens s t) + int (io_step rate)" unfolding sf .
  have e: "io_tokens (top_up t s) t = (if sint rate < sint (io_tokens s t + f) then rate else io_tokens s t + f)"
    using r(1) by (simp add: top_up_def Let_def f_def)
  show "sint (io_tokens (top_up t s) t) = min (int (unat rate)) (sint (io_tokens s t) + int (io_step rate))"
    unfolding e using st sr by (cases "sint rate < sint (io_tokens s t + f)") (simp_all add: min_def)
  show "io_pending_head (top_up t s) = io_pending_head s" by (simp add: top_up_def Let_def)
qed


datatype io_op = Io_Check u64 | Io_Tick

text \<open>The bytes the checks let through, and the state; a tick refills the bucket and sends waiting jobs.\<close>

fun io_exec :: "nat \<Rightarrow> ptr \<Rightarrow> io_op list \<Rightarrow> 'a sched_state_scheme \<Rightarrow> (nat \<times> 'a sched_state_scheme) option" where
  "io_exec self t [] s = Some (0, s)"
| "io_exec self t (Io_Check b # ops) s =
    (case rlimit_check_io t b s of (r, s') \<Rightarrow> map_option (\<lambda>(n, s). (n + (if r = 0 then unat b else 0), s)) (io_exec self t ops s'))"
| "io_exec self t (Io_Tick # ops) s = (case rlimit_refill_io_tokens self t s of None \<Rightarrow> None | Some s' \<Rightarrow> io_exec self t ops s')"

definition io_bounds :: "'a sched_state_scheme \<Rightarrow> ptr \<Rightarrow> u64 \<Rightarrow> ptr list \<Rightarrow> ptr list \<Rightarrow> bool" where
  "io_bounds s t rate js ws \<longleftrightarrow> io_ok s t js ws \<and> io_rate_bytes_per_sec s t = rate \<and> (\<forall>j \<in> set js. unat (job_len s j) < 2 ^ 63)
    \<and> 0 \<le> sint (io_tokens s t) \<and> sint (io_tokens s t) \<le> int (unat rate)"

lemma check_io_ok:
  assumes b: "io_bounds s t rate js ws" "rate \<noteq> 0" "t \<noteq> NULL" "unat n < 2 ^ 63" and c: "rlimit_check_io t n s = (r, s')"
  shows "io_bounds s' t rate js ws" "job_len s' = job_len s" "sint (io_tokens s' t) + (if r = 0 then int (unat n) else 0) = sint (io_tokens s t)"
proof -
  have n: "sint n = int (unat n)" by (rule sint_small) (rule b(4))
  have f: "s' = snd (rlimit_check_io t n s)" "r = fst (rlimit_check_io t n s)" using c by simp_all
  have o: "worker_next s' = worker_next s" "io_pending_head s' = io_pending_head s" "worker_head s' = worker_head s" "worker_tail s' = worker_tail s"
    "io_rate_bytes_per_sec s' = io_rate_bytes_per_sec s" "job_len s' = job_len s"
    unfolding f by (simp_all add: rlimit_check_io_def log_ev_def)
  show "job_len s' = job_len s" by (rule o)
  have io: "io_ok s' t js ws" using b(1) unfolding io_bounds_def io_ok_def o by blast
  have tk: "sint (io_tokens s' t) + (if r = 0 then int (unat n) else 0) = sint (io_tokens s t)" "0 \<le> sint (io_tokens s' t)"
  proof -
    have r0: "io_rate_bytes_per_sec s t \<noteq> 0" using b(1,2) by (simp add: io_bounds_def)
    show "sint (io_tokens s' t) + (if r = 0 then int (unat n) else 0) = sint (io_tokens s t)" "0 \<le> sint (io_tokens s' t)"
      unfolding f using b(1,3) r0 n sint_minus_fits [of n "io_tokens s t"] by (auto simp: rlimit_check_io_def log_ev_def io_bounds_def)
  qed
  show "sint (io_tokens s' t) + (if r = 0 then int (unat n) else 0) = sint (io_tokens s t)" by (rule tk(1))
  have "sint (io_tokens s' t) \<le> sint (io_tokens s t)" 
  proof (cases "r = 0")
    case True
    with tk(1) have "sint (io_tokens s' t) + int (unat n) = sint (io_tokens s t)" by (simp only: if_True simp_thms)
    then show ?thesis by linarith
  qed (use tk(1) in simp)
  then show "io_bounds s' t rate js ws" using io b(1) tk(2) o unfolding io_bounds_def by auto
qed

lemma len_le_total: "j \<in> set js \<Longrightarrow> int (unat (job_len s j)) \<le> total_len s js"
  unfolding total_len_def by (rule member_le_sum_list) auto

lemma tick_io_ok:
  assumes b: "io_bounds s t rate js ws" "rate \<noteq> 0" "t \<noteq> NULL" "unat rate < 2 ^ 62"
  shows "\<exists>k s'. rlimit_refill_io_tokens self t s = Some s' \<and> io_bounds s' t rate (drop k js) (ws @ take k js) \<and> job_len s' = job_len s \<and> k \<le> length js
    \<and> sint (io_tokens s' t) + total_len s (take k js) \<le> sint (io_tokens s t) + int (io_step rate)
    \<and> (\<forall>j \<in> set (take k js). unat (job_len s j) \<le> unat rate)"
proof -
  let ?s = "top_up t s"
  have r: "io_rate_bytes_per_sec s t = rate" "0 \<le> sint (io_tokens s t)" "sint (io_tokens s t) \<le> int (unat rate)" using b(1) by (simp_all add: io_bounds_def)
  note T = top_up_ok [OF r(1) b(2,4) r(2,3)]
  have o: "worker_next ?s = worker_next s" "worker_head ?s = worker_head s" "worker_tail ?s = worker_tail s"
    "io_rate_bytes_per_sec ?s = io_rate_bytes_per_sec s" "job_len ?s = job_len s"
    by (simp_all add: top_up_def Let_def)
  have io: "io_ok ?s t js ws" using b(1) unfolding io_bounds_def io_ok_def o T(2) by blast
  have "\<forall>j \<in> set js. unat (job_len ?s j) < 2 ^ 63" using b(1) unfolding io_bounds_def o by blast
  moreover have t0: "0 \<le> sint (io_tokens ?s t)" unfolding T(1) using r(2) by simp
  ultimately obtain k s' where D: "drain_pending self t ?s = Some s'" "k \<le> length js" "io_ok s' t (drop k js) (ws @ take k js)"
    "sint (io_tokens s' t) = sint (io_tokens ?s t) - total_len ?s (take k js)" "0 \<le> sint (io_tokens s' t)"
    "job_len s' = job_len ?s" "io_rate_bytes_per_sec s' = io_rate_bytes_per_sec ?s"
    using drain_pending_ok [OF io, of self] unfolding drain_sums_def by blast
  have l: "total_len ?s = total_len s" "0 \<le> total_len s (take k js)" 
    unfolding total_len_def o by (simp, rule sum_list_nonneg, auto)
  have "sint (io_tokens ?s t) \<le> int (unat rate)" "sint (io_tokens ?s t) \<le> sint (io_tokens s t) + int (io_step rate)" unfolding T(1) by simp_all
  then have "sint (io_tokens s' t) \<le> int (unat rate)" "sint (io_tokens s' t) + total_len s (take k js) \<le> sint (io_tokens s t) + int (io_step rate)"
    using D(4) l by simp_all
  moreover have "unat (job_len s j) \<le> unat rate" if "j \<in> set (take k js)" for j
  proof -
    have "int (unat (job_len s j)) \<le> total_len s (take k js)" by (rule len_le_total [OF that])
    also have "\<dots> \<le> int (unat rate)" using D(4,5) l(1) \<open>sint (io_tokens ?s t) \<le> int (unat rate)\<close> by simp
    finally show ?thesis by (simp only: of_nat_le_iff)
  qed
  moreover have "\<forall>j \<in> set (drop k js). unat (job_len s' j) < 2 ^ 63" using b(1) in_set_dropD [of _ k js] unfolding io_bounds_def D(6) o by blast
  moreover have "rlimit_refill_io_tokens self t s = Some s'" using D(1) b(2,3) r(1) by (simp add: rlimit_refill_io_tokens_def)
  ultimately show ?thesis using D(2,3,5-7) r(1) o unfolding io_bounds_def by (intro exI [of _ k] exI [of _ s']) simp
qed

lemma io_exec_ok:
  assumes "io_bounds s t rate js ws" "rate \<noteq> 0" "t \<noteq> NULL" "unat rate < 2 ^ 62" "\<forall>b. Io_Check b \<in> set ops \<longrightarrow> unat b < 2 ^ 63"
  shows "\<exists>n k s'. io_exec self t ops s = Some (n, s') \<and> io_bounds s' t rate (drop k js) (ws @ take k js) \<and> k \<le> length js \<and> job_len s' = job_len s
    \<and> int n + total_len s (take k js) + sint (io_tokens s' t) \<le> sint (io_tokens s t) + int (length (filter (\<lambda>p. p = Io_Tick) ops)) * int (io_step rate)
    \<and> (\<forall>j \<in> set (take k js). unat (job_len s j) \<le> unat rate)"
  using assms(1,5)
proof (induction ops arbitrary: s js ws)
  case Nil
  then show ?case by (auto simp: total_len_def intro!: exI [of _ 0])
next
  case (Cons p ops)
  have c: "\<forall>b. Io_Check b \<in> set ops \<longrightarrow> unat b < 2 ^ 63" using Cons.prems(2) by simp
  show ?case
  proof (cases p)
    case (Io_Check b)
    obtain r s1 where e: "rlimit_check_io t b s = (r, s1)" by (metis surj_pair)
    note C = check_io_ok [OF Cons.prems(1) assms(2,3) _ e]
    have b: "unat b < 2 ^ 63" using Cons.prems(2) Io_Check by simp
    from Cons.IH [OF C(1) [OF b] c] obtain n k s' where I: "io_exec self t ops s1 = Some (n, s')" "io_bounds s' t rate (drop k js) (ws @ take k js)"
      "k \<le> length js" "job_len s' = job_len s1"
      "int n + total_len s1 (take k js) + sint (io_tokens s' t) \<le> sint (io_tokens s1 t) + int (length (filter (\<lambda>p. p = Io_Tick) ops)) * int (io_step rate)"
      "\<forall>j \<in> set (take k js). unat (job_len s1 j) \<le> unat rate" by blast
    have l: "total_len s1 = total_len s" using C(2) [OF b] by (simp add: total_len_def fun_eq_iff)
    show ?thesis
      using I(1-4,6) I(5) [unfolded l] C(2,3) [OF b] e Io_Check by (intro exI [of _ "n + (if r = 0 then unat b else 0)"] exI [of _ k] exI [of _ s']) auto
  next
    case Io_Tick
    from tick_io_ok [OF Cons.prems(1) assms(2-4), of self] obtain k1 s1 where
      T: "rlimit_refill_io_tokens self t s = Some s1" "io_bounds s1 t rate (drop k1 js) (ws @ take k1 js)" "job_len s1 = job_len s" "k1 \<le> length js"
        "sint (io_tokens s1 t) + total_len s (take k1 js) \<le> sint (io_tokens s t) + int (io_step rate)"
        "\<forall>j \<in> set (take k1 js). unat (job_len s j) \<le> unat rate" by blast
    from Cons.IH [OF T(2) c] obtain n k s' where I: "io_exec self t ops s1 = Some (n, s')"
      "io_bounds s' t rate (drop k (drop k1 js)) ((ws @ take k1 js) @ take k (drop k1 js))" "k \<le> length (drop k1 js)" "job_len s' = job_len s1"
      "int n + total_len s1 (take k (drop k1 js)) + sint (io_tokens s' t) \<le> sint (io_tokens s1 t) + int (length (filter (\<lambda>p. p = Io_Tick) ops)) * int (io_step rate)"
      "\<forall>j \<in> set (take k (drop k1 js)). unat (job_len s1 j) \<le> unat rate" by blast
    have tk: "take (k1 + k) js = take k1 js @ take k (drop k1 js)" by (rule take_add)
    have l: "total_len s1 = total_len s" "total_len s (take (k1 + k) js) = total_len s (take k1 js) + total_len s (take k (drop k1 js))"
      using T(3) unfolding tk by (simp_all add: total_len_def fun_eq_iff)
    have "io_bounds s' t rate (drop (k1 + k) js) (ws @ take (k1 + k) js)" using I(2) unfolding tk by (simp add: add.commute)
    moreover have "\<forall>j \<in> set (take (k1 + k) js). unat (job_len s j) \<le> unat rate" using T(3,6) I(6) unfolding tk by auto
    ultimately show ?thesis using I(1,3-5) T(1,3-5) l Io_Tick
      by (intro exI [of _ n] exI [of _ "k1 + k"] exI [of _ s']) (simp add: distrib_right)
  qed
qed




text \<open>
  C35: The token bucket bounds the I/O of a task. Over any sequence of requests (each below \<open>2 ^ 63\<close> bytes)
  and scheduler ticks, the bytes let through at once, the bytes of waiting jobs handed to the worker
  and the tokens left are together at most the tokens at the start plus the refill of each tick, and
  the balance stays between 0 and the rate; the waiting jobs leave in order, and none that is
  longer than the rate ever does.
\<close>

theorem io_bucket_bounds:
  assumes "io_bounds s t rate js ws" "rate \<noteq> 0" "t \<noteq> NULL" "unat rate < 2 ^ 62" "\<forall>b. Io_Check b \<in> set ops \<longrightarrow> unat b < 2 ^ 63"
  shows "\<exists>n k s'. io_exec self t ops s = Some (n, s') \<and> io_bounds s' t rate (drop k js) (ws @ take k js)
    \<and> int n + total_len s (take k js) + sint (io_tokens s' t) \<le> sint (io_tokens s t) + int (length (filter (\<lambda>p. p = Io_Tick) ops)) * int (io_step rate)
    \<and> (\<forall>j \<in> set (take k js). unat (job_len s j) \<le> unat rate)"
  using io_exec_ok [OF assms, of self] by blast

definition io_demo :: sched_state where
  "io_demo = demo_sched\<lparr>io_rate_bytes_per_sec := (\<lambda>_. 1000), io_tokens := (\<lambda>_. 500), io_pending_head := (\<lambda>_. 0)(10 := 7), job_len := (\<lambda>_. 2000)\<rparr>"

theorem io_bucket_bounds_witness:
  "\<exists>n s'. io_exec 0 10 [Io_Check 400, Io_Tick, Io_Check 300] io_demo = Some (n, s') \<and> int n + sint (io_tokens s' 10) \<le> 510 \<and> io_pending_head s' 10 = 7"
proof -
  let ?ops = "[Io_Check 400, Io_Tick, Io_Check 300]"
  have tk: "sint (io_tokens io_demo 10) = 500" by (simp add: io_demo_def)
  have b: "io_bounds io_demo 10 1000 [7] []"
    unfolding io_bounds_def tk by (simp add: io_ok_def io_demo_def) (simp add: demo_sched_def)
  have o: "\<forall>b. Io_Check b \<in> set ?ops \<longrightarrow> unat b < 2 ^ 63" by auto
  from io_bucket_bounds [OF b _ _ _ o, of 0] obtain n k s' where
    R: "io_exec 0 10 ?ops io_demo = Some (n, s')" "io_bounds s' 10 1000 (drop k [7]) (take k [7])"
      "int n + total_len io_demo (take k [7]) + sint (io_tokens s' 10) \<le> 500 + int (length (filter (\<lambda>p. p = Io_Tick) ?ops)) * int (io_step 1000)"
      "\<forall>j \<in> set (take k [7]). unat (job_len io_demo j) \<le> 1000" unfolding tk by auto
  have "k = 0" using R(4) by (cases k) (simp_all add: io_demo_def)
  then show ?thesis using R(1-3) by (auto simp: io_step_def total_len_def io_bounds_def io_ok_def)
qed

lemma sint_large: "2 ^ 63 \<le> unat (w :: u64) \<Longrightarrow> sint w = - int (2 ^ 64 - unat w)"
proof -
  assume a: "2 ^ 63 \<le> unat w"
  have l: "unat w < 2 ^ 64" using unsigned_less [of w] by simp
  have "word_of_int (- int (2 ^ 64 - unat w)) = (word_of_int (int (unat w) - 2 ^ 64) :: u64)" using l by (simp add: of_nat_diff)
  also have "\<dots> = w" by simp
  finally have e: "w = word_of_int (- int (2 ^ 64 - unat w))" ..
  have "- (2 ^ 63) \<le> - int (2 ^ 64 - n)" "- int (2 ^ 64 - n) < 2 ^ 63" if "2 ^ 63 \<le> n" "n < 2 ^ 64" for n :: nat using that by simp_all
  from this [OF a l] have "signed_take_bit 63 (- int (2 ^ 64 - unat w)) = - int (2 ^ 64 - unat w)" by (rule signed_take_bit_int_eq_self)
  then have "sint (word_of_int (- int (2 ^ 64 - unat w)) :: u64) = - int (2 ^ 64 - unat w)" by (subst signed_of_int) simp
  then show ?thesis using e by metis
qed

lemma sint_diff_fits: "0 \<le> sint a \<Longrightarrow> sint (b :: u64) \<le> 0 \<Longrightarrow> sint a - sint b < 2 ^ 63 \<Longrightarrow> sint (a - b) = sint a - sint b"
  by (simp add: sint_word_ariths signed_take_bit_int_eq_self)

text \<open>
  C36: The check reads the length of a request as a signed number. A request of \<open>2 ^ 63\<close> bytes or more is
  negative, so it is granted whatever the balance is, and taking it off the balance adds tokens: a
  task can fill its own bucket.
\<close>

theorem io_check_mints_tokens:
  assumes "t \<noteq> NULL" "io_rate_bytes_per_sec s t \<noteq> 0" "2 ^ 63 \<le> unat bytes" "0 \<le> sint (io_tokens s t)"
    "sint (io_tokens s t) + int (2 ^ 64 - unat bytes) < 2 ^ 63"
  shows "fst (rlimit_check_io t bytes s) = 0
    \<and> sint (io_tokens (snd (rlimit_check_io t bytes s)) t) = sint (io_tokens s t) + int (2 ^ 64 - unat bytes)"
proof -
  define d where "d = 2 ^ 64 - unat bytes"
  have sb: "sint bytes = - int d" unfolding d_def by (rule sint_large [OF assms(3)])
  have "sint (io_tokens s t - bytes) = sint (io_tokens s t) - sint bytes"
    by (rule sint_diff_fits [OF assms(4)]) (use assms(5) sb d_def in simp_all)
  moreover have "sint bytes \<le> sint (io_tokens s t)" using sb assms(4) by linarith
  ultimately show ?thesis unfolding d_def [symmetric] using assms(1,2) sb by (simp add: rlimit_check_io_def)
qed

theorem io_check_mints_tokens_witness:
  "fst (rlimit_check_io 10 (2 ^ 64 - 1000) io_demo) = 0 \<and> sint (io_tokens (snd (rlimit_check_io 10 (2 ^ 64 - 1000) io_demo)) 10) = 1500"
proof -
  have "unat (2 ^ 64 - 1000 :: u64) = 2 ^ 64 - 1000" by simp
  then show ?thesis using io_check_mints_tokens [of 10 io_demo "2 ^ 64 - 1000"] by (simp add: io_demo_def)
qed

end
