(* ===== verification/Scheduler.thy ===== *)
theory Scheduler
  imports Rlimit
begin

text \<open>
  The scheduler (\<^verbatim>\<open>schedule\<close>, signals, the end of a task in arch/x86_64/cpu/sched/sched.c, \<^verbatim>\<open>SYS_EXIT\<close> of
  arch/x86_64/cpu/syscall/syscall.c) and the barrier that stops the other processors while a snapshot
  is taken (kernel/snap/barrier.c). A section under a spin lock is one step; what the hardware answers
  (time stamps, trylocks, the address of the interrupt frame) is an argument. The theory shows that no
  task ever runs on two processors or stands in a queue while it runs, that a ready task is
  dispatched after the tasks before it, that the end of a barrier brings every parked task back, and where
  killed and parked tasks escape this.
\<close>

section \<open>Model\<close>

text \<open>
  How an operation ends: normally, with the processor halted, with \<^verbatim>\<open>kpanic\<close>, with an access through a
  null pointer, or not at all.
\<close>

datatype 's outcome = Done 's | Halted | Panicked string | Faulted | Diverges

record sched_env =
  se_frame_addr :: u64
  se_now :: u64
  se_dispatch_tsc :: u64
  se_locks :: "bool list"

fun deliver_from :: "nat \<Rightarrow> ptr \<Rightarrow> nat list \<Rightarrow> 'a sched_state_scheme \<Rightarrow> bool \<times> 'a sched_state_scheme" where
  "deliver_from self t [] s = (False, s)"
| "deliver_from self t (sig # sigs) s =
    (if pending_signals s t AND push_bit sig 1 = 0 then deliver_from self t sigs s
     else
      let s = s\<lparr>pending_signals := (pending_signals s)(t := pending_signals s t AND NOT (push_bit sig 1))\<rparr>;
          handler = signal_handlers s t sig
      in if handler = SIG_IGN then deliver_from self t sigs s
         else if handler = SIG_DFL then
           let s = s\<lparr>exit_status := (exit_status s)(t := 128 + int sig)\<rparr>;
               s = sched_orphan_children (task_id (ph s) t) s;
               s = wake_waiting_parent self (task_id (ph s) t) s
           in (True, set_state t TASK_STATE_ZOMBIE s)
         else deliver_from self t sigs s)"

definition sched_deliver_signals :: "nat \<Rightarrow> ptr \<Rightarrow> 'a sched_state_scheme \<Rightarrow> bool \<times> 'a sched_state_scheme" where
  "sched_deliver_signals self t s =
    (if t = NULL \<or> pending_signals s t = 0 then (False, s) else deliver_from self t [1..<MAX_SIGNALS] s)"

definition sched_send_signal :: "nat \<Rightarrow> pid \<Rightarrow> int \<Rightarrow> 'a sched_state_scheme \<Rightarrow> (int \<times> 'a sched_state_scheme) outcome" where
  "sched_send_signal self i sig s =
    (if sig < 1 \<or> sig \<ge> int MAX_SIGNALS then Done (-1, s)
     else if i < 0 \<or> nat i \<ge> next_task_id s \<or> nat i \<ge> MAX_TASKS then Done (-1, s)
     else
      let target = task_ptrs s (nat i) in
      if target = NULL then Faulted
      else if tstate s target = TASK_STATE_ZOMBIE then Done (-1, s)
      else if sig = SIGKILL then
        let s = s\<lparr>exit_status := (exit_status s)(target := 128 + SIGKILL)\<rparr>;
            s = sched_orphan_children i s;
            s = wake_waiting_parent self i s
        in Done (0, set_state target TASK_STATE_ZOMBIE s)
      else
        let s = s\<lparr>pending_signals := (pending_signals s)(target := pending_signals s target OR push_bit (nat sig) 1)\<rparr>;
            signal_woke = (tstate s target = TASK_STATE_BLOCKED);
            s = (if signal_woke then set_state target TASK_STATE_READY s else s)
        in Done (0, if signal_woke then sched_enqueue_ready target s else s))"

definition sched_set_signal_handler :: "nat \<Rightarrow> int \<Rightarrow> u64 \<Rightarrow> 'a sched_state_scheme \<Rightarrow> u64 \<times> 'a sched_state_scheme" where
  "sched_set_signal_handler self sig handler s =
    (if sig < 1 \<or> sig \<ge> int MAX_SIGNALS then (SIG_DFL, s)
     else if sig = SIGKILL then (SIG_DFL, s)
     else
      let cur = sched_get_current_task self s in
      if cur = NULL then (SIG_DFL, s)
      else (signal_handlers s cur (nat sig),
            s\<lparr>signal_handlers := (signal_handlers s)(cur := (signal_handlers s cur)(nat sig := handler))\<rparr>))"

text \<open>What \<^verbatim>\<open>SYS_EXIT\<close> does to the calling task.\<close>

definition sys_exit :: "nat \<Rightarrow> int \<Rightarrow> 'a sched_state_scheme \<Rightarrow> 'a sched_state_scheme" where
  "sys_exit self status s =
    (let cur = sched_get_current_task self s in
     if cur = NULL then s
     else
      let s = s\<lparr>exit_status := (exit_status s)(cur := status)\<rparr>;
          s = sched_orphan_children (task_id (ph s) cur) s;
          s = set_state cur TASK_STATE_ZOMBIE s
      in wake_waiting_parent self (task_id (ph s) cur) s)"

section \<open>The snapshot barrier\<close>

definition snap_barrier_park_locked :: "ptr \<Rightarrow> 'a sched_state_scheme \<Rightarrow> 'a sched_state_scheme" where
  "snap_barrier_park_locked cur s =
    (if cur = NULL then s
     else
      let s = set_state cur TASK_STATE_BARRIER_WAIT s;
          s = s\<lparr>barrier_next := (barrier_next s)(cur := parked_head s)\<rparr>;
          s = s\<lparr>parked_head := cur\<rparr>
      in s\<lparr>barrier_acks := barrier_acks s + 1\<rparr>)"

fun ipi_others :: "nat \<Rightarrow> nat list \<Rightarrow> 'a sched_state_scheme \<Rightarrow> 'a sched_state_scheme" where
  "ipi_others self [] s = s"
| "ipi_others self (i # is) s = (if i = self then ipi_others self is s else ipi_others self is (log_ev (Ipi i) s))"

text \<open>
  \<^verbatim>\<open>snap_begin_barrier\<close> up to its polling loop; \<open>None\<close> is the early return of \<^verbatim>\<open>-EBUSY\<close>. Then one round of the
  loop: \<open>Some\<close> its return value and the state, or \<open>None\<close> for another round; \<open>expired\<close> is whether the
  watchdog has expired.
\<close>

definition barrier_begin :: "nat \<Rightarrow> 'a sched_state_scheme \<Rightarrow> 'a sched_state_scheme option" where
  "barrier_begin self s =
    (if barrier_flag s then None
     else
      let s = s\<lparr>barrier_flag := True\<rparr>;
          s = s\<lparr>barrier_acks := 0, parked_head := NULL, owner_task := sched_get_current_task self s, barrier_seq := barrier_seq s + 1\<rparr>
      in Some (ipi_others self [0..<g_cpu_count s] s))"

definition others_idle :: "nat \<Rightarrow> 'a sched_state_scheme \<Rightarrow> bool" where
  "others_idle self s \<longleftrightarrow> list_all (\<lambda>i. i = self \<or> idle_task (runqs s i) = NULL \<or> rq_current (runqs s i) = idle_task (runqs s i)) [0..<g_cpu_count s]"

definition barrier_poll :: "nat \<Rightarrow> bool \<Rightarrow> 'a sched_state_scheme \<Rightarrow> (int \<times> 'a sched_state_scheme) option" where
  "barrier_poll self expired s =
    (if others_idle self s then Some (0, s)
     else if g_tsc_ready s \<and> expired then Some (-110, s\<lparr>barrier_flag := False\<rparr>)
     else None)"

partial_function (option) unpark :: "ptr \<Rightarrow> 'a sched_state_scheme \<Rightarrow> 'a sched_state_scheme option" where
  "unpark t s =
    (if t = NULL then Some s
     else
      let nx = barrier_next s t;
          s = s\<lparr>barrier_next := (barrier_next s)(t := NULL)\<rparr>;
          s = set_state t TASK_STATE_READY s
      in unpark nx (sched_enqueue_ready t s))"

declare unpark.simps [code]

definition snap_end_barrier :: "nat \<Rightarrow> 'a sched_state_scheme \<Rightarrow> 'a sched_state_scheme option" where
  "snap_end_barrier self s =
    (let t = parked_head s;
         s = s\<lparr>parked_head := NULL, owner_task := NULL\<rparr>;
         s = s\<lparr>barrier_flag := False\<rparr>
     in map_option (\<lambda>s. ipi_others self [0..<g_cpu_count s] s) (unpark t s))"

section \<open>Dispatching\<close>

fun deadline_scan :: "nat list \<Rightarrow> 'a sched_state_scheme \<Rightarrow> 'a sched_state_scheme" where
  "deadline_scan [] s = s"
| "deadline_scan (i # is) s =
    (let tk = task_ptrs s i in
     if tk = NULL then deadline_scan is s
     else if tstate s tk \<noteq> TASK_STATE_CHAN_WAIT then deadline_scan is s
     else if deadline_tsc s tk = 0 then deadline_scan is s
     else if g_timer_ticks s < deadline_tsc s tk then deadline_scan is s
     else
      let s = s\<lparr>wait_result := (wait_result s)(tk := -110)\<rparr>;
          s = set_state tk TASK_STATE_READY s
      in deadline_scan is (sched_enqueue_ready tk s))"

text \<open>
  The budget of the task that stops running: whether it is exhausted, and the audit record that is
  written once per epoch.
\<close>

definition charge_cpu :: "sched_env \<Rightarrow> ptr \<Rightarrow> 'a sched_state_scheme \<Rightarrow> bool \<times> sched_event option \<times> 'a sched_state_scheme" where
  "charge_cpu e cur s =
    (if \<not> is_idle s cur \<and> cpu_time_slice_budget_ns s cur > 0 \<and> last_ran_tsc s cur \<noteq> 0 \<and> g_tsc_ready s then
       let elapsed_ns = tsc_to_ns s (se_now e - last_ran_tsc s cur);
           (remaining, s) = rlimit_consume_cpu cur elapsed_ns s
       in if remaining \<le> 0 then
            let epoch_now = g_timer_ticks s div 100 in
            if last_starvation_epoch s cur \<noteq> epoch_now then
              let s = s\<lparr>last_starvation_epoch := (last_starvation_epoch s)(cur := epoch_now)\<rparr>;
                  used = cpu_time_slice_budget_ns s cur + (if sint (cpu_budget_remaining_ns s cur) < 0 then - cpu_budget_remaining_ns s cur else 0)
              in (True, Some (AuditCpu (task_id (ph s) cur) (cpu_time_slice_budget_ns s cur) used), s)
            else (True, None, s)
          else (False, None, s)
     else (False, None, s))"

definition put_away :: "sched_env \<Rightarrow> nat \<Rightarrow> ptr \<Rightarrow> 'a sched_state_scheme \<Rightarrow> (sched_event option \<times> 'a sched_state_scheme) option" where
  "put_away e c cur s =
    (if cur = NULL then Some (None, s)
     else
      let s = s\<lparr>task_regs := (task_regs s)(cur := cpu_frame s c)\<rparr> in
      if tstate s cur \<noteq> TASK_STATE_RUNNING then Some (None, s)
      else if barrier_flag s \<and> \<not> is_idle s cur then Some (None, snap_barrier_park_locked cur s)
      else
       let (starved, audit, s) = charge_cpu e cur s;
           s = (if starved then runq_push_starved c cur s
                else let s = set_state cur TASK_STATE_READY s in if is_idle s cur then s else sched_enqueue_ready cur s)
       in map_option (\<lambda>s. (audit, s)) (rlimit_refill_io_tokens c cur s))"

definition pick_next :: "sched_env \<Rightarrow> nat \<Rightarrow> 'a sched_state_scheme \<Rightarrow> (ptr \<times> 'a sched_state_scheme) option" where
  "pick_next e c s =
    (if barrier_flag s then Some (NULL, s)
     else
      let (nx, s) = runq_dequeue_ready c s in
      if nx \<noteq> NULL then Some (nx, s)
      else case sched_steal_from_busiest c (se_locks e) s of
             None \<Rightarrow> None
           | Some (n, s) \<Rightarrow> Some (if n > 0 then runq_dequeue_ready c s else (NULL, s)))"

text \<open>The idle task of the processor, or the first task before there is one.\<close>

definition fallback_task :: "nat \<Rightarrow> 'a sched_state_scheme \<Rightarrow> ptr" where
  "fallback_task c s = (if idle_task (runqs s c) \<noteq> NULL then idle_task (runqs s c) else task_ptrs s 0)"

definition dispatch :: "sched_env \<Rightarrow> nat \<Rightarrow> ptr \<Rightarrow> 'a sched_state_scheme \<Rightarrow> 'a sched_state_scheme" where
  "dispatch e c nx s =
    (let s = set_state nx TASK_STATE_RUNNING s;
         s = upd_rq c (\<lambda>q. q\<lparr>rq_current := nx\<rparr>) s;
         s = upd_rq c (\<lambda>q. q\<lparr>context_switches := context_switches q + 1\<rparr>) s;
         s = s\<lparr>last_ran_cpu := (last_ran_cpu s)(nx := of_nat c)\<rparr>;
         s = s\<lparr>last_ran_tsc := (last_ran_tsc s)(nx := se_dispatch_tsc e), switch_count := switch_count s + 1\<rparr>
     in if c = 0 then s\<lparr>current_task_index := nat (task_id (ph s) nx)\<rparr> else s)"

text \<open>Signals of the task that was dispatched; if one ends it, another task takes its place.\<close>

definition signal_or_replace :: "nat \<Rightarrow> ptr \<Rightarrow> 'a sched_state_scheme \<Rightarrow> (ptr \<times> 'a sched_state_scheme) outcome" where
  "signal_or_replace c nx s =
    (let (ended, s) = sched_deliver_signals c nx s in
     if \<not> ended then Done (nx, s)
     else
      let (replacement, s) = runq_dequeue_ready c s;
          replacement = (if replacement = NULL then fallback_task c s else replacement)
      in if replacement = NULL \<or> tstate s replacement = TASK_STATE_ZOMBIE then Panicked ''no runnable tasks post-signal''
         else
          let s = (if c = 0 then s\<lparr>current_task_index := nat (task_id (ph s) replacement)\<rparr> else s);
              s = set_state replacement TASK_STATE_RUNNING s
          in Done (replacement, upd_rq c (\<lambda>q. q\<lparr>rq_current := replacement\<rparr>) s))"

definition load_task :: "nat \<Rightarrow> ptr \<Rightarrow> 'a sched_state_scheme \<Rightarrow> 'a sched_state_scheme" where
  "load_task c nx s =
    (let s = s\<lparr>tss_rsp0 := (tss_rsp0 s)(c := kernel_stack_top s nx)\<rparr>;
         s = (if cpu_cr3 s c \<noteq> task_cr3 s nx then s\<lparr>cpu_cr3 := (cpu_cr3 s)(c := task_cr3 s nx)\<rparr> else s)
     in s\<lparr>cpu_frame := (cpu_frame s)(c := task_regs s nx)\<rparr>)"

definition switch_to :: "sched_env \<Rightarrow> nat \<Rightarrow> ptr \<Rightarrow> 'a sched_state_scheme \<Rightarrow> 'a sched_state_scheme outcome" where
  "switch_to e c nx s =
    (let nx = (if nx \<noteq> NULL \<and> tstate s nx = TASK_STATE_ZOMBIE then NULL else nx);
         run = (if nx = NULL then fallback_task c s else nx)
     in if nx = NULL \<and> (run = NULL \<or> tstate s run = TASK_STATE_ZOMBIE) then Panicked ''no runnable tasks''
        else case signal_or_replace c run (dispatch e c run s) of
               Done (t, s) \<Rightarrow> Done (load_task c t s)
             | Halted \<Rightarrow> Halted | Panicked m \<Rightarrow> Panicked m | Faulted \<Rightarrow> Faulted | Diverges \<Rightarrow> Diverges)"

definition schedule :: "sched_env \<Rightarrow> nat \<Rightarrow> 'a sched_state_scheme \<Rightarrow> 'a sched_state_scheme outcome" where
  "schedule e c s =
    (let s = s\<lparr>schedule_count := schedule_count s + 1\<rparr> in
     if se_frame_addr e < 0xFFFF800000000000 then Halted
     else if next_task_id s = 0 then Done s
     else if sched_lock_owner s = Some c then Done s
     else
      let s = (if c = 0 then deadline_scan [0..<next_task_id s] s else s);
          cur = rq_current (runqs s c);
          cur = (if cur = NULL then task_ptrs s (current_task_index s) else cur)
      in if barrier_flag s \<and> cur = owner_task s then Done s
         else case put_away e c cur s of
                None \<Rightarrow> Diverges
              | Some (audit, s) \<Rightarrow>
                 (case pick_next e c s of
                    None \<Rightarrow> Diverges
                  | Some (nx, s) \<Rightarrow>
                     (case switch_to e c nx s of
                        Done s \<Rightarrow> Done (case audit of None \<Rightarrow> s | Some a \<Rightarrow> log_ev a s)
                      | Halted \<Rightarrow> Halted | Panicked m \<Rightarrow> Panicked m | Faulted \<Rightarrow> Faulted | Diverges \<Rightarrow> Diverges)))"

text \<open>The timer interrupt and the doorbell interrupt, as far as they concern the scheduler.\<close>

definition timer_interrupt :: "sched_env \<Rightarrow> nat \<Rightarrow> 'a sched_state_scheme \<Rightarrow> 'a sched_state_scheme outcome" where
  "timer_interrupt e c s = schedule e c (s\<lparr>g_timer_ticks := g_timer_ticks s + 1\<rparr>)"

definition doorbell_interrupt :: "sched_env \<Rightarrow> nat \<Rightarrow> 'a sched_state_scheme \<Rightarrow> 'a sched_state_scheme outcome" where
  "doorbell_interrupt e c s =
    (if barrier_flag s \<or> rq_current (runqs s c) = idle_task (runqs s c) then schedule e c s else Done s)"

section \<open>The parts of a dispatch\<close>

definition io_same :: "'a sched_state_scheme \<Rightarrow> 'a sched_state_scheme \<Rightarrow> bool" where
  "io_same s s' \<longleftrightarrow> worker_next s' = worker_next s \<and> io_pending_head s' = io_pending_head s \<and> worker_head s' = worker_head s \<and> worker_tail s' = worker_tail s"

definition io_inv :: "'a sched_state_scheme \<Rightarrow> bool" where
  "io_inv s \<longleftrightarrow> (\<exists>J ws. (\<forall>t. io_ok s t (J t) ws) \<and> (\<forall>t u. t \<noteq> u \<longrightarrow> set (J t) \<inter> set (J u) = {}))"

lemma io_same_refl [simp]: "io_same s s"
  by (simp add: io_same_def)

lemma io_same_trans: "io_same s s' \<Longrightarrow> io_same s' s'' \<Longrightarrow> io_same s s''"
  by (simp add: io_same_def)

lemma io_same_inv: "io_same s s' \<Longrightarrow> io_inv s' = io_inv s"
  unfolding io_same_def io_inv_def io_ok_def by (elim conjE) (simp only:)

lemma io_same_more: "runq_state.more s' = runq_state.more s \<Longrightarrow> io_same s s'"
  unfolding io_same_def by (intro conjI sched_ext_io)

lemma io_same_enqueue: "io_same s (sched_enqueue_ready t s)"
  by (rule io_same_more [OF enqueue_more])

lemma io_same_wake_one: "io_same s (snd (wake_one self h r s))"
  by (simp add: io_same_def wake_one_io)

lemma io_same_parent: "io_same s (wake_waiting_parent self i s)"
  by (simp add: wake_waiting_parent_def Let_def io_same_wake_one)

lemma io_same_orphan: "io_same s (sched_orphan_children p s)"
proof -
  have "io_same s (orphan_from p is s)" for "is"
    by (induction p "is" s rule: orphan_from.induct) (auto simp: io_same_def)
  then show ?thesis by (simp add: sched_orphan_children_def)
qed

lemma refill_io_ok:
  assumes "io_inv s"
  shows "\<exists>s'. rlimit_refill_io_tokens self t s = Some s' \<and> io_inv s' \<and> wake_step s s'"
proof (cases "t = NULL \<or> io_rate_bytes_per_sec s t = 0")
  case True
  then show ?thesis using assms by (auto simp: rlimit_refill_io_tokens_def)
next
  case False
  let ?s = "top_up t s"
  have c: "same_core s ?s" "wakes s ?s" "io_same s ?s" by (simp_all add: top_up_def Let_def same_core_def wakes_def io_same_def)
  have "io_inv ?s" using assms io_same_inv [OF c(3)] by simp
  then obtain J ws where J: "\<And>u. io_ok ?s u (J u) ws" "\<And>u v. u \<noteq> v \<Longrightarrow> set (J u) \<inter> set (J v) = {}" unfolding io_inv_def by blast
  from drain_pending_ok [OF J(1) [of t], of self] obtain k s' where
    D: "drain_pending self t ?s = Some s'" "io_ok s' t (drop k (J t)) (ws @ take k (J t))" "wake_step ?s s'"
      "\<forall>u. u \<noteq> t \<longrightarrow> io_pending_head s' u = io_pending_head ?s u \<and> io_tokens s' u = io_tokens ?s u"
      "\<forall>ks. set ks \<inter> set (J t @ ws) = {} \<longrightarrow> sseg (worker_next s') ks NULL = sseg (worker_next ?s) ks NULL" by blast
  have "io_ok s' u ((J(t := drop k (J t))) u) (ws @ take k (J t))" for u
  proof (cases "u = t")
    case False
    have d: "set (J u) \<inter> set (J t @ ws) = {}" using J(1) [of u] J(2) [OF False] by (auto simp: io_ok_def)
    have "sseg (worker_next s') (J u) NULL" using D(5) d J(1) [of u] by (simp add: io_ok_def)
    moreover have "distinct (J u @ ws @ take k (J t))" using D(2) J(1) [of u] d by (auto simp: io_ok_def dest: in_set_takeD)
    ultimately show ?thesis using D(2,4) J(1) [of u] False by (simp add: io_ok_def)
  qed (use D(2) in simp)
  moreover have "set ((J(t := drop k (J t))) u) \<inter> set ((J(t := drop k (J t))) v) = {}" if "u \<noteq> v" for u v
    using J(2) [OF that] in_set_dropD [of _ k "J t"] by (auto split: if_splits)
  ultimately have "io_inv s'" unfolding io_inv_def by blast
  moreover have "rlimit_refill_io_tokens self t s = Some s'" using False D(1) by (simp add: rlimit_refill_io_tokens_def)
  ultimately show ?thesis using wake_step_trans [OF wake_step_core [OF c(1,2)] D(3)] by blast
qed

lemma deadline_scan_step: "wake_step s (deadline_scan is s)" "io_same s (deadline_scan is s)"
proof -
  have "wake_step s (deadline_scan is s) \<and> io_same s (deadline_scan is s)"
  proof (induction "is" s rule: deadline_scan.induct)
    case (2 i "is" s)
    let ?t = "task_ptrs s i"
    let ?s = "s\<lparr>wait_result := (wait_result s)(?t := -110)\<rparr>" and ?skip = "?t = NULL \<or> tstate s ?t \<noteq> TASK_STATE_CHAN_WAIT \<or> deadline_tsc s ?t = 0 \<or> g_timer_ticks s < deadline_tsc s ?t"
    let ?s2 = "sched_enqueue_ready ?t (set_state ?t TASK_STATE_READY ?s)"
    show ?case
    proof (cases ?skip)
      case True
      then have "deadline_scan (i # is) s = deadline_scan is s" by (auto simp: Let_def)
      moreover have "wake_step s (deadline_scan is s) \<and> io_same s (deadline_scan is s)" using 2 True by blast
      ultimately show ?thesis by simp
    next
      case False
      have e: "deadline_scan (i # is) s = deadline_scan is ?s2" using False by (simp add: Let_def)
      have "wake_step s ?s" by (rule wake_step_core) (simp_all add: same_core_def wakes_def)
      moreover have "wake_step ?s ?s2" by (rule wake_step_ready) (use False in simp_all)
      moreover have "io_same s ?s2" using io_same_enqueue [of "set_state ?t TASK_STATE_READY ?s" ?t] by (simp add: io_same_def set_state_def)
      moreover have "wake_step ?s2 (deadline_scan is ?s2) \<and> io_same ?s2 (deadline_scan is ?s2)" using 2(5) False by simp
      ultimately show ?thesis unfolding e using wake_step_trans io_same_trans by blast
    qed
  qed simp
  then show "wake_step s (deadline_scan is s)" "io_same s (deadline_scan is s)" by blast+
qed

text \<open>What a step leaves alone, apart from the state and the registers of the tasks in \<open>T\<close>.\<close>

definition moved :: "ptr set \<Rightarrow> 'a sched_state_scheme \<Rightarrow> 'a sched_state_scheme \<Rightarrow> bool" where
  "moved T s s' \<longleftrightarrow> g_cpu_count s' = g_cpu_count s \<and> (\<forall>c. idle_on s' c = idle_on s c \<and> cur_on s' c = cur_on s c) \<and> is_idle s' = is_idle s
    \<and> task_ptrs s' = task_ptrs s \<and> next_task_id s' = next_task_id s \<and> pending_signals s' = pending_signals s \<and> barrier_flag s' = barrier_flag s
    \<and> owner_task s' = owner_task s \<and> sched_lock_owner s' = sched_lock_owner s \<and> cpu_frame s' = cpu_frame s
    \<and> (\<forall>t. t \<notin> T \<longrightarrow> (tstate s' t = tstate s t \<or> tstate s t = TASK_STATE_CHAN_WAIT \<and> tstate s' t = TASK_STATE_READY) \<and> task_regs s' t = task_regs s t)"

lemma wakes_moved: "wakes s s' \<Longrightarrow> moved T s s'"
  unfolding wakes_def moved_def by simp

lemma moved_trans: "moved T s s' \<Longrightarrow> moved T s' s'' \<Longrightarrow> moved T s s''"
proof -
  assume a: "moved T s s'" "moved T s' s''"
  have "(tstate s'' t = tstate s t \<or> tstate s t = TASK_STATE_CHAN_WAIT \<and> tstate s'' t = TASK_STATE_READY) \<and> task_regs s'' t = task_regs s t"
    if "t \<notin> T" for t
  proof -
    have 1: "tstate s' t = tstate s t \<or> tstate s t = TASK_STATE_CHAN_WAIT \<and> tstate s' t = TASK_STATE_READY" "task_regs s' t = task_regs s t"
      using a(1) that unfolding moved_def by blast+
    have 2: "tstate s'' t = tstate s' t \<or> tstate s' t = TASK_STATE_CHAN_WAIT \<and> tstate s'' t = TASK_STATE_READY" "task_regs s'' t = task_regs s' t"
      using a(2) that unfolding moved_def by blast+
    show ?thesis using 1 2 by auto
  qed
  then show ?thesis using a unfolding moved_def by simp
qed

lemma wake_step_moved: "wake_step s s' \<Longrightarrow> moved T s s'"
  using wakes_moved unfolding wake_step_def by blast

lemma moved_tasks: "moved T s s' \<Longrightarrow> tasks s' = tasks s"
  by (simp add: moved_def tasks_def)

lemma moved_unplaced: "moved T s s' \<Longrightarrow> unplaced s' Q S P A t = unplaced s Q S P A t"
  using moved_tasks [of T s s'] by (simp add: unplaced_def) (simp add: moved_def)

lemma detach_ok:
  assumes "sched_ok s Q S P A"
  shows "sched_ok s Q S P (A - {c})"
proof -
  have "states_ok s Q S P (A - {c})" using assms unfolding sched_ok_def states_ok_def by blast
  moreover have "placed_ok s Q S P (A - {c})"
    using assms inj_on_subset [of "cur_on s" A "A - {c}"] unfolding sched_ok_def placed_ok_def by blast
  ultimately show ?thesis using assms unfolding sched_ok_def by blast
qed

lemma cur_unplaced:
  assumes "sched_ok s Q S P A" "c \<in> A" "\<not> is_idle s (cur_on s c)"
  shows "unplaced s Q S P (A - {c}) (cur_on s c)"
  using assms unfolding unplaced_def sched_ok_def placed_ok_def inj_on_def by auto

lemma idle_not_placed:
  assumes "sched_ok s Q S P A" "c < g_cpu_count s" "c \<notin> A"
  shows "idle_on s c \<notin> queued (g_cpu_count s) Q S \<union> set P \<union> cur_on s ` A" "idle_on s c \<in> tasks s" "is_idle s (idle_on s c)"
    "d < g_cpu_count s \<Longrightarrow> d \<noteq> c \<Longrightarrow> idle_on s d \<noteq> idle_on s c"
proof -
  have i: "is_idle s (idle_on s c)" "idle_on s c \<in> tasks s" "inj_on (idle_on s) {..<g_cpu_count s}" "A \<subseteq> {..<g_cpu_count s}"
    "\<forall>t \<in> queued (g_cpu_count s) Q S \<union> set P. \<not> is_idle s t" "\<forall>d \<in> A. is_idle s (cur_on s d) \<longrightarrow> cur_on s d = idle_on s d"
    using assms(1,2) unfolding sched_ok_def placed_ok_def by blast+
  show ne: "idle_on s d \<noteq> idle_on s c" if "d < g_cpu_count s" "d \<noteq> c" for d using inj_onD [OF i(3), of d c] that assms(2) by auto
  have "idle_on s c \<noteq> cur_on s d" if "d \<in> A" for d
  proof
    assume e: "idle_on s c = cur_on s d"
    then have "idle_on s c = idle_on s d" using i(1,6) that by metis
    moreover have "d < g_cpu_count s" "d \<noteq> c" using that i(4) assms(3) by auto
    ultimately show False using ne by metis
  qed
  then show "idle_on s c \<notin> queued (g_cpu_count s) Q S \<union> set P \<union> cur_on s ` A" using i(1,5) by blast
  show "idle_on s c \<in> tasks s" "is_idle s (idle_on s c)" by (rule i)+
qed

lemma idle_state_ok:
  assumes ok: "sched_ok s Q S P A" "c < g_cpu_count s" "c \<notin> A" and x: "x \<in> {TASK_STATE_READY, TASK_STATE_RUNNING}"
  shows "sched_ok (set_state (idle_on s c) x s) Q S P A"
proof -
  note I = idle_not_placed [OF ok]
  have q: "queues_ok (set_state (idle_on s c) x s) Q S = queues_ok s Q S" by (simp add: queues_ok_def rq_ok_def set_state_def)
  have t: "tasks (set_state (idle_on s c) x s) = tasks s" by (simp add: tasks_def set_state_def)
  have nc: "cur_on s d \<noteq> idle_on s c" if "d \<in> A" for d using I(1) imageI [OF that, of "cur_on s"] by auto
  have "states_ok (set_state (idle_on s c) x s) Q S P A" using ok(1) I nc x unfolding sched_ok_def states_ok_def t
    by (auto simp: set_state_def queued_def on_cpu_def)
  moreover have "placed_ok (set_state (idle_on s c) x s) Q S P A = placed_ok s Q S P A" by (simp add: placed_ok_def t) (simp add: set_state_def)
  ultimately show ?thesis using ok(1) q by (simp add: sched_ok_def) (simp add: set_state_def)
qed

lemma kill_ok:
  assumes ok: "sched_ok s Q S P A" and t: "\<not> is_idle s t"
  shows "sched_ok (set_state t TASK_STATE_ZOMBIE s) Q S P A"
proof -
  let ?s = "set_state t TASK_STATE_ZOMBIE s"
  have i: "t \<noteq> idle_on s d" if "d < g_cpu_count s" for d using ok t that by (auto simp: sched_ok_def placed_ok_def)
  have q: "queues_ok ?s Q S = queues_ok s Q S" by (simp add: queues_ok_def rq_ok_def set_state_def)
  have k: "tasks ?s = tasks s" by (simp add: tasks_def set_state_def)
  have "states_ok ?s Q S P A" using ok i unfolding sched_ok_def states_ok_def k by (auto simp: set_state_def)
  moreover have "placed_ok ?s Q S P A = placed_ok s Q S P A" by (simp add: placed_ok_def k) (simp add: set_state_def)
  ultimately show ?thesis using ok q by (simp add: sched_ok_def) (simp add: set_state_def)
qed

lemma park_ok:
  assumes ok: "sched_ok s Q S P A" and t: "unplaced s Q S P A t"
  shows "sched_ok (snap_barrier_park_locked t s) Q S (t # P) A"
proof -
  let ?s = "snap_barrier_park_locked t s"
  have t0: "t \<noteq> NULL" "t \<notin> set P" using t by (auto simp: unplaced_def tasks_def)
  have f: "tstate ?s = (tstate s)(t := TASK_STATE_BARRIER_WAIT)" "barrier_next ?s = (barrier_next s)(t := parked_head s)" "parked_head ?s = t"
    "runqs ?s = runqs s" "g_cpu_count ?s = g_cpu_count s" "is_idle ?s = is_idle s" "next_task_id ?s = next_task_id s" "task_ptrs ?s = task_ptrs s"
    "runq_next ?s = runq_next s" "runq_prev ?s = runq_prev s"
    using t0 by (simp_all add: snap_barrier_park_locked_def Let_def set_state_def)
  have q: "queues_ok ?s Q S = queues_ok s Q S" unfolding queues_ok_def rq_ok_def f by (rule refl)
  have k: "tasks ?s = tasks s" unfolding tasks_def f by (rule refl)
  have i: "t \<noteq> idle_on s d" if "d < g_cpu_count s" for d using ok t that by (auto simp: unplaced_def sched_ok_def placed_ok_def)
  have "sseg (barrier_next ?s) P NULL = sseg (barrier_next s) P NULL" by (rule sseg_cong) (use t0(2) f(2) in auto)
  then have "sseg (barrier_next ?s) (t # P) NULL" using ok t0 f(2) by (simp add: sched_ok_def)
  moreover have "states_ok ?s Q S (t # P) A" using ok t i unfolding sched_ok_def states_ok_def f k unplaced_def by (auto simp: queued_def on_cpu_def)
  moreover have "placed_ok ?s Q S (t # P) A" using ok t unfolding sched_ok_def placed_ok_def f k unplaced_def by auto
  ultimately show ?thesis using ok q t0 unfolding sched_ok_def f by auto
qed

lemma charge_cpu_frame:
  assumes "charge_cpu e t s = (st, a, s')"
  shows "same_core s s'" "wakes s s'" "io_same s s'" "is_idle s t \<Longrightarrow> \<not> st"
proof -
  obtain r s1 where c: "rlimit_consume_cpu t (tsc_to_ns s (se_now e - last_ran_tsc s t)) s = (r, s1)" by (metis surj_pair)
  have s1: "s1 = snd (rlimit_consume_cpu t (tsc_to_ns s (se_now e - last_ran_tsc s t)) s)" using c by simp
  have f: "same_core s s1" "wakes s s1" "io_same s s1"
    unfolding s1 by (simp_all add: rlimit_consume_cpu_def Let_def same_core_def wakes_def io_same_def)
  have g: "same_core s (s1\<lparr>last_starvation_epoch := x\<rparr>)" "wakes s (s1\<lparr>last_starvation_epoch := x\<rparr>)" "io_same s (s1\<lparr>last_starvation_epoch := x\<rparr>)" for x
    using f by (simp_all add: same_core_def wakes_def io_same_def)
  have s': "s' = s \<or> s' = s1 \<or> (\<exists>x. s' = s1\<lparr>last_starvation_epoch := x\<rparr>)"
    using assms by (auto simp: charge_cpu_def c Let_def split: if_splits)
  have "same_core s s" by (simp add: same_core_def)
  then show "same_core s s'" "wakes s s'" "io_same s s'" using s' f g by auto
  show "is_idle s t \<Longrightarrow> \<not> st" using assms by (auto simp: charge_cpu_def)
qed

text \<open>The task that stops running goes to the queue, the starved list or the parked list its state asks for.\<close>

lemma requeue_ok:
  assumes ok: "sched_ok s Q S P A" "c \<in> A" and r: "cur_on s c = t" "tstate s t = TASK_STATE_RUNNING" "st \<longrightarrow> \<not> is_idle s t"
  defines "s' \<equiv> (if st then runq_push_starved c t s
    else let s = set_state t TASK_STATE_READY s in if is_idle s t then s else sched_enqueue_ready t s)"
  shows "\<exists>Q' S'. sched_ok s' Q' S' P (A - {c}) \<and> grows Q Q'" "moved {t} s s'" "io_same s s'"
proof -
  have cn: "c < g_cpu_count s" "c \<notin> A - {c}" using ok by (auto simp: sched_ok_def placed_ok_def)
  have nn: "t \<noteq> NULL" using ok r(1) by (auto simp: sched_ok_def placed_ok_def tasks_def)
  note D = detach_ok [OF ok(1), of c]
  consider "st" | "\<not> st" "is_idle s t" | "\<not> st" "\<not> is_idle s t" by blast
  then have "(\<exists>Q' S'. sched_ok s' Q' S' P (A - {c}) \<and> grows Q Q') \<and> moved {t} s s' \<and> io_same s s'"
  proof cases
    case 1
    then have s': "s' = runq_push_starved c t s" by (simp add: s'_def)
    note E = push_starved_eqs [OF nn, of c s]
    have u: "unplaced s Q S P (A - {c}) t" using cur_unplaced [OF ok] r 1 by simp
    have "moved {t} s s'" unfolding s' moved_def using E sched_ext [OF E(8)] by simp
    then show ?thesis using push_starved_ok [OF D u cn(1)] io_same_more [OF E(8)] grows_refl unfolding s' by blast
  next
    case 2
    then have s': "s' = set_state t TASK_STATE_READY s" by (simp add: s'_def Let_def set_state_def)
    have i: "t = idle_on s c" using ok 2(2) r(1) by (auto simp: sched_ok_def placed_ok_def)
    have "moved {t} s s'" "io_same s s'" unfolding s' by (simp_all add: moved_def io_same_def set_state_def)
    moreover have "sched_ok s' Q S P (A - {c})" unfolding s' i by (rule idle_state_ok [OF D cn]) simp
    ultimately show ?thesis using grows_refl by blast
  next
    case 3
    let ?s = "set_state t TASK_STATE_READY s"
    have s': "s' = sched_enqueue_ready t ?s" using 3 by (simp add: s'_def Let_def set_state_def)
    have u: "unplaced s Q S P (A - {c}) t" using cur_unplaced [OF ok] r(1) 3(2) by simp
    have m: "moved {t} s ?s" "io_same s ?s" by (simp_all add: moved_def io_same_def set_state_def)
    have u2: "unplaced ?s Q S P (A - {c}) t" using u moved_unplaced [OF m(1)] by simp
    have "wakes ?s s'" unfolding s' by (rule enqueue_wakes [OF nn]) (simp add: set_state_def)
    then have "moved {t} s s'" using moved_trans [OF m(1)] wakes_moved by blast
    moreover have "io_same s s'" unfolding s' by (rule io_same_trans [OF m(2) io_same_enqueue])
    moreover have "\<exists>Q' S'. sched_ok s' Q' S' P (A - {c}) \<and> grows Q Q'"
      using enqueue_ok(1) [OF set_state_ok [OF D u] u2] grows_snoc unfolding s' by blast
    ultimately show ?thesis by blast
  qed
  then show "\<exists>Q' S'. sched_ok s' Q' S' P (A - {c}) \<and> grows Q Q'" "moved {t} s s'" "io_same s s'" by blast+
qed

lemma put_away_ok:
  assumes ok: "sched_ok s Q S P A" "c \<in> A" "io_inv s"
  shows "\<exists>a s' Q' S' P'. put_away e c (cur_on s c) s = Some (a, s') \<and> sched_ok s' Q' S' P' (A - {c}) \<and> grows Q Q' \<and> io_inv s'
    \<and> moved {cur_on s c} s s'"
proof -
  define t where "t = cur_on s c"
  define s1 where "s1 = s\<lparr>task_regs := (task_regs s)(t := cpu_frame s c)\<rparr>"
  have nn: "t \<noteq> NULL" using ok by (auto simp: sched_ok_def placed_ok_def tasks_def t_def)
  have m1: "moved {t} s s1" "same_core s s1" "io_same s s1" by (simp_all add: s1_def moved_def same_core_def io_same_def)
  have ok1: "sched_ok s1 Q S P A" "io_inv s1" "cur_on s1 c = t" "barrier_flag s1 = barrier_flag s"
    using ok same_core_ok [OF m1(2)] io_same_inv [OF m1(3)] by (simp_all add: s1_def t_def)
  note D = detach_ok [OF ok1(1), of c]
  consider (other) "tstate s1 t \<noteq> TASK_STATE_RUNNING" | (park) "tstate s1 t = TASK_STATE_RUNNING" "barrier_flag s1 \<and> \<not> is_idle s1 t"
    | (run) "tstate s1 t = TASK_STATE_RUNNING" "\<not> (barrier_flag s1 \<and> \<not> is_idle s1 t)" by blast
  then show ?thesis
  proof cases
    case other
    then have "put_away e c t s = Some (None, s1)" using nn by (simp add: put_away_def Let_def s1_def)
    then show ?thesis unfolding t_def [symmetric] using D ok1(2) m1(1) grows_refl by blast
  next
    case park
    let ?s = "snap_barrier_park_locked t s1"
    have "put_away e c t s = Some (None, ?s)" using nn park by (simp add: put_away_def Let_def s1_def)
    moreover have "moved {t} s1 ?s" "io_same s1 ?s" using nn by (simp_all add: moved_def io_same_def snap_barrier_park_locked_def Let_def set_state_def)
    moreover have "unplaced s1 Q S P (A - {c}) t" using cur_unplaced [OF ok1(1) ok(2)] ok1(3) park(2) by simp
    ultimately show ?thesis unfolding t_def [symmetric] using park_ok [OF D] grows_refl moved_trans [OF m1(1)] io_same_inv ok1(2) by blast
  next
    case run
    obtain st a s2 where ch: "charge_cpu e t s1 = (st, a, s2)" by (metis prod_cases3)
    note C = charge_cpu_frame [OF ch]
    have "\<forall>d. same_rq (runqs s1 d) (runqs s2 d)" "tstate s2 = tstate s1" "is_idle s2 = is_idle s1" using C(1) unfolding same_core_def by blast+
    then have ok2: "cur_on s2 c = t" "tstate s2 t = TASK_STATE_RUNNING" "is_idle s2 = is_idle s1"
      using ok1(3) run(1) by (simp_all add: same_rq_def)
    have ok2': "sched_ok s2 Q S P A" "io_inv s2" 
      by (simp_all only: same_core_ok [OF C(1)] io_same_inv [OF C(3)] ok1(1,2))
    let ?s3 = "if st then runq_push_starved c t s2 else let s = set_state t TASK_STATE_READY s2 in if is_idle s t then s else sched_enqueue_ready t s"
    have st: "st \<longrightarrow> \<not> is_idle s2 t" using C(4) ok2(3) by auto
    note R = requeue_ok [OF ok2'(1) ok(2) ok2(1,2) st]
    from R(1) obtain Q' S' where ok3: "sched_ok ?s3 Q' S' P (A - {c})" "grows Q Q'" by blast
    have "io_inv ?s3" by (simp only: io_same_inv [OF R(3)] ok2'(2))
    from refill_io_ok [OF this, of c t] obtain s4 where F: "rlimit_refill_io_tokens c t ?s3 = Some s4" "io_inv s4" "wake_step ?s3 s4" by blast
    then obtain Q4 where ok4: "sched_ok s4 Q4 S' P (A - {c})" "grows Q' Q4" using ok3(1) unfolding wake_step_def by blast
    have "moved {t} s s4"
      using moved_trans [OF moved_trans [OF moved_trans [OF m1(1) wakes_moved [OF C(2)]] R(2)] wake_step_moved [OF F(3)]] .
    moreover have "put_away e c t s = Some (a, s4)"
    proof -
      have "put_away e c t s = (let (starved, audit, s) = charge_cpu e t s1;
           s = (if starved then runq_push_starved c t s else let s = set_state t TASK_STATE_READY s in if is_idle s t then s else sched_enqueue_ready t s)
         in map_option (\<lambda>s. (audit, s)) (rlimit_refill_io_tokens c t s))"
        using nn run by (auto simp: put_away_def Let_def s1_def)
      also have "\<dots> = map_option (\<lambda>s. (a, s)) (rlimit_refill_io_tokens c t ?s3)" unfolding ch by (simp add: Let_def)
      finally show ?thesis unfolding F(1) by simp
    qed
    ultimately show ?thesis unfolding t_def [symmetric] using ok4 F(2) grows_trans [OF ok3(2) ok4(2)] by blast
  qed
qed

text \<open>A change of the queues that only takes tasks out or moves them between queues of the same kind.\<close>

lemma frame_fields:
  assumes "steal_frame s s'"
  shows "moved T s s'" "io_same s s'" "tstate s' = tstate s" "tasks s' = tasks s" "cur_on s' c = cur_on s c" "idle_on s' c = idle_on s c"
    "g_cpu_count s' = g_cpu_count s" "unplaced s' Q S P A t = unplaced s Q S P A t"
proof -
  have m: "runq_state.more s' = runq_state.more s" "tstate s' = tstate s" "g_cpu_count s' = g_cpu_count s"
    "\<And>d. cur_on s' d = cur_on s d \<and> idle_on s' d = idle_on s d" using assms by (auto simp: steal_frame_def)
  note x = sched_ext [OF m(1)]
  show mv: "moved T s s'" for T unfolding moved_def using m x by simp
  show "io_same s s'" by (rule io_same_more [OF m(1)])
  show "tstate s' = tstate s" "tasks s' = tasks s" "cur_on s' c = cur_on s c" "idle_on s' c = idle_on s c" "g_cpu_count s' = g_cpu_count s"
    using m x by simp_all
  show "unplaced s' Q S P A t = unplaced s Q S P A t" by (rule moved_unplaced [OF mv])
qed

lemma reshape_ok:
  assumes ok: "sched_ok s Q S P A" and f: "steal_frame s s'" and q: "queues_ok s' Q' S"
    and sub: "\<forall>c < g_cpu_count s. set (Q' c) \<subseteq> (\<Union>d < g_cpu_count s. set (Q d))"
  shows "sched_ok s' Q' S P A"
proof -
  have "runq_state.more s' = runq_state.more s" using f by (simp add: steal_frame_def)
  note x = sched_ext [OF this] and F = frame_fields(3,5,6,7) [OF f]
  have sq: "queued (g_cpu_count s) Q' S \<subseteq> queued (g_cpu_count s) Q S" using sub unfolding queued_def on_cpu_def by blast
  have "\<forall>c < g_cpu_count s. \<forall>t \<in> set (Q c). tstate s t \<in> {TASK_STATE_READY, TASK_STATE_ZOMBIE}"
    using ok unfolding sched_ok_def states_ok_def by blast
  then have "\<forall>c < g_cpu_count s. \<forall>t \<in> set (Q' c). tstate s t \<in> {TASK_STATE_READY, TASK_STATE_ZOMBIE}" using sub by blast
  moreover have st: "states_ok s Q S P A" and pl: "placed_ok s Q S P A" using ok by (simp_all add: sched_ok_def)
  ultimately have "states_ok s' Q' S P A" unfolding states_ok_def F x by (elim conjE) (intro conjI; assumption)
  moreover have "queued (g_cpu_count s) Q S \<inter> set P = {}" "cur_on s ` A \<inter> (queued (g_cpu_count s) Q S \<union> set P) = {}"
      "queued (g_cpu_count s) Q S \<union> set P \<union> cur_on s ` A \<subseteq> tasks s" "\<forall>t\<in>queued (g_cpu_count s) Q S \<union> set P. \<not> is_idle s t"
    using pl unfolding placed_ok_def by blast+
  then have "queued (g_cpu_count s) Q' S \<inter> set P = {}" "cur_on s ` A \<inter> (queued (g_cpu_count s) Q' S \<union> set P) = {}"
      "queued (g_cpu_count s) Q' S \<union> set P \<union> cur_on s ` A \<subseteq> tasks s" "\<forall>t\<in>queued (g_cpu_count s) Q' S \<union> set P. \<not> is_idle s t"
    using sq by blast+
  with pl have "placed_ok s' Q' S P A" unfolding placed_ok_def F x by (elim conjE) (intro conjI; assumption)
  ultimately show ?thesis using ok q unfolding sched_ok_def F x by blast
qed

lemma dequeue_frame: "runq_dequeue_ready c s = (p, s') \<Longrightarrow> steal_frame s s'"
  by (simp add: steal_frame_def dequeue_fields)

lemma dequeue_ok:
  assumes ok: "sched_ok s Q S P A" "c < g_cpu_count s" and d: "runq_dequeue_ready c s = (p, s')"
  shows "p = hd0 (Q c) NULL" "sched_ok s' (Q(c := tl (Q c))) S P A" "p = NULL \<longleftrightarrow> Q c = []"
    "p \<noteq> NULL \<Longrightarrow> unplaced s' (Q(c := tl (Q c))) S P A p \<and> tstate s' p \<in> {TASK_STATE_READY, TASK_STATE_ZOMBIE}"
proof -
  have qk: "queues_ok s Q S" using ok(1) by (simp add: sched_ok_def)
  note D = dequeue_queues [OF qk ok(2) d] and f = dequeue_frame [OF d] and R = queues_okD(1) [OF qk ok(2)]
  show p: "p = hd0 (Q c) NULL" by (rule D(1))
  show "sched_ok s' (Q(c := tl (Q c))) S P A"
  proof (rule reshape_ok [OF ok(1) f D(2)])
    have "set (tl (Q c)) \<subseteq> set (Q c)" by (cases "Q c") auto
    then show "\<forall>d < g_cpu_count s. set ((Q(c := tl (Q c))) d) \<subseteq> (\<Union>d < g_cpu_count s. set (Q d))" using ok(2) by auto
  qed
  show e: "p = NULL \<longleftrightarrow> Q c = []" using rq_nonnull [OF R] hd0_in [of "Q c" NULL] p by (cases "Q c = []") auto
  assume n: "p \<noteq> NULL"
  then obtain xs where xs: "Q c = p # xs" using e p by (cases "Q c") auto
  have pq: "p \<in> queued (g_cpu_count s) Q S" using ok(2) xs by (auto simp: queued_def on_cpu_def intro!: bexI [of _ c])
  have "p \<notin> set xs" "p \<notin> set (S c)" using R xs by (auto simp: rq_ok_def)
  moreover have "p \<notin> on_cpu Q S d" if "d < g_cpu_count s" "d \<noteq> c" for d using queues_okD(2) [OF qk ok(2) that] xs by (auto simp: on_cpu_def)
  ultimately have nq: "p \<notin> queued (g_cpu_count s) (Q(c := tl (Q c))) S" using xs unfolding queued_def on_cpu_def
    by (auto split: if_splits)
  have "unplaced s (Q(c := tl (Q c))) S P A p" using ok(1) pq nq unfolding unplaced_def sched_ok_def placed_ok_def by blast
  moreover have "tstate s p \<in> {TASK_STATE_READY, TASK_STATE_ZOMBIE}" using ok xs unfolding sched_ok_def states_ok_def by auto
  ultimately show "unplaced s' (Q(c := tl (Q c))) S P A p \<and> tstate s' p \<in> {TASK_STATE_READY, TASK_STATE_ZOMBIE}"
    by (simp add: frame_fields(3,8) [OF f])
qed

lemma steal_ok:
  assumes ok: "sched_ok s Q S P A" "c < g_cpu_count s"
  shows "\<exists>n s' Q'. sched_steal_from_busiest c l s = Some (n, s') \<and> steal_frame s s' \<and> sched_ok s' Q' S P A
    \<and> (n = 0 \<and> Q' = Q \<or> n \<noteq> 0 \<and> (\<exists>v k t. v < g_cpu_count s \<and> v \<noteq> c \<and> stolen_from Q v c (stealable c s) = (k, t) \<and> t \<noteq> [] \<and> Q' = Q(v := rev k, c := rev t @ Q c)))"
proof -
  have q: "queues_ok s Q S" using ok(1) by (simp add: sched_ok_def)
  have l: "length (Q d) + length (Q c) < 2 ^ 32" if "d < g_cpu_count s" for d
    using tasks_bound [OF ok(1) that] tasks_bound [OF ok] by simp
  have "steal_outcome s Q S c (sched_steal_from_busiest c l s)"
    unfolding sched_steal_from_busiest_def by (rule steal_attempts_ok [OF q ok(2) l])
  then obtain n s' where R: "sched_steal_from_busiest c l s = Some (n, s')" "steal_frame s s'" "n = 0 \<and> queues_ok s' Q S \<or>
     (\<exists>v k t. pick_busiest c s = Some v \<and> stolen_from Q v c (stealable c s) = (k, t) \<and> t \<noteq> [] \<and> n = of_nat (length t)
       \<and> queues_ok s' (Q(v := rev k, c := rev t @ Q c)) S)" unfolding steal_outcome_def by blast
  show ?thesis
  proof (cases "n = 0 \<and> queues_ok s' Q S")
    case True
    then have "sched_ok s' Q S P A" using reshape_ok [OF ok(1) R(2)] by blast
    then show ?thesis using R(1,2) True by blast
  next
    case False
    with R(3) obtain v k t where v: "pick_busiest c s = Some v" "stolen_from Q v c (stealable c s) = (k, t)" "t \<noteq> []"
      "n = of_nat (length t)" "queues_ok s' (Q(v := rev k, c := rev t @ Q c)) S" by blast
    note B = pick_busiest_longest [OF q v(1)]
    have "n \<noteq> 0" using splice_tail_ok(5) [OF q ok(2) v(1) l [OF B(1)] v(2) v(3)] v(4) by auto
    moreover have "set k \<union> set t = set (Q v)"
      using pick_tail_spec [OF v(2) [unfolded stolen_from_def]] by (metis set_mset_mset set_mset_union set_rev)
    then have "sched_ok s' (Q(v := rev k, c := rev t @ Q c)) S P A"
      using B(1) ok(2) by (intro reshape_ok [OF ok(1) R(2) v(5)]) auto
    ultimately show ?thesis using R(1,2) v(2,3) B(1,2) by blast
  qed
qed

text \<open>Choosing the next task: nothing, or a task that is nowhere else any more.\<close>

lemma pick_next_ok:
  assumes ok: "sched_ok s Q S P A" "c < g_cpu_count s"
  shows "\<exists>nx s' Q'. pick_next e c s = Some (nx, s') \<and> steal_frame s s' \<and> sched_ok s' Q' S P A
    \<and> (nx \<noteq> NULL \<longrightarrow> unplaced s' Q' S P A nx \<and> tstate s' nx \<in> {TASK_STATE_READY, TASK_STATE_ZOMBIE})
    \<and> (barrier_flag s \<longrightarrow> nx = NULL)
    \<and> (\<not> barrier_flag s \<longrightarrow> nx = hd0 (Q c) NULL \<and> Q c \<noteq> [] \<and> Q' = Q(c := tl (Q c)) \<or> Q c = [] \<and> nx = NULL \<and> Q' = Q
      \<or> Q c = [] \<and> (\<exists>v k t. v < g_cpu_count s \<and> v \<noteq> c \<and> stolen_from Q v c (stealable c s) = (k, t) \<and> t \<noteq> [] \<and> nx = hd (rev t) \<and> Q' = Q(v := rev k, c := tl (rev t))))"
proof (cases "barrier_flag s")
  case True
  then have "pick_next e c s = Some (NULL, s)" by (simp add: pick_next_def)
  then show ?thesis using ok True steal_frame_refl by blast
next
  case b: False
  obtain p s1 where d: "runq_dequeue_ready c s = (p, s1)" by (metis surj_pair)
  note D = dequeue_ok [OF ok d]
  show ?thesis
  proof (cases "p = NULL")
    case False
    have "pick_next e c s = Some (p, s1)" using b d False by (simp add: pick_next_def)
    then show ?thesis using D False b dequeue_frame [OF d] by blast
  next
    case True
    then have Qc: "Q c = []" using D(3) by simp
    then have ok1: "sched_ok s1 Q S P A" using D(2) by (simp add: fun_upd_idem)
    have s1: "s1 = s" using rq_empty [OF queues_okD(1) [of s Q S c]] ok Qc d by (simp add: sched_ok_def runq_dequeue_ready_def)
    from steal_ok [OF ok, of "se_locks e"] obtain n s2 Q2 where T: "sched_steal_from_busiest c (se_locks e) s = Some (n, s2)" "steal_frame s s2"
      "sched_ok s2 Q2 S P A" "n = 0 \<and> Q2 = Q \<or> n \<noteq> 0 \<and> (\<exists>v k t. v < g_cpu_count s \<and> v \<noteq> c \<and> stolen_from Q v c (stealable c s) = (k, t) \<and> t \<noteq> [] \<and> Q2 = Q(v := rev k, c := rev t @ Q c))"
      by blast
    have e: "pick_next e c s = Some (if n > 0 then runq_dequeue_ready c s2 else (NULL, s2))"
      using b d True s1 T(1) by (simp add: pick_next_def)
    show ?thesis
    proof (cases "n = 0")
      case True
      then show ?thesis unfolding e using T(2-4) Qc b by auto
    next
      case n: False
      then obtain v k t where v: "v < g_cpu_count s" "v \<noteq> c" "stolen_from Q v c (stealable c s) = (k, t)" "t \<noteq> []" "Q2 = Q(v := rev k, c := rev t)"
        using T(4) Qc by auto
      obtain p2 s3 where d2: "runq_dequeue_ready c s2 = (p2, s3)" by (metis surj_pair)
      have "c < g_cpu_count s2" using ok(2) frame_fields(7) [OF T(2)] by simp
      note D2 = dequeue_ok [OF T(3) this d2]
      have "Q2 c = rev t" using v(5) by simp
      then have p2: "p2 = hd (rev t)" "Q2(c := tl (Q2 c)) = Q(v := rev k, c := tl (rev t))" "p2 \<noteq> NULL" using D2(1,3) v by (auto simp: hd0_def)
      have "pick_next e c s = Some (p2, s3)" unfolding e using n d2 by (simp add: word_gt_0)
      moreover have "steal_frame s s3" by (rule steal_frame_trans [OF T(2) dequeue_frame [OF d2]])
      ultimately show ?thesis using D2(2,4) p2 v(1-4) Qc b unfolding p2(2) by blast
    qed
  qed
qed

text \<open>A processor starts a task that is nowhere, or its idle task.\<close>

lemma run_ok:
  assumes ok: "sched_ok s Q S P A" "c < g_cpu_count s" "c \<notin> A" and t: "unplaced s Q S P A t \<or> t = idle_on s c"
  defines "s' \<equiv> upd_rq c (\<lambda>q. q\<lparr>rq_current := t\<rparr>) (set_state t TASK_STATE_RUNNING s)"
  shows "sched_ok s' Q S P (insert c A)"
proof -
  note I = idle_not_placed [OF ok]
  have f: "tstate s' = (tstate s)(t := TASK_STATE_RUNNING)" "g_cpu_count s' = g_cpu_count s" "runq_next s' = runq_next s" "runq_prev s' = runq_prev s"
    "runq_state.more s' = runq_state.more s" by (simp_all add: s'_def runq_sets)
  have r: "ready_head (runqs s' d) = ready_head (runqs s d)" "ready_tail (runqs s' d) = ready_tail (runqs s d)" "ready_count (runqs s' d) = ready_count (runqs s d)"
    "starved_head (runqs s' d) = starved_head (runqs s d)" "idle_on s' d = idle_on s d" "cur_on s' d = (if d = c then t else cur_on s d)" for d
    by (simp_all add: s'_def runq_sets)
  note x = sched_ext [OF f(5)]
  have q: "queues_ok s' Q S = queues_ok s Q S" unfolding queues_ok_def rq_ok_def f r by (rule refl)
  have n: "t \<notin> queued (g_cpu_count s) Q S" "t \<notin> set P" "t \<notin> cur_on s ` A" "t \<in> tasks s" "is_idle s t \<longrightarrow> t = idle_on s c"
  proof -
    have "t \<notin> queued (g_cpu_count s) Q S \<union> set P \<union> cur_on s ` A \<and> t \<in> tasks s \<and> (is_idle s t \<longrightarrow> t = idle_on s c)"
      using t
    proof
      assume "t = idle_on s c"
      then show ?thesis using I(1,2) by (simp only: simp_thms)
    qed (simp add: unplaced_def)
    then show "t \<notin> queued (g_cpu_count s) Q S" "t \<notin> set P" "t \<notin> cur_on s ` A" "t \<in> tasks s" "is_idle s t \<longrightarrow> t = idle_on s c" by blast+
  qed
  have i: "d < g_cpu_count s \<Longrightarrow> d \<noteq> c \<Longrightarrow> idle_on s d \<noteq> t" for d
    using t I(4) ok(1) unfolding unplaced_def sched_ok_def placed_ok_def by metis
  have cc: "d \<in> A \<Longrightarrow> d \<noteq> c" for d using ok(3) by auto
  have st: "states_ok s Q S P A" and pl: "placed_ok s Q S P A" using ok(1) by (simp_all add: sched_ok_def)
  have nq: "u \<in> set (Q d) \<Longrightarrow> d < g_cpu_count s \<Longrightarrow> u \<noteq> t" "u \<in> set (S d) \<Longrightarrow> d < g_cpu_count s \<Longrightarrow> u \<noteq> t" for u d
    using n(1) by (auto simp: queued_def on_cpu_def)
  have "states_ok s' Q S P (insert c A)" using st n(2,3) nq cc i unfolding states_ok_def f r x by (auto simp: image_iff)
  moreover have "inj_on (cur_on s') (insert c A)" using pl n(3) cc unfolding placed_ok_def inj_on_def r by (auto simp: image_iff)
  moreover have "cur_on s' ` insert c A = insert t (cur_on s ` A)" using cc unfolding r by (auto simp: image_iff)
  ultimately have "states_ok s' Q S P (insert c A)" "placed_ok s' Q S P (insert c A)"
    using pl n ok(2) cc unfolding placed_ok_def f(2) r x by auto
  then show ?thesis using ok(1) q unfolding sched_ok_def f x by blast
qed

text \<open>The fields that no step of a dispatch touches, and the signals of the idle tasks.\<close>

definition keeps :: "'a sched_state_scheme \<Rightarrow> 'a sched_state_scheme \<Rightarrow> bool" where
  "keeps s s' \<longleftrightarrow> g_cpu_count s' = g_cpu_count s \<and> (\<forall>d. idle_on s' d = idle_on s d) \<and> is_idle s' = is_idle s \<and> barrier_flag s' = barrier_flag s
    \<and> owner_task s' = owner_task s \<and> sched_lock_owner s' = sched_lock_owner s \<and> next_task_id s' = next_task_id s
    \<and> (\<forall>u. pending_signals s u = 0 \<longrightarrow> pending_signals s' u = 0)"

lemma keeps_refl [simp]: "keeps s s"
  by (simp add: keeps_def)

lemma keeps_trans: "keeps s s' \<Longrightarrow> keeps s' s'' \<Longrightarrow> keeps s s''"
  by (simp add: keeps_def)

lemma moved_keeps: "moved T s s' \<Longrightarrow> keeps s s'"
  by (simp add: keeps_def moved_def)

lemma dispatch_core:
  defines "r e c t s \<equiv> upd_rq c (\<lambda>q. q\<lparr>rq_current := t\<rparr>) (set_state t TASK_STATE_RUNNING s)"
  shows "same_core (r e c t s) (dispatch e c t s)" "keeps s (dispatch e c t s)" "io_same s (dispatch e c t s)"
    "cur_on (dispatch e c t s) d = (if d = c then t else cur_on s d)" "tstate (dispatch e c t s) = (tstate s)(t := TASK_STATE_RUNNING)"
    "pending_signals (dispatch e c t s) = pending_signals s" "task_regs (dispatch e c t s) = task_regs s"
  by (simp_all add: r_def dispatch_def Let_def same_core_def same_rq_def keeps_def io_same_def runq_sets)

lemma dispatch_ok:
  assumes "sched_ok s Q S P A" "c < g_cpu_count s" "c \<notin> A" "unplaced s Q S P A t \<or> t = idle_on s c"
  shows "sched_ok (dispatch e c t s) Q S P (insert c A)"
  using run_ok [OF assms] by (simp only: same_core_ok [OF dispatch_core(1)])

lemma load_core: "same_core s (load_task c t s)" "keeps s (load_task c t s)" "io_same s (load_task c t s)"
    "cpu_frame (load_task c t s) = (cpu_frame s)(c := task_regs s t)" "cpu_cr3 (load_task c t s) c = task_cr3 s t"
    "pending_signals (load_task c t s) = pending_signals s"
  by (simp_all add: load_task_def Let_def same_core_def same_rq_def keeps_def io_same_def)

text \<open>Delivering signals clears pending bits, and may end the task after its parent has been woken.\<close>

lemma deliver_shape:
  "deliver_from self t sigs s = (ended, s') \<Longrightarrow>
    \<exists>x s1. wake_step (s\<lparr>pending_signals := (pending_signals s)(t := x)\<rparr>) s1 \<and> io_same s s1
      \<and> s' = (if ended then set_state t TASK_STATE_ZOMBIE s1 else s1) \<and> (\<not> ended \<longrightarrow> same_core s s1)"
proof (induction self t sigs s rule: deliver_from.induct)
  case (1 self t s)
  then have e: "s' = s" "\<not> ended" by simp_all
  have "wake_step (s\<lparr>pending_signals := (pending_signals s)(t := pending_signals s t)\<rparr>) s" by simp
  then show ?case using e io_same_refl [of s] by (intro exI [of _ "pending_signals s t"] exI [of _ s]) (simp add: same_core_def)
next
  case (2 self t sig sigs s)
  let ?skip = "pending_signals s t AND push_bit sig 1 = 0"
  let ?s = "s\<lparr>pending_signals := (pending_signals s)(t := pending_signals s t AND NOT (push_bit sig 1))\<rparr>"
  let ?h = "signal_handlers ?s t sig"
  show ?case
  proof (cases ?skip)
    case True
    then show ?thesis using 2(1) 2(4) by simp
  next
    case ns: False
    show ?thesis
    proof (cases "?h = SIG_DFL")
      case True
      let ?s1 = "?s\<lparr>exit_status := (exit_status ?s)(t := 128 + int sig)\<rparr>"
      let ?s2 = "sched_orphan_children (task_id (ph ?s1) t) ?s1"
      let ?s3 = "wake_waiting_parent self (task_id (ph ?s2) t) ?s2"
      have "wake_step ?s ?s1" by (rule wake_step_core) (simp_all add: same_core_def wakes_def)
      then have "wake_step ?s ?s3" using orphan_step wake_parent_step wake_step_trans by meson
      moreover have "io_same s ?s1" by (simp add: io_same_def)
      then have "io_same s ?s3" using io_same_orphan io_same_parent io_same_trans by meson
      moreover have "deliver_from self t (sig # sigs) s = (True, set_state t TASK_STATE_ZOMBIE ?s3)"
        unfolding deliver_from.simps(2) if_not_P [OF ns] Let_def using True by (simp only: SIG_DFL_def SIG_IGN_def if_True if_False zero_neq_one simp_thms)
      then have "ended" "s' = set_state t TASK_STATE_ZOMBIE ?s3" using 2(4) by simp_all
      ultimately show ?thesis by (intro exI [of _ "pending_signals s t AND NOT (push_bit sig 1)"] exI [of _ ?s3]) (simp only: if_True simp_thms)
    next
      case False
      have "deliver_from self t sigs ?s = (ended, s')" using 2(4) ns False by (simp add: Let_def split: if_splits)
      then obtain x s1 where D: "wake_step (?s\<lparr>pending_signals := (pending_signals ?s)(t := x)\<rparr>) s1" "io_same ?s s1"
        "s' = (if ended then set_state t TASK_STATE_ZOMBIE s1 else s1)" "\<not> ended \<longrightarrow> same_core ?s s1"
        using 2(2) [OF ns refl refl] 2(3) [OF ns refl refl _ False] by (cases "?h = SIG_IGN") blast+
      have "?s\<lparr>pending_signals := (pending_signals ?s)(t := x)\<rparr> = s\<lparr>pending_signals := (pending_signals s)(t := x)\<rparr>" by simp
      moreover have "io_same s s1" "\<not> ended \<longrightarrow> same_core s s1" using D(2,4) by (simp_all add: io_same_def same_core_def)
      ultimately show ?thesis using D(1,3) by (intro exI [of _ x] exI [of _ s1]) (simp only: simp_thms)
    qed
  qed
qed

abbreviation post_signal_panic :: string where
  "post_signal_panic \<equiv> ''no runnable tasks post-signal''"

lemma deliver_ok:
  assumes d: "sched_deliver_signals c t s = (ended, s')" and ok: "sched_ok s Q S P A" "io_inv s" and i: "is_idle s t \<longrightarrow> pending_signals s t = 0"
  shows "\<exists>Q'. sched_ok s' Q' S P A \<and> grows Q Q'" "io_inv s'" "keeps s s'" "cur_on s' x = cur_on s x"
    "pending_signals s t = 0 \<Longrightarrow> \<not> ended \<and> s' = s"
proof -
  have "(\<exists>Q'. sched_ok s' Q' S P A \<and> grows Q Q') \<and> io_inv s' \<and> keeps s s' \<and> cur_on s' x = cur_on s x"
  proof (cases "t = NULL \<or> pending_signals s t = 0")
    case True
    then show ?thesis using d ok grows_refl by (auto simp: sched_deliver_signals_def)
  next
    case False
    then have "deliver_from c t [1..<MAX_SIGNALS] s = (ended, s')" using d by (simp add: sched_deliver_signals_def)
    from deliver_shape [OF this] obtain x s1 where D: "wake_step (s\<lparr>pending_signals := (pending_signals s)(t := x)\<rparr>) s1" "io_same s s1"
      "s' = (if ended then set_state t TASK_STATE_ZOMBIE s1 else s1)" by blast
    let ?s = "s\<lparr>pending_signals := (pending_signals s)(t := x)\<rparr>"
    have k: "keeps s ?s" using False by (simp add: keeps_def)
    have k1: "keeps s s1" by (rule keeps_trans [OF k moved_keeps [OF wake_step_moved [OF D(1)]]])
    have "same_core s ?s" by (simp add: same_core_def)
    then obtain Q' where ok1: "sched_ok s1 Q' S P A" "grows Q Q'" using D(1) ok(1) same_core_ok unfolding wake_step_def by blast
    have "is_idle s1 = is_idle s" using k1 by (simp add: keeps_def)
    then have "sched_ok s' Q' S P A" using kill_ok [OF ok1(1)] ok1(1) i False D(3) by auto
    moreover have "keeps s1 s'" "io_same s1 s'" "cur_on s' x = cur_on s1 x" for x unfolding D(3) by (auto simp: keeps_def io_same_def set_state_def)
    moreover have "cur_on s1 x = cur_on s x" for x using D(1) unfolding wake_step_def wakes_def by simp
    ultimately show ?thesis using ok1(2) keeps_trans [OF k1] io_same_inv io_same_trans D(2) ok(2) by metis
  qed
  then show "\<exists>Q'. sched_ok s' Q' S P A \<and> grows Q Q'" "io_inv s'" "keeps s s'" "cur_on s' x = cur_on s x" by blast+
  show "pending_signals s t = 0 \<Longrightarrow> \<not> ended \<and> s' = s" using d by (auto simp: sched_deliver_signals_def)
qed

text \<open>The replacement of a task that a signal has ended.\<close>

lemma replace_ok:
  fixes i :: nat
  assumes ok: "sched_ok s Q S P A" "c \<in> A" and d: "runq_dequeue_ready c s = (p, s1)"
  defines "r \<equiv> if p = NULL then fallback_task c s1 else p"
  defines "s' \<equiv> upd_rq c (\<lambda>q. q\<lparr>rq_current := r\<rparr>) (set_state r TASK_STATE_RUNNING (if c = 0 then s1\<lparr>current_task_index := i\<rparr> else s1))"
  shows "r \<noteq> NULL" "\<exists>Q'. sched_ok s' Q' S P A" "keeps s s'" "io_same s s'" "x \<noteq> c \<Longrightarrow> cur_on s' x = cur_on s x"
proof -
  have cn: "c < g_cpu_count s" using ok by (auto simp: sched_ok_def placed_ok_def)
  note F = frame_fields [OF dequeue_frame [OF d]]
  note D = dequeue_ok [OF detach_ok [OF ok(1), of c] cn d]
  let ?s = "if c = 0 then s1\<lparr>current_task_index := i\<rparr> else s1"
  have c: "same_core s1 ?s" "idle_on ?s c = idle_on s1 c" "g_cpu_count ?s = g_cpu_count s" "keeps s1 ?s" "io_same s1 ?s" "cur_on ?s x = cur_on s x" for x
    using F(5,7) by (simp_all add: same_core_def keeps_def io_same_def)
  have "idle_on s1 c \<in> tasks s1" using ok(1) cn F(4,6) by (simp add: sched_ok_def placed_ok_def)
  then have inn: "idle_on s1 c \<noteq> NULL" by (auto simp: tasks_def)
  then show "r \<noteq> NULL" by (simp add: r_def fallback_task_def)
  have "unplaced ?s (Q(c := tl (Q c))) S P (A - {c}) r \<or> r = idle_on ?s c"
    using D(4) inn unfolding r_def fallback_task_def c(2) by (auto simp: unplaced_def tasks_def)
  then have "sched_ok s' (Q(c := tl (Q c))) S P (insert c (A - {c}))" unfolding s'_def
    by (intro run_ok) (use D(2) same_core_ok [OF c(1)] c(3) cn in simp_all)
  then show "\<exists>Q'. sched_ok s' Q' S P A" using ok(2) by (auto simp: insert_absorb)
  have "keeps ?s s'" "io_same ?s s'" "x \<noteq> c \<Longrightarrow> cur_on s' x = cur_on ?s x"
    unfolding s'_def by (simp_all add: keeps_def io_same_def runq_sets)
  then show "keeps s s'" "io_same s s'" "x \<noteq> c \<Longrightarrow> cur_on s' x = cur_on s x"
    using keeps_trans [OF keeps_trans [OF moved_keeps [OF F(1)] c(4)]] io_same_trans [OF io_same_trans [OF F(2) c(5)]] c(6) by simp_all
qed

lemma signal_or_replace_ok:
  assumes ok: "sched_ok s Q S P A" "io_inv s" "c \<in> A" and i: "is_idle s t \<longrightarrow> pending_signals s t = 0"
  shows "signal_or_replace c t s = Panicked post_signal_panic \<or> (\<exists>t' s' Q'. signal_or_replace c t s = Done (t', s')
      \<and> sched_ok s' Q' S P A \<and> io_inv s' \<and> keeps s s' \<and> (\<forall>x. x \<noteq> c \<longrightarrow> cur_on s' x = cur_on s x))"
    "pending_signals s t = 0 \<Longrightarrow> signal_or_replace c t s = Done (t, s)"
proof -
  obtain ended s1 where d: "sched_deliver_signals c t s = (ended, s1)" by (metis surj_pair)
  note D = deliver_ok [OF d ok(1,2) i]
  show "pending_signals s t = 0 \<Longrightarrow> signal_or_replace c t s = Done (t, s)" using D(5) d by (simp add: signal_or_replace_def)
  obtain Q1 where ok1: "sched_ok s1 Q1 S P A" using D(1) by blast
  obtain p s2 where p: "runq_dequeue_ready c s1 = (p, s2)" by (metis surj_pair)
  define r where "r = (if p = NULL then fallback_task c s2 else p)"
  define s3 where "s3 = upd_rq c (\<lambda>q. q\<lparr>rq_current := r\<rparr>) (set_state r TASK_STATE_RUNNING (if c = 0 then s2\<lparr>current_task_index := nat (task_id (ph s2) r)\<rparr> else s2))"
  note R = replace_ok(1) [OF ok1 ok(3) p, folded r_def]
    replace_ok(2-5) [OF ok1 ok(3) p, where i = "nat (task_id (ph s2) r)", folded r_def, folded s3_def]
  consider "\<not> ended" | "ended" "tstate s2 r = TASK_STATE_ZOMBIE" | "ended" "tstate s2 r \<noteq> TASK_STATE_ZOMBIE" by blast
  then show "signal_or_replace c t s = Panicked post_signal_panic \<or> (\<exists>t' s' Q'. signal_or_replace c t s = Done (t', s')
      \<and> sched_ok s' Q' S P A \<and> io_inv s' \<and> keeps s s' \<and> (\<forall>x. x \<noteq> c \<longrightarrow> cur_on s' x = cur_on s x))"
  proof cases
    case 1
    then have "signal_or_replace c t s = Done (t, s1)" using d by (simp add: signal_or_replace_def)
    then show ?thesis using D(2-4) ok1 by blast
  next
    case 2
    then show ?thesis using d p r_def by (simp add: signal_or_replace_def Let_def)
  next
    case 3
    then have "signal_or_replace c t s = Done (r, s3)" using d p R(1) unfolding s3_def by (simp add: signal_or_replace_def Let_def r_def [symmetric])
    moreover have "io_inv s3" using io_same_inv [OF R(4)] D(2) by simp
    moreover have "cur_on s3 x = cur_on s x" if "x \<noteq> c" for x using R(5) [OF that] D(4) by simp
    ultimately show ?thesis using R(2) keeps_trans [OF D(3) R(3)] by blast
  qed
qed

lemma switch_to_ok:
  assumes ok: "sched_ok s Q S P A" "io_inv s" "c < g_cpu_count s" "c \<notin> A" and nx: "nx \<noteq> NULL \<longrightarrow> unplaced s Q S P A nx"
    and i: "pending_signals s (idle_on s c) = 0"
  defines "t \<equiv> if nx \<noteq> NULL \<and> tstate s nx \<noteq> TASK_STATE_ZOMBIE then nx else idle_on s c"
  shows "switch_to e c nx s = Panicked post_signal_panic \<or> (\<exists>s' Q'. switch_to e c nx s = Done s'
      \<and> sched_ok s' Q' S P (insert c A) \<and> io_inv s' \<and> keeps s s' \<and> (\<forall>x. x \<noteq> c \<longrightarrow> cur_on s' x = cur_on s x))"
    "pending_signals s t = 0 \<Longrightarrow> switch_to e c nx s = Done (load_task c t (dispatch e c t s))" "sched_ok (dispatch e c t s) Q S P (insert c A)"
    "t \<noteq> NULL" "is_idle s t \<Longrightarrow> t = idle_on s c"
proof -
  have I: "idle_on s c \<noteq> NULL" "tstate s (idle_on s c) \<noteq> TASK_STATE_ZOMBIE"
    using ok(1,3) by (auto simp: sched_ok_def placed_ok_def states_ok_def tasks_def)
  then show "t \<noteq> NULL" by (simp add: t_def)
  have u: "unplaced s Q S P A t \<or> t = idle_on s c" using nx by (auto simp: t_def)
  show ti: "is_idle s t \<Longrightarrow> t = idle_on s c" using u by (auto simp: unplaced_def)
  show okd: "sched_ok (dispatch e c t s) Q S P (insert c A)" by (rule dispatch_ok [OF ok(1,3,4) u])
  note C = dispatch_core(2-7) [where s = s and e = e and c = c and t = t]
  have e: "switch_to e c nx s = (case signal_or_replace c t (dispatch e c t s) of
               Done (t, s) \<Rightarrow> Done (load_task c t s)
             | Halted \<Rightarrow> Halted | Panicked m \<Rightarrow> Panicked m | Faulted \<Rightarrow> Faulted | Diverges \<Rightarrow> Diverges)"
    using I by (auto simp: switch_to_def t_def fallback_task_def Let_def)
  have idl: "is_idle (dispatch e c t s) t \<longrightarrow> pending_signals (dispatch e c t s) t = 0"
    using C(1,5) ti i by (auto simp: keeps_def)
  have iod: "io_inv (dispatch e c t s)" using io_same_inv [OF C(2)] ok(2) by simp
  note R = signal_or_replace_ok [OF okd iod _ idl, of c]
  show "pending_signals s t = 0 \<Longrightarrow> switch_to e c nx s = Done (load_task c t (dispatch e c t s))" using R(2) C(5) e by simp
  have R1: "signal_or_replace c t (dispatch e c t s) = Panicked post_signal_panic \<or> (\<exists>t' s' Q'. signal_or_replace c t (dispatch e c t s) = Done (t', s')
      \<and> sched_ok s' Q' S P (insert c A) \<and> io_inv s' \<and> keeps (dispatch e c t s) s' \<and> (\<forall>x. x \<noteq> c \<longrightarrow> cur_on s' x = cur_on (dispatch e c t s) x))"
    by (rule R(1)) simp
  show "switch_to e c nx s = Panicked post_signal_panic \<or> (\<exists>s' Q'. switch_to e c nx s = Done s'
      \<and> sched_ok s' Q' S P (insert c A) \<and> io_inv s' \<and> keeps s s' \<and> (\<forall>x. x \<noteq> c \<longrightarrow> cur_on s' x = cur_on s x))"
    using R1
  proof (elim disjE exE conjE)
    fix t' s' Q' assume h: "signal_or_replace c t (dispatch e c t s) = Done (t', s')" "sched_ok s' Q' S P (insert c A)" "io_inv s'"
      "keeps (dispatch e c t s) s'" "\<forall>x. x \<noteq> c \<longrightarrow> cur_on s' x = cur_on (dispatch e c t s) x"
    note L = load_core [where s = s' and c = c and t = t']
    have "switch_to e c nx s = Done (load_task c t' s')" using h(1) e by simp
    moreover have "sched_ok (load_task c t' s') Q' S P (insert c A)" "io_inv (load_task c t' s')"
      using same_core_ok [OF L(1)] io_same_inv [OF L(3)] h(2,3) by simp_all
    moreover have "cur_on (load_task c t' s') x = cur_on s x" if "x \<noteq> c" for x
      using L(1) h(5) C(3) [of x] that by (simp add: same_core_def same_rq_def)
    ultimately show ?thesis using keeps_trans [OF keeps_trans [OF C(1) h(4)] L(2)] by blast
  qed (use e in simp)
qed

end
