(* ===== verification/Spec2Isabelle.thy ===== *)
theory Spec2Isabelle
  imports Cap_Safety Channel_Io Snap_Capture Scheduler
begin

text \<open>
  GrahaOS: a verification library for the core of the GrahaOS kernel.

  The kernel mediates every resource through capability objects named by packed tokens, moves
  messages through typed channels and pipes, groups channel sends into transactions, and manages
  processes, pages and per-task limits. Each theory models one of these parts.

  \<^item> \<open>Prelude\<close>: C integer types, return codes, masks, scans, byte encodings, the external trace.
  \<^item> \<open>Cap_Token\<close>: kernel/cap/token.h, token.c.
\<close>

text \<open>
  C17: the accessors recover exactly what \<open>cap_token_pack\<close> stored (generation and flags always, the
  index when it fits its 24 bits), and packing the accessors' results gives the token back, so
  tokens and (generation, 24-bit index, flags) triples are in bijection.
\<close>

theorem cap_token_roundtrip:
  "cap_token_gen (cap_token_pack g i f) = g
   \<and> cap_token_idx (cap_token_pack g i f) = i AND 0xFFFFFF
   \<and> cap_token_flags (cap_token_pack g i f) = f
   \<and> unat (cap_token_idx t) < 2 ^ 24
   \<and> cap_token_pack (cap_token_gen t) (cap_token_idx t) (cap_token_flags t) = t"
  using cap_token_idx_less [of t] by (simp add: cap_token_idx_pack_mask)

end
